(* ===== verification/Forge_Prelude.thy ===== *)
theory Forge_Prelude
  imports Main "HOL-Library.Multiset" "HOL-Library.Word"
begin

section \<open>Shared vocabulary of the Forge development\<close>

text \<open>
  This theory holds what the component theories share:
  \<^item> labelled transition systems: a step carries a label, \<open>Tau\<close> for an internal atomic action and
    \<open>Act e\<close> for an action that is a linearisation point of an operation. One atomic access of the
    C++ code (a load, a store, an exchange, a compare-exchange, a fetch-add) is one step, so every
    interleaving of the accesses of the threads is a run of the relation;
  \<^item> the interfaces \<open>lts_invariant\<close> and \<open>lts_simulation\<close> (locales): a component proves the laws for
    its own step relation once and gets invariance in every reachable state and trace inclusion in
    its abstract specification;
  \<^item> the exceptions the C++ code throws, as values of a sum type, and the sequencing of fallible code;
  \<^item> the decimal printer behind \<open>std::to_string\<close>, and list and map facts used by several components.
\<close>

named_theorems inv_defs \<open>definitions of invariants and simulation relations\<close>
named_theorems op_defs \<open>definitions of the operations of a component\<close>

subsection \<open>Threads, addresses, labels\<close>

type_synonym tid = nat
type_synonym addr = nat

datatype 'e label = Tau | Act 'e

subsection \<open>Reachability and traces of a labelled step relation\<close>

inductive reachable :: "('s \<Rightarrow> bool) \<Rightarrow> ('s \<Rightarrow> 'e label \<Rightarrow> 's \<Rightarrow> bool) \<Rightarrow> 's \<Rightarrow> bool"
  for init step where
  reach_init: "init s \<Longrightarrow> reachable init step s"
| reach_step: "reachable init step s \<Longrightarrow> step s l t \<Longrightarrow> reachable init step t"

inductive trace :: "('s \<Rightarrow> 'e label \<Rightarrow> 's \<Rightarrow> bool) \<Rightarrow> 's \<Rightarrow> 'e list \<Rightarrow> 's \<Rightarrow> bool"
  for step where
  trace_refl: "trace step s [] s"
| trace_tau: "trace step s es t \<Longrightarrow> step t Tau u \<Longrightarrow> trace step s es u"
| trace_act: "trace step s es t \<Longrightarrow> step t (Act e) u \<Longrightarrow> trace step s (es @ [e]) u"

inductive spec_trace :: "('a \<Rightarrow> 'e \<Rightarrow> 'a \<Rightarrow> bool) \<Rightarrow> 'a \<Rightarrow> 'e list \<Rightarrow> 'a \<Rightarrow> bool"
  for astep where
  spec_refl: "spec_trace astep a [] a"
| spec_act: "spec_trace astep a es b \<Longrightarrow> astep b e c \<Longrightarrow> spec_trace astep a (es @ [e]) c"

inductive_cases spec_trace_NilE: "spec_trace astep a [] b"

lemma trace_single: "step s (Act e) t \<Longrightarrow> trace step s [e] t"
  using trace_act [of step s "[]" s e t] by (simp add: trace_refl)

lemma trace_append: "trace step t es' u \<Longrightarrow> trace step s es t \<Longrightarrow> trace step s (es @ es') u"
proof (induction arbitrary: s es rule: trace.induct)
  case (trace_act t es' u e v)
  then show ?case using trace.trace_act [of step s "es @ es'" u e v] by simp
qed (auto intro: trace.trace_tau)

lemma trace_reachable: "trace step s es t \<Longrightarrow> reachable init step s \<Longrightarrow> reachable init step t"
  by (induction rule: trace.induct) (auto intro: reach_step)

lemma reachable_trace: "reachable init step t \<Longrightarrow> \<exists>s es. init s \<and> trace step s es t"
proof (induction rule: reachable.induct)
  case (reach_init s)
  then show ?case by (blast intro: trace_refl)
next
  case (reach_step s l t)
  then obtain s0 es where "init s0" and tr: "trace step s0 es s" by blast
  then show ?case
  proof (cases l)
    case Tau
    with \<open>init s0\<close> tr reach_step.hyps(2) show ?thesis by (blast intro: trace_tau)
  next
    case (Act e)
    with \<open>init s0\<close> tr reach_step.hyps(2) show ?thesis by (blast intro: trace_act)
  qed
qed

subsection \<open>The interface of an invariant\<close>

locale lts_invariant =
  fixes init :: "'s \<Rightarrow> bool"
    and step :: "'s \<Rightarrow> 'e label \<Rightarrow> 's \<Rightarrow> bool"
    and inv :: "'s \<Rightarrow> bool"
  assumes inv_init: "init s \<Longrightarrow> inv s"
    and inv_step: "inv s \<Longrightarrow> step s l t \<Longrightarrow> inv t"
begin

lemma reachable_inv: "reachable init step s \<Longrightarrow> inv s"
  by (induction rule: reachable.induct) (auto intro: inv_init inv_step)

lemma trace_inv: "trace step s es t \<Longrightarrow> inv s \<Longrightarrow> inv t"
  by (induction rule: trace.induct) (auto intro: inv_step)

end

subsection \<open>The interface of a refinement\<close>

text \<open>
  A forward simulation: \<open>sim s a\<close> relates a concrete state to an abstract one. Internal steps stutter,
  labelled steps are matched by an abstract step with the same label.
\<close>

locale lts_simulation =
  fixes init :: "'s \<Rightarrow> bool"
    and step :: "'s \<Rightarrow> 'e label \<Rightarrow> 's \<Rightarrow> bool"
    and sim :: "'s \<Rightarrow> 'a \<Rightarrow> bool"
    and spec_init :: "'a"
    and spec_step :: "'a \<Rightarrow> 'e \<Rightarrow> 'a \<Rightarrow> bool"
  assumes sim_init: "init s \<Longrightarrow> sim s spec_init"
    and sim_tau: "sim s a \<Longrightarrow> step s Tau t \<Longrightarrow> sim t a"
    and sim_act: "sim s a \<Longrightarrow> step s (Act e) t \<Longrightarrow> \<exists>b. spec_step a e b \<and> sim t b"
begin

lemma sim_trace: "trace step s es t \<Longrightarrow> sim s a \<Longrightarrow> \<exists>b. spec_trace spec_step a es b \<and> sim t b"
proof (induction rule: trace.induct)
  case (trace_refl s)
  then show ?case by (blast intro: spec_refl)
next
  case (trace_tau s es t u)
  then show ?case by (blast intro: sim_tau)
next
  case (trace_act s es t e u)
  then obtain b where b: "spec_trace spec_step a es b" "sim t b" by blast
  from sim_act [OF b(2) trace_act.hyps(2)] obtain c where "spec_step b e c" "sim u c" by blast
  with b show ?case by (blast intro: spec_act)
qed

lemma init_trace:
  "init s \<Longrightarrow> trace step s es t \<Longrightarrow> \<exists>b. spec_trace spec_step spec_init es b \<and> sim t b"
  by (blast intro: sim_trace sim_init)

lemma reachable_sim:
  assumes "reachable init step t"
  obtains b where "sim t b"
proof -
  from reachable_trace [OF assms] obtain s es where "init s" "trace step s es t" by blast
  from init_trace [OF this] show thesis by (blast intro: that)
qed

end

text \<open>A simulation is an invariant: some abstract state is always related.\<close>

sublocale lts_simulation \<subseteq> sim_inv: lts_invariant init step "\<lambda>s. \<exists>a. sim s a"
proof
  fix s l t
  assume "\<exists>a. sim s a" and "step s l t"
  then show "\<exists>a. sim t a" by (cases l) (blast dest: sim_tau sim_act)+
qed (blast intro: sim_init)

subsection \<open>The interfaces of the containers\<close>

text \<open>
  What a client may rely on between operations, stated over the abstract content. \<open>avail q a\<close> says that
  the address \<open>a\<close> may be handed out by the allocator; \<open>None\<close> is undefined behaviour and never results.
\<close>

locale fifo_queue =
  fixes repr :: "'q \<Rightarrow> 'a list \<Rightarrow> bool"
    and avail :: "'q \<Rightarrow> addr \<Rightarrow> bool"
    and enq :: "addr \<Rightarrow> 'a \<Rightarrow> 'q \<Rightarrow> 'q option"
    and deq :: "'q \<Rightarrow> ('a option \<times> 'q) option"
  assumes enq_law: "repr q xs \<Longrightarrow> avail q a \<Longrightarrow> \<exists>q'. enq a v q = Some q' \<and> repr q' (xs @ [v])"
    and deq_Nil: "repr q [] \<Longrightarrow> deq q = Some (None, q)"
    and deq_Cons: "repr q (x # xs) \<Longrightarrow> \<exists>q'. deq q = Some (Some x, q') \<and> repr q' xs"
begin

lemma deq_cases:
  assumes "repr q xs"
  obtains (empty) "xs = []" "deq q = Some (None, q)"
    | (item) x ys q' where "xs = x # ys" "deq q = Some (Some x, q')" "repr q' ys"
  using assms deq_Nil deq_Cons by (cases xs) blast+

end

locale work_deque =
  fixes repr :: "'q \<Rightarrow> 'a list \<Rightarrow> bool"
    and avail :: "'q \<Rightarrow> addr \<Rightarrow> bool"
    and push :: "addr \<Rightarrow> 'a \<Rightarrow> 'q \<Rightarrow> 'q option"
    and pop :: "'q \<Rightarrow> ('a option \<times> 'q) option"
    and steal :: "'q \<Rightarrow> ('a option \<times> 'q) option"
  assumes push_law: "repr q xs \<Longrightarrow> avail q a \<Longrightarrow> \<exists>q'. push a v q = Some q' \<and> repr q' (xs @ [v])"
    and pop_Nil: "repr q [] \<Longrightarrow> \<exists>q'. pop q = Some (None, q') \<and> repr q' []"
    and pop_snoc: "repr q (xs @ [x]) \<Longrightarrow> \<exists>q'. pop q = Some (Some x, q') \<and> repr q' xs"
    and steal_Nil: "repr q [] \<Longrightarrow> steal q = Some (None, q)"
    and steal_Cons: "repr q (x # xs) \<Longrightarrow> \<exists>q'. steal q = Some (Some x, q') \<and> repr q' xs"
begin

lemma pop_cases:
  assumes "repr q xs"
  obtains (empty) q' where "xs = []" "pop q = Some (None, q')" "repr q' []"
    | (item) x ys q' where "xs = ys @ [x]" "pop q = Some (Some x, q')" "repr q' ys"
  using assms pop_Nil pop_snoc by (cases xs rule: rev_cases) blast+

lemma steal_cases:
  assumes "repr q xs"
  obtains (empty) "xs = []" "steal q = Some (None, q)"
    | (item) x ys q' where "xs = x # ys" "steal q = Some (Some x, q')" "repr q' ys"
  using assms steal_Nil steal_Cons by (cases xs) blast+

text \<open>A pop undoes a push.\<close>

lemma push_pop:
  assumes "repr q xs" and "avail q a"
  shows "\<exists>q1 q2. push a v q = Some q1 \<and> pop q1 = Some (Some v, q2) \<and> repr q2 xs"
  using push_law [OF assms] pop_snoc by blast

end

subsection \<open>The weak compare-exchange\<close>

text \<open>
  \<open>weak_cas spurious expected desired actual\<close> is \<open>compare_exchange_weak\<close> on a location that holds
  \<open>actual\<close>: whether it succeeded, what \<open>expected\<close> holds afterwards, what the location holds afterwards.
\<close>

definition weak_cas :: "bool \<Rightarrow> 'a \<Rightarrow> 'a \<Rightarrow> 'a \<Rightarrow> bool \<times> 'a \<times> 'a" where
  "weak_cas spurious expected desired actual =
     (if actual = expected \<and> \<not> spurious then (True, expected, desired) else (False, actual, actual))"

lemma weak_cas_True: "weak_cas sp e d a = (True, e', a') \<longleftrightarrow> a = e \<and> \<not> sp \<and> e' = e \<and> a' = d"
  by (auto simp: weak_cas_def)

lemma weak_cas_False: "weak_cas sp e d a = (False, e', a') \<longleftrightarrow> (a \<noteq> e \<or> sp) \<and> e' = a \<and> a' = a"
  by (auto simp: weak_cas_def)

subsection \<open>Exceptions\<close>

text \<open>
  The exceptions the code throws. \<open>Other_exception\<close> is anything that is not derived from
  \<open>std::exception\<close> and so escapes the handlers that catch \<open>const std::exception&\<close>.
\<close>

datatype exn =
    Runtime_error string
  | Invalid_argument string
  | Out_of_range string
  | Json_exception string
  | Other_exception

fun is_std_exception :: "exn \<Rightarrow> bool" where
  "is_std_exception Other_exception = False"
| "is_std_exception _ = True"

fun what :: "exn \<Rightarrow> string" where
  "what (Runtime_error m) = m"
| "what (Invalid_argument m) = m"
| "what (Out_of_range m) = m"
| "what (Json_exception m) = m"
| "what Other_exception = []"

definition try_bind :: "exn + 'a \<Rightarrow> ('a \<Rightarrow> exn + 'b) \<Rightarrow> exn + 'b" where
  "try_bind r f = (case r of Inl e \<Rightarrow> Inl e | Inr x \<Rightarrow> f x)"

lemma try_bind_simps [simp]:
  "try_bind (Inl e) f = Inl e"
  "try_bind (Inr x) f = f x"
  by (simp_all add: try_bind_def)

lemma try_bind_eq_Inr [simp]: "try_bind r f = Inr y \<longleftrightarrow> (\<exists>x. r = Inr x \<and> f x = Inr y)"
  by (cases r) auto

lemma try_bind_cong [fundef_cong]:
  "r = r' \<Longrightarrow> (\<And>x. r' = Inr x \<Longrightarrow> f x = g x) \<Longrightarrow> try_bind r f = try_bind r' g"
  by (cases r') auto

subsection \<open>Decimal printing\<close>

text \<open>The digits \<open>std::to_string\<close> prints for an unsigned integer.\<close>

definition digit_char :: "nat \<Rightarrow> char" where
  "digit_char d = char_of (48 + d)"

fun to_string_nat :: "nat \<Rightarrow> string" where
  "to_string_nat n =
     (if n < 10 then [digit_char n] else to_string_nat (n div 10) @ [digit_char (n mod 10)])"

declare to_string_nat.simps [simp del]

definition to_string_int :: "int \<Rightarrow> string" where
  "to_string_int i = (if i < 0 then ''-'' @ to_string_nat (nat (- i)) else to_string_nat (nat i))"

lemma to_string_nat_nonempty [simp]: "to_string_nat n \<noteq> []"
  by (subst to_string_nat.simps) simp

abbreviation nl :: string where
  "nl \<equiv> [CHR 0x0A]"

text \<open>\<open>std::isdigit\<close> in the default locale.\<close>

definition is_digit :: "char \<Rightarrow> bool" where
  "is_digit c \<longleftrightarrow> 48 \<le> (of_char c :: nat) \<and> (of_char c :: nat) \<le> 57"

subsection \<open>Lists\<close>

lemma fun_upd_const [simp]: "(\<lambda>_. c)(x := c) = (\<lambda>_. c)"
  by auto

lemma last_Cons_nth: "last (x # xs) = (x # xs) ! length xs"
  by (simp add: last_conv_nth)

lemma map_update_same: "f y = f (xs ! k) \<Longrightarrow> map f (xs[k := y]) = map f xs"
  by (metis list_update_id map_update)

lemma list_update_snoc: "n = length xs \<Longrightarrow> (xs @ [y])[n := z] = xs @ [z]"
  by (simp add: list_update_append)

lemma sum_list_update_int:
  fixes xs :: "int list"
  shows "k < length xs \<Longrightarrow> sum_list (xs[k := x]) = sum_list xs - xs ! k + x"
  by (induction xs arbitrary: k) (auto split: nat.split)

lemma nth_snoc: "i < length xs \<Longrightarrow> (xs @ [x]) ! i = xs ! i"
  by (simp add: nth_append)

lemma distinct_nth_inj: "distinct xs \<Longrightarrow> i < length xs \<Longrightarrow> j < length xs \<Longrightarrow> xs ! i = xs ! j \<longleftrightarrow> i = j"
  by (simp add: nth_eq_iff_index_eq)

end
