(* ===== verification/MPSC_Queue.thy ===== *)
theory MPSC_Queue
  imports Forge_Prelude
begin

section \<open>The multi-producer single-consumer queue (src/src/core/mpsc\_queue.h)\<close>

text \<open>
  Nodes live in an explicit heap: an address that is not in the domain of the heap is not allocated,
  and an operation that dereferences or deletes such an address has the result \<open>None\<close> (undefined
  behaviour in C++). \<open>operator new\<close> is the argument \<open>a\<close> of the operations that allocate: any address
  that is free at that moment, so the reuse of an address after \<open>delete\<close> is covered.

  The step relation interleaves any number of producers with the single consumer. A push is two
  steps, \<open>head_.exchange\<close> and the store to \<open>prev->next\<close>; a pop is two steps, the load of \<open>tail->next\<close>
  and the advance of \<open>tail_\<close>, which only the consumer accesses. The abstract queue is the list of the
  values in the order of the exchanges, each with a flag that tells whether its predecessor is linked.
\<close>

subsection \<open>Data\<close>

record 'a node =
  node_next :: "addr option"
  node_value :: "'a option"

record 'a mpsc =
  heap :: "addr \<rightharpoonup> 'a node"
  q_head :: addr
  q_tail :: addr

subsection \<open>Operations\<close>

definition mpsc_new :: "addr \<Rightarrow> 'a mpsc" where
  "mpsc_new a = \<lparr>heap = [a \<mapsto> \<lparr>node_next = None, node_value = None\<rparr>], q_head = a, q_tail = a\<rparr>"

text \<open>The allocation and the exchange of a push; the result is the predecessor.\<close>

definition mpsc_exchange :: "addr \<Rightarrow> 'a \<Rightarrow> 'a mpsc \<Rightarrow> addr \<times> 'a mpsc" where
  "mpsc_exchange a v q =
     (q_head q,
      q\<lparr>heap := (heap q)(a \<mapsto> \<lparr>node_next = None, node_value = Some v\<rparr>), q_head := a\<rparr>)"

definition mpsc_link :: "addr \<Rightarrow> addr \<Rightarrow> 'a mpsc \<Rightarrow> 'a mpsc option" where
  "mpsc_link prev a q =
     (case heap q prev of
        None \<Rightarrow> None
      | Some n \<Rightarrow> Some (q\<lparr>heap := (heap q)(prev \<mapsto> n\<lparr>node_next := Some a\<rparr>)\<rparr>))"

definition mpsc_push :: "addr \<Rightarrow> 'a \<Rightarrow> 'a mpsc \<Rightarrow> 'a mpsc option" where
  "mpsc_push a v q = (let (prev, q') = mpsc_exchange a v q in mpsc_link prev a q')"

text \<open>The load of \<open>tail->next\<close>, then the rest of a pop when it is not null.\<close>

definition mpsc_load_next :: "'a mpsc \<Rightarrow> addr option option" where
  "mpsc_load_next q = map_option node_next (heap q (q_tail q))"

definition mpsc_advance :: "addr \<Rightarrow> 'a mpsc \<Rightarrow> ('a option \<times> 'a mpsc) option" where
  "mpsc_advance n q =
     (case heap q n of
        None \<Rightarrow> None
      | Some nd \<Rightarrow>
          if heap q (q_tail q) = None then None
          else Some (node_value nd, q\<lparr>heap := (heap q)(q_tail q := None), q_tail := n\<rparr>))"

definition mpsc_pop :: "'a mpsc \<Rightarrow> ('a option \<times> 'a mpsc) option" where
  "mpsc_pop q =
     (case mpsc_load_next q of
        None \<Rightarrow> None
      | Some None \<Rightarrow> Some (None, q)
      | Some (Some n) \<Rightarrow> mpsc_advance n q)"

definition mpsc_empty :: "'a mpsc \<Rightarrow> bool option" where
  "mpsc_empty q = map_option (\<lambda>nx. nx = None) (mpsc_load_next q)"

text \<open>
  The destructor: pop until nothing is left, then delete the sentinel. The first argument bounds the
  number of pops; \<open>mpsc_destroy_frees_all\<close> shows that the number of queued values plus one is enough.
\<close>

fun mpsc_destroy :: "nat \<Rightarrow> 'a mpsc \<Rightarrow> (addr \<rightharpoonup> 'a node) option" where
  "mpsc_destroy 0 q = None"
| "mpsc_destroy (Suc fuel) q =
     (case mpsc_pop q of
        None \<Rightarrow> None
      | Some (Some v, q') \<Rightarrow> mpsc_destroy fuel q'
      | Some (None, q') \<Rightarrow>
          (if heap q' (q_tail q') = None then None else Some ((heap q')(q_tail q' := None))))"

lemmas mpsc_op_defs = mpsc_exchange_def mpsc_link_def mpsc_load_next_def mpsc_advance_def

subsection \<open>Concurrent executions\<close>

datatype producer_pc = PIdle | PLink addr addr
datatype consumer_pc = CIdle | CLoaded addr

record 'a mpsc_sys =
  queue :: "'a mpsc"
  prods :: "tid \<Rightarrow> producer_pc"
  cons :: consumer_pc

datatype 'a mpsc_event = Pushed 'a | Published | Popped "'a option"

definition mpsc_init :: "'a mpsc_sys \<Rightarrow> bool" where
  "mpsc_init s \<longleftrightarrow> (\<exists>a. queue s = mpsc_new a) \<and> prods s = (\<lambda>_. PIdle) \<and> cons s = CIdle"

inductive mpsc_step :: "'a mpsc_sys \<Rightarrow> 'a mpsc_event label \<Rightarrow> 'a mpsc_sys \<Rightarrow> bool" where
  exchange: "prods s p = PIdle \<Longrightarrow> heap (queue s) a = None \<Longrightarrow>
     mpsc_exchange a v (queue s) = (prev, q') \<Longrightarrow>
     mpsc_step s (Act (Pushed v)) (s\<lparr>queue := q', prods := (prods s)(p := PLink prev a)\<rparr>)"
| link: "prods s p = PLink prev a \<Longrightarrow> mpsc_link prev a (queue s) = Some q' \<Longrightarrow>
     mpsc_step s (Act Published) (s\<lparr>queue := q', prods := (prods s)(p := PIdle)\<rparr>)"
| load_null: "cons s = CIdle \<Longrightarrow> mpsc_load_next (queue s) = Some None \<Longrightarrow>
     mpsc_step s (Act (Popped None)) s"
| load_node: "cons s = CIdle \<Longrightarrow> mpsc_load_next (queue s) = Some (Some n) \<Longrightarrow>
     mpsc_step s Tau (s\<lparr>cons := CLoaded n\<rparr>)"
| advance: "cons s = CLoaded n \<Longrightarrow> mpsc_advance n (queue s) = Some (v, q') \<Longrightarrow>
     mpsc_step s (Act (Popped v)) (s\<lparr>queue := q', cons := CIdle\<rparr>)"

inductive_cases mpsc_tauE: "mpsc_step s Tau t"

subsection \<open>The abstract queue\<close>

inductive vyukov_step :: "('a \<times> bool) list \<Rightarrow> 'a mpsc_event \<Rightarrow> ('a \<times> bool) list \<Rightarrow> bool" where
  spec_push: "vyukov_step xs (Pushed v) (xs @ [(v, False)])"
| spec_publish: "k < length xs \<Longrightarrow> \<not> snd (xs ! k) \<Longrightarrow>
     vyukov_step xs Published (xs[k := (fst (xs ! k), True)])"
| spec_pop: "vyukov_step ((v, True) # xs) (Popped (Some v)) xs"
| spec_pop_none: "xs = [] \<or> \<not> snd (hd xs) \<Longrightarrow> vyukov_step xs (Popped None) xs"

fun pushes :: "'a mpsc_event list \<Rightarrow> 'a list" where
  "pushes [] = []"
| "pushes (Pushed v # es) = v # pushes es"
| "pushes (_ # es) = pushes es"

fun pops :: "'a mpsc_event list \<Rightarrow> 'a list" where
  "pops [] = []"
| "pops (Popped (Some v) # es) = v # pops es"
| "pops (_ # es) = pops es"

lemma pushes_append [simp]: "pushes (es @ fs) = pushes es @ pushes fs"
  by (induction es rule: pushes.induct) auto

lemma pops_append [simp]: "pops (es @ fs) = pops es @ pops fs"
  by (induction es rule: pops.induct) auto

lemma vyukov_fifo: "spec_trace vyukov_step [] es xs \<Longrightarrow> pushes es = pops es @ map fst xs"
proof (induction "[] :: ('a \<times> bool) list" es xs rule: spec_trace.induct)
  case spec_refl
  show ?case by simp
next
  case (spec_act es xs e ys)
  from spec_act.hyps(3) spec_act.hyps(2) show ?case
    by cases (auto simp: map_update_same)
qed

subsection \<open>The simulation relation\<close>

definition node_nxt :: "'a mpsc \<Rightarrow> addr \<Rightarrow> addr option" where
  "node_nxt q a = (case heap q a of None \<Rightarrow> None | Some n \<Rightarrow> node_next n)"

definition node_val :: "'a mpsc \<Rightarrow> addr \<Rightarrow> 'a option" where
  "node_val q a = (case heap q a of None \<Rightarrow> None | Some n \<Rightarrow> node_value n)"

text \<open>
  \<open>ns\<close> are the queued nodes in the order of the exchanges; the sentinel \<open>tail_\<close> precedes them. Exactly
  these nodes are allocated. Two consecutive nodes are linked, or a producer is about to link them.
\<close>

definition chain_links :: "'a mpsc_sys \<Rightarrow> addr list \<Rightarrow> bool" where
  "chain_links s L \<longleftrightarrow>
     (\<forall>i. Suc i < length L \<longrightarrow>
        node_nxt (queue s) (L ! i) = Some (L ! Suc i) \<or>
        node_nxt (queue s) (L ! i) = None \<and> (\<exists>p. prods s p = PLink (L ! i) (L ! Suc i)))"

definition pending_ok :: "'a mpsc_sys \<Rightarrow> addr list \<Rightarrow> bool" where
  "pending_ok s L \<longleftrightarrow>
     (\<forall>p a b. prods s p = PLink a b \<longrightarrow>
        (\<exists>i. Suc i < length L \<and> a = L ! i \<and> b = L ! Suc i \<and> node_nxt (queue s) a = None)) \<and>
     (\<forall>p p' a b b'. prods s p = PLink a b \<longrightarrow> prods s p' = PLink a b' \<longrightarrow> p = p')"

definition content_ok :: "'a mpsc \<Rightarrow> addr list \<Rightarrow> ('a \<times> bool) list \<Rightarrow> bool" where
  "content_ok q L xs \<longleftrightarrow>
     length L = Suc (length xs) \<and>
     (\<forall>i < length xs. node_val q (L ! Suc i) = Some (fst (xs ! i)) \<and>
        (snd (xs ! i) \<longleftrightarrow> node_nxt q (L ! i) \<noteq> None))"

definition mpsc_chain :: "'a mpsc_sys \<Rightarrow> addr list \<Rightarrow> ('a \<times> bool) list \<Rightarrow> bool" where
  "mpsc_chain s ns xs \<longleftrightarrow>
     (let q = queue s; L = q_tail q # ns in
        distinct L \<and> dom (heap q) = set L \<and> q_head q = last L \<and> node_nxt q (q_head q) = None \<and>
        chain_links s L \<and> pending_ok s L \<and> content_ok q L xs \<and>
        (\<forall>n. cons s = CLoaded n \<longrightarrow> node_nxt q (q_tail q) = Some n))"

definition mpsc_sim :: "'a mpsc_sys \<Rightarrow> ('a \<times> bool) list \<Rightarrow> bool" where
  "mpsc_sim s xs \<longleftrightarrow> (\<exists>ns. mpsc_chain s ns xs)"

lemmas mpsc_chain_defs = mpsc_chain_def Let_def chain_links_def pending_ok_def content_ok_def

lemma chain_cons_update [simp]:
  "chain_links (s\<lparr>cons := c\<rparr>) L = chain_links s L"
  "pending_ok (s\<lparr>cons := c\<rparr>) L = pending_ok s L"
  by (simp_all add: chain_links_def pending_ok_def)

lemma mpsc_sim_init: "mpsc_init s \<Longrightarrow> mpsc_sim s []"
  by (auto simp: mpsc_sim_def mpsc_init_def mpsc_new_def mpsc_chain_defs node_nxt_def
      intro!: exI [of _ "[]"] split: if_splits)

text \<open>One lemma per kind of step. First the exchange: a new node at the end of the chain.\<close>

lemma chain_links_exchange:
  assumes "chain_links s L" and "L \<noteq> []" and "a \<notin> set L" and "prods s p = PIdle"
    and "node_nxt (queue s) (last L) = None"
    and nx: "\<And>x. node_nxt q' x = (if x = a then None else node_nxt (queue s) x)"
  shows "chain_links (s\<lparr>queue := q', prods := (prods s)(p := PLink (last L) a)\<rparr>) (L @ [a])"
  unfolding chain_links_def
proof (intro allI impI)
  let ?t = "s\<lparr>queue := q', prods := (prods s)(p := PLink (last L) a)\<rparr>"
  fix i assume i: "Suc i < length (L @ [a])"
  then have ne: "L ! i \<noteq> a" using assms(3) by (auto dest: nth_mem)
  show "node_nxt (queue ?t) ((L @ [a]) ! i) = Some ((L @ [a]) ! Suc i) \<or>
      node_nxt (queue ?t) ((L @ [a]) ! i) = None \<and>
        (\<exists>p. prods ?t p = PLink ((L @ [a]) ! i) ((L @ [a]) ! Suc i))"
  proof (cases "Suc i < length L")
    case True
    with assms(1) consider "node_nxt (queue s) (L ! i) = Some (L ! Suc i)"
      | r where "node_nxt (queue s) (L ! i) = None" "prods s r = PLink (L ! i) (L ! Suc i)"
      unfolding chain_links_def by blast
    then show ?thesis
    proof cases
      case (2 r)
      with assms(4) have "r \<noteq> p" by auto
      with 2 ne True show ?thesis by (auto simp: nx nth_append intro!: exI [of _ r])
    qed (use ne True in \<open>auto simp: nx nth_append\<close>)
  next
    case False
    with i assms(2) have "i = length L - 1" by simp
    then have "L ! i = last L" "i < length L" using assms(2) by (auto simp: last_conv_nth)
    with assms(5) ne False show ?thesis by (auto simp: nx nth_append)
  qed
qed

lemma pending_ok_exchange:
  assumes "pending_ok s L" and "L \<noteq> []" and "a \<notin> set L" and "distinct L"
    and "node_nxt (queue s) (last L) = None"
    and nx: "\<And>x. node_nxt q' x = (if x = a then None else node_nxt (queue s) x)"
  shows "pending_ok (s\<lparr>queue := q', prods := (prods s)(p := PLink (last L) a)\<rparr>) (L @ [a])"
proof -
  let ?t = "s\<lparr>queue := q', prods := (prods s)(p := PLink (last L) a)\<rparr>"
  have last: "last L = L ! (length L - 1)" using assms(2) by (simp add: last_conv_nth)
  have old: "\<exists>i. Suc i < length L \<and> x = L ! i \<and> y = L ! Suc i \<and> node_nxt (queue s) x = None"
    if "prods s r = PLink x y" for r x y
    using assms(1) that unfolding pending_ok_def by blast
  have notlast: "x \<noteq> last L" if "prods s r = PLink x y" for r x y
  proof -
    from old [OF that] obtain i where "Suc i < length L" "x = L ! i" by blast
    with assms(4) show ?thesis by (simp add: last distinct_nth_inj)
  qed
  show ?thesis
    unfolding pending_ok_def
  proof (intro conjI allI impI)
    fix r x y assume "prods ?t r = PLink x y"
    then consider "r = p" "x = last L" "y = a" | "prods s r = PLink x y"
      by (cases "r = p") auto
    then show "\<exists>i. Suc i < length (L @ [a]) \<and> x = (L @ [a]) ! i \<and> y = (L @ [a]) ! Suc i \<and> node_nxt (queue ?t) x = None"
    proof cases
      case 1
      then show ?thesis using assms(2,5)
        by (intro exI [of _ "length L - 1"]) (auto simp: nx last nth_append)
    next
      case 2
      from old [OF this] obtain i where "Suc i < length L" "x = L ! i" "y = L ! Suc i" "node_nxt (queue s) x = None"
        by blast
      then show ?thesis by (intro exI [of _ i]) (auto simp: nx nth_append)
    qed
  next
    fix r r' x y y' assume "prods ?t r = PLink x y" "prods ?t r' = PLink x y'"
    with assms(1) notlast show "r = r'"
      by (cases "r = p"; cases "r' = p") (auto simp: pending_ok_def)
  qed
qed

lemma content_ok_exchange:
  assumes "content_ok q L xs" and "a \<notin> set L" and "node_nxt q (last L) = None"
    and nx: "\<And>x. node_nxt q' x = (if x = a then None else node_nxt q x)"
    and vl: "\<And>x. node_val q' x = (if x = a then Some v else node_val q x)"
  shows "content_ok q' (L @ [a]) (xs @ [(v, False)])"
  unfolding content_ok_def
proof (intro conjI allI impI)
  have len: "length L = Suc (length xs)" using assms(1) by (simp add: content_ok_def)
  then have last: "last L = L ! length xs" by (subst last_conv_nth) auto
  show "length (L @ [a]) = Suc (length (xs @ [(v, False)]))" using len by simp
  fix i assume i: "i < length (xs @ [(v, False)])"
  have mem: "\<And>j. j < length L \<Longrightarrow> L ! j \<noteq> a" using assms(2) by (auto dest: nth_mem)
  show "node_val q' ((L @ [a]) ! Suc i) = Some (fst ((xs @ [(v, False)]) ! i))"
    using i len assms(1) mem [of "Suc i"] by (auto simp: content_ok_def vl nth_append less_Suc_eq)
  show "snd ((xs @ [(v, False)]) ! i) \<longleftrightarrow> node_nxt q' ((L @ [a]) ! i) \<noteq> None"
    using i len assms(1,3) mem [of i] by (auto simp: content_ok_def nx nth_append less_Suc_eq last)
qed

lemma mpsc_chain_exchange:
  assumes c: "mpsc_chain s ns xs" and idle: "prods s p = PIdle" and free: "heap (queue s) a = None"
    and e: "mpsc_exchange a v (queue s) = (prev, q')"
  shows "mpsc_chain (s\<lparr>queue := q', prods := (prods s)(p := PLink prev a)\<rparr>) (ns @ [a]) (xs @ [(v, False)])"
proof -
  let ?q = "queue s"
  define L where "L = q_tail ?q # ns"
  from c e have c': "distinct L" "dom (heap ?q) = set L" "prev = last L" "node_nxt ?q (last L) = None"
    "chain_links s L" "pending_ok s L" "content_ok ?q L xs"
    "\<And>n. cons s = CLoaded n \<Longrightarrow> node_nxt ?q (q_tail ?q) = Some n"
    by (auto simp: mpsc_chain_def Let_def mpsc_exchange_def L_def)
  have fresh: "a \<notin> set L" "L \<noteq> []" using free c'(2) by (auto simp: L_def)
  have q': "q_tail q' # ns @ [a] = L @ [a]" "q_head q' = a" "dom (heap q') = insert a (dom (heap ?q))"
    and tl: "q_tail q' = q_tail ?q"
    using e by (auto simp: mpsc_exchange_def L_def)
  have nx: "\<And>x. node_nxt q' x = (if x = a then None else node_nxt ?q x)"
    and vl: "\<And>x. node_val q' x = (if x = a then Some v else node_val ?q x)"
    using e by (auto simp: mpsc_exchange_def node_nxt_def node_val_def)
  have "q_tail q' \<noteq> a" using q'(1) fresh by (auto simp: L_def)
  then show ?thesis
    using chain_links_exchange [OF c'(5) fresh(2,1) idle c'(4) nx]
      pending_ok_exchange [OF c'(6) fresh(2,1) c'(1,4) nx]
      content_ok_exchange [OF c'(7) fresh(1) c'(4) nx vl] c'(1,2,3,8) fresh q' nx tl
    by (auto simp: mpsc_chain_def Let_def)
qed

text \<open>The link: the pending producer's pair becomes linked.\<close>

lemma chain_links_link:
  assumes "chain_links s L" and "pending_ok s L" and "prods s p = PLink prev a"
    and nx: "\<And>x. node_nxt q' x = (if x = prev then Some a else node_nxt (queue s) x)"
    and idx: "\<And>i. i < length L \<Longrightarrow> L ! i = prev \<longleftrightarrow> i = k" and "a = L ! Suc k"
  shows "chain_links (s\<lparr>queue := q', prods := (prods s)(p := PIdle)\<rparr>) L" (is "chain_links ?t L")
  unfolding chain_links_def
proof (intro allI impI)
  fix i assume i: "Suc i < length L"
  with assms(1) consider "node_nxt (queue s) (L ! i) = Some (L ! Suc i)"
    | r where "node_nxt (queue s) (L ! i) = None" "prods s r = PLink (L ! i) (L ! Suc i)"
    unfolding chain_links_def by blast
  then show "node_nxt (queue ?t) (L ! i) = Some (L ! Suc i) \<or>
      node_nxt (queue ?t) (L ! i) = None \<and> (\<exists>p. prods ?t p = PLink (L ! i) (L ! Suc i))"
  proof cases
    case 1
    with assms(6) idx [of i] i show ?thesis by (auto simp: nx)
  next
    case (2 r)
    then show ?thesis
    proof (cases "i = k")
      case False
      with idx [of i] i have "L ! i \<noteq> prev" by simp
      with 2 assms(3) have "r \<noteq> p" by auto
      with 2 \<open>L ! i \<noteq> prev\<close> show ?thesis by (auto simp: nx intro!: exI [of _ r])
    qed (use assms(6) idx [of i] i in \<open>simp add: nx\<close>)
  qed
qed

lemma pending_ok_link:
  assumes "pending_ok s L" and "prods s p = PLink prev a"
    and nx: "\<And>x. node_nxt q' x = (if x = prev then Some a else node_nxt (queue s) x)"
  shows "pending_ok (s\<lparr>queue := q', prods := (prods s)(p := PIdle)\<rparr>) L" (is "pending_ok ?t L")
  unfolding pending_ok_def
proof (intro conjI allI impI)
  fix r x y assume *: "prods ?t r = PLink x y"
  then have "r \<noteq> p" and r: "prods s r = PLink x y" by (auto split: if_splits)
  with assms(1,2) have "x \<noteq> prev" unfolding pending_ok_def by blast
  from assms(1) r obtain i where "Suc i < length L" "x = L ! i" "y = L ! Suc i" "node_nxt (queue s) x = None"
    unfolding pending_ok_def by blast
  with \<open>x \<noteq> prev\<close> show "\<exists>i. Suc i < length L \<and> x = L ! i \<and> y = L ! Suc i \<and> node_nxt (queue ?t) x = None"
    by (auto simp: nx)
next
  fix r r' x y y' assume "prods ?t r = PLink x y" "prods ?t r' = PLink x y'"
  with assms(1) show "r = r'" unfolding pending_ok_def by (auto split: if_splits)
qed

lemma mpsc_chain_link:
  assumes c: "mpsc_chain s ns xs" and pc: "prods s p = PLink prev a"
    and e: "mpsc_link prev a (queue s) = Some q'"
  obtains k where "k < length xs" "\<not> snd (xs ! k)"
    "mpsc_chain (s\<lparr>queue := q', prods := (prods s)(p := PIdle)\<rparr>) ns (xs[k := (fst (xs ! k), True)])"
proof -
  let ?q = "queue s"
  define L where "L = q_tail ?q # ns"
  from c have c': "distinct L" "dom (heap ?q) = set L" "q_head ?q = last L" "node_nxt ?q (last L) = None"
    "chain_links s L" "pending_ok s L" "content_ok ?q L xs"
    "\<And>n. cons s = CLoaded n \<Longrightarrow> node_nxt ?q (q_tail ?q) = Some n"
    by (auto simp: mpsc_chain_def Let_def L_def)
  have len: "length L = Suc (length xs)" "L \<noteq> []" using c'(7) by (simp_all add: content_ok_def L_def)
  from c'(6) pc obtain k where k: "Suc k < length L" "prev = L ! k" "a = L ! Suc k" "node_nxt ?q prev = None"
    unfolding pending_ok_def by blast
  have idx: "\<And>i. i < length L \<Longrightarrow> L ! i = prev \<longleftrightarrow> i = k"
    using k(1,2) c'(1) by (simp add: distinct_nth_inj)
  have q': "q_tail q' = q_tail ?q" "q_head q' = q_head ?q" "dom (heap q') = dom (heap ?q)"
    and nx: "\<And>x. node_nxt q' x = (if x = prev then Some a else node_nxt ?q x)"
    and vl: "\<And>x. node_val q' x = node_val ?q x"
    using e by (auto simp: mpsc_link_def node_nxt_def node_val_def split: option.splits if_splits)
  have cont: "content_ok q' L (xs[k := (fst (xs ! k), True)])"
    using c'(7) idx k(1) len by (auto simp: content_ok_def nx vl nth_list_update)
  have "node_nxt q' (last L) = None"
    using c'(4) idx [of "length xs"] k(1) len by (auto simp: nx last_conv_nth)
  moreover have "cons s = CLoaded n \<Longrightarrow> q_tail ?q \<noteq> prev" for n using c'(8) k(4) by auto
  moreover have "k < length xs" "\<not> snd (xs ! k)"
    using k len c'(7) by (auto simp: content_ok_def)
  ultimately show thesis
    using that [of k] chain_links_link [OF c'(5,6) pc nx idx k(3)] pending_ok_link [OF c'(6) pc nx]
      cont c' q' by (auto simp: mpsc_chain_def Let_def L_def nx)
qed

text \<open>The advance: the oldest node becomes the sentinel and the old sentinel is freed.\<close>

lemma mpsc_chain_loaded:
  assumes c: "mpsc_chain s ns xs" and "node_nxt (queue s) (q_tail (queue s)) = Some n"
  obtains ns' v xs' where "ns = n # ns'" "xs = (v, True) # xs'" "node_val (queue s) n = Some v"
proof -
  let ?L = "q_tail (queue s) # ns"
  from c have c': "q_head (queue s) = last ?L" "node_nxt (queue s) (q_head (queue s)) = None"
      "chain_links s ?L" "content_ok (queue s) ?L xs"
    by (auto simp: mpsc_chain_def Let_def)
  with assms(2) obtain m ns' where ns: "ns = m # ns'" by (cases ns) auto
  with c'(3) assms(2) have m: "m = n" by (force simp: chain_links_def)
  from c'(4) ns obtain y xs' where xs: "xs = y # xs'" by (cases xs) (auto simp: content_ok_def)
  with c'(4) ns m assms(2) have "node_val (queue s) n = Some (fst y)" "snd y"
    by (force simp: content_ok_def)+
  with ns m xs that show thesis by (cases y) auto
qed

lemma chain_links_advance:
  assumes "chain_links s (t # L)" and "t \<notin> set L" and nx: "\<And>x. x \<noteq> t \<Longrightarrow> node_nxt q' x = node_nxt (queue s) x"
  shows "chain_links (s\<lparr>queue := q', cons := c\<rparr>) L"
  unfolding chain_links_def
proof (intro allI impI)
  fix i assume i: "Suc i < length L"
  then have "L ! i \<noteq> t" using assms(2) by (auto dest: nth_mem)
  with assms(1) [unfolded chain_links_def, rule_format, of "Suc i"] i
  show "node_nxt (queue (s\<lparr>queue := q', cons := c\<rparr>)) (L ! i) = Some (L ! Suc i) \<or>
      node_nxt (queue (s\<lparr>queue := q', cons := c\<rparr>)) (L ! i) = None \<and>
        (\<exists>p. prods (s\<lparr>queue := q', cons := c\<rparr>) p = PLink (L ! i) (L ! Suc i))"
    by (simp add: nx)
qed

lemma pending_ok_advance:
  assumes "pending_ok s (t # L)" and "t \<notin> set L" and nx: "\<And>x. x \<noteq> t \<Longrightarrow> node_nxt q' x = node_nxt (queue s) x"
    and "node_nxt (queue s) t \<noteq> None"
  shows "pending_ok (s\<lparr>queue := q', cons := c\<rparr>) L"
proof -
  have "\<exists>i. Suc i < length L \<and> a = L ! i \<and> b = L ! Suc i \<and> node_nxt q' a = None"
    if "prods s p = PLink a b" for p a b
  proof -
    from assms(1) that obtain i
      where i: "Suc i < length (t # L)" "a = (t # L) ! i" "b = (t # L) ! Suc i" "node_nxt (queue s) a = None"
      unfolding pending_ok_def by blast
    with assms(4) obtain j where "i = Suc j" by (cases i) auto
    moreover from this i assms(2) have "L ! j \<noteq> t" by (auto dest: nth_mem)
    ultimately show ?thesis using i by (intro exI [of _ j]) (auto simp: nx)
  qed
  with assms(1) show ?thesis unfolding pending_ok_def by simp
qed

lemma content_ok_advance:
  assumes "content_ok q (t # L) (x # xs)" and "t \<notin> set L"
    and nx: "\<And>x. x \<noteq> t \<Longrightarrow> node_nxt q' x = node_nxt q x" and vl: "\<And>x. x \<noteq> t \<Longrightarrow> node_val q' x = node_val q x"
  shows "content_ok q' L xs"
  unfolding content_ok_def
proof (intro conjI allI impI)
  show len: "length L = Suc (length xs)" using assms(1) by (simp add: content_ok_def)
  have ne: "\<And>i. i < length L \<Longrightarrow> L ! i \<noteq> t" using assms(2) by (auto dest: nth_mem)
  fix i assume i: "i < length xs"
  with assms(1) have *: "node_val q ((t # L) ! Suc (Suc i)) = Some (fst (xs ! i)) \<and>
      (snd (xs ! i) \<longleftrightarrow> node_nxt q ((t # L) ! Suc i) \<noteq> None)"
    unfolding content_ok_def by (metis Suc_less_eq length_Cons nth_Cons_Suc)
  show "node_val q' (L ! Suc i) = Some (fst (xs ! i))" using * ne [of "Suc i"] i len by (simp add: vl)
  show "snd (xs ! i) \<longleftrightarrow> node_nxt q' (L ! i) \<noteq> None" using * ne [of i] i len by (simp add: nx)
qed

lemma mpsc_chain_advance:
  assumes c: "mpsc_chain s (n # ns) ((v, True) # xs)" and pc: "cons s = CLoaded n"
    and e: "mpsc_advance n (queue s) = Some (w, q')"
  shows "mpsc_chain (s\<lparr>queue := q', cons := CIdle\<rparr>) ns xs" (is "mpsc_chain ?t ns xs")
proof -
  let ?q = "queue s" and ?L = "q_tail (queue s) # n # ns"
  from c have c': "distinct ?L" "dom (heap ?q) = set ?L" "q_head ?q = last ?L" "node_nxt ?q (q_head ?q) = None"
    "chain_links s ?L" "pending_ok s ?L" "content_ok ?q ?L ((v, True) # xs)" "node_nxt ?q (q_tail ?q) = Some n"
    using pc by (auto simp: mpsc_chain_def Let_def)
  have q': "q_tail q' = n" "q_head q' = q_head ?q" "dom (heap q') = dom (heap ?q) - {q_tail ?q}"
    and nx: "\<And>x. x \<noteq> q_tail ?q \<Longrightarrow> node_nxt q' x = node_nxt ?q x"
    and vl: "\<And>x. x \<noteq> q_tail ?q \<Longrightarrow> node_val q' x = node_val ?q x"
    using e by (auto simp: mpsc_advance_def node_nxt_def node_val_def split: option.splits if_splits)
  have ne: "q_tail ?q \<notin> set (n # ns)" using c'(1) by simp
  have "last ?L \<in> set (n # ns)" by simp
  then have "last ?L \<noteq> q_tail ?q" using c'(1) by auto
  then show ?thesis
    using chain_links_advance [OF c'(5) ne nx] pending_ok_advance [OF c'(6) ne nx] c'(8)
      content_ok_advance [OF c'(7) ne nx vl] c'(1-4) q' by (auto simp: mpsc_chain_def Let_def nx)
qed

text \<open>No address that an operation in progress will dereference has been freed.\<close>

lemma mpsc_chain_pending_allocated:
  assumes "mpsc_chain s ns xs" and "prods s p = PLink a b"
  shows "heap (queue s) a \<noteq> None"
proof -
  let ?L = "q_tail (queue s) # ns"
  from assms have "pending_ok s ?L" and d: "dom (heap (queue s)) = set ?L"
    by (auto simp: mpsc_chain_def Let_def)
  with assms(2) obtain i where "Suc i < length ?L" "a = ?L ! i" unfolding pending_ok_def by blast
  then have "a \<in> set ?L" by (metis Suc_lessD nth_mem)
  with d show ?thesis by blast
qed

lemma mpsc_chain_tail_allocated: "mpsc_chain s ns xs \<Longrightarrow> heap (queue s) (q_tail (queue s)) \<noteq> None"
  by (auto simp: mpsc_chain_def Let_def)

lemma mpsc_sim_tau:
  assumes "mpsc_sim s xs" and "mpsc_step s Tau t"
  shows "mpsc_sim t xs"
proof -
  from assms(2) obtain n where t: "t = s\<lparr>cons := CLoaded n\<rparr>" and "mpsc_load_next (queue s) = Some (Some n)"
    by (rule mpsc_tauE)
  then have "node_nxt (queue s) (q_tail (queue s)) = Some n" by (auto simp: mpsc_load_next_def node_nxt_def)
  moreover from assms(1) obtain ns where "mpsc_chain s ns xs" by (auto simp: mpsc_sim_def)
  ultimately have "mpsc_chain t ns xs"
    by (auto simp: mpsc_chain_def Let_def t)
  then show ?thesis by (auto simp: mpsc_sim_def)
qed

lemma mpsc_sim_act:
  assumes "mpsc_sim s xs" and "mpsc_step s (Act e) t"
  shows "\<exists>ys. vyukov_step xs e ys \<and> mpsc_sim t ys"
proof -
  from assms(1) obtain ns where c: "mpsc_chain s ns xs" by (auto simp: mpsc_sim_def)
  from assms(2) show ?thesis
  proof cases
    case (exchange p a v prev q')
    from mpsc_chain_exchange [OF c exchange(3-5)] show ?thesis
      unfolding exchange(1,2) mpsc_sim_def by (blast intro: spec_push)
  next
    case (link p prev a q')
    from mpsc_chain_link [OF c link(3,4)] show ?thesis
      unfolding link(1,2) mpsc_sim_def by (blast intro: spec_publish)
  next
    case load_null
    from c have "content_ok (queue s) (q_tail (queue s) # ns) xs" by (simp add: mpsc_chain_def Let_def)
    with load_null have "xs = [] \<or> \<not> snd (hd xs)"
      by (cases xs) (auto simp: content_ok_def mpsc_load_next_def node_nxt_def)
    with load_null assms(1) show ?thesis by (blast intro: spec_pop_none)
  next
    case (advance n v q')
    from c advance(3) have nx: "node_nxt (queue s) (q_tail (queue s)) = Some n"
      by (simp add: mpsc_chain_def Let_def)
    from mpsc_chain_loaded [OF c nx] obtain ns' w xs'
      where w: "ns = n # ns'" "xs = (w, True) # xs'" "node_val (queue s) n = Some w" by blast
    with advance(4) have "v = Some w"
      by (auto simp: mpsc_advance_def node_val_def split: option.splits if_splits)
    moreover from c w have "mpsc_chain s (n # ns') ((w, True) # xs')" by simp
    from mpsc_chain_advance [OF this advance(3,4)] have "mpsc_sim t xs'"
      unfolding mpsc_sim_def advance(2) by blast
    ultimately show ?thesis using w advance(1) by (auto intro: spec_pop)
  qed
qed

interpretation mpsc: lts_simulation mpsc_init mpsc_step mpsc_sim "[]" vyukov_step
  by unfold_locales (auto intro: mpsc_sim_init mpsc_sim_tau mpsc_sim_act)

subsection \<open>The queue between operations\<close>

text \<open>
  \<open>mpsc_repr q xs\<close>: no operation is in progress and \<open>q\<close> holds the values \<open>xs\<close>. Its laws are those of a
  FIFO queue; they follow from the simulation, since an uninterrupted operation is a run of steps.
\<close>

definition quiescent :: "'a mpsc \<Rightarrow> 'a mpsc_sys" where
  "quiescent q = \<lparr>queue = q, prods = (\<lambda>_. PIdle), cons = CIdle\<rparr>"

definition mpsc_repr :: "'a mpsc \<Rightarrow> 'a list \<Rightarrow> bool" where
  "mpsc_repr q xs \<longleftrightarrow> mpsc_sim (quiescent q) (map (\<lambda>v. (v, True)) xs)"

lemma quiescent_sel [simp]:
  "queue (quiescent q) = q" "prods (quiescent q) = (\<lambda>_. PIdle)" "cons (quiescent q) = CIdle"
  by (simp_all add: quiescent_def)

lemma mpsc_sim_idle_published:
  assumes "mpsc_sim s xs" and "\<forall>p. prods s p = PIdle"
  shows "xs = map (\<lambda>v. (v, True)) (map fst xs)"
proof -
  from assms(1) obtain ns where "chain_links s (q_tail (queue s) # ns)"
      and "content_ok (queue s) (q_tail (queue s) # ns) xs"
    by (auto simp: mpsc_sim_def mpsc_chain_def Let_def)
  with assms(2) have "snd (xs ! i)" if "i < length xs" for i
    using that by (fastforce simp: chain_links_def content_ok_def)
  then show ?thesis by (auto simp: list_eq_iff_nth_eq prod_eq_iff)
qed

lemma mpsc_sim_load_next:
  assumes "mpsc_sim s xs" and "\<forall>p. prods s p = PIdle"
  shows "\<exists>nx. mpsc_load_next (queue s) = Some nx \<and> (nx = None \<longleftrightarrow> xs = [])"
proof -
  from assms(1) obtain ns where c: "mpsc_chain s ns xs" by (auto simp: mpsc_sim_def)
  have pub: "xs = map (\<lambda>v. (v, True)) (map fst xs)" by (rule mpsc_sim_idle_published [OF assms])
  have "mpsc_load_next (queue s) = Some (node_nxt (queue s) (q_tail (queue s)))"
    using mpsc_chain_tail_allocated [OF c] by (auto simp: mpsc_load_next_def node_nxt_def)
  moreover have "node_nxt (queue s) (q_tail (queue s)) = None \<longleftrightarrow> xs = []"
  proof (cases xs)
    case Nil
    with c show ?thesis by (auto simp: mpsc_chain_def Let_def content_ok_def)
  next
    case (Cons x xs')
    have x: "snd x" using arg_cong [OF pub, of "\<lambda>ys. snd (hd ys)"] Cons by simp
    from c have "content_ok (queue s) (q_tail (queue s) # ns) xs" by (simp add: mpsc_chain_def Let_def)
    then have "snd (xs ! 0) \<longleftrightarrow> node_nxt (queue s) (q_tail (queue s)) \<noteq> None"
      unfolding content_ok_def using Cons by (metis length_greater_0_conv list.distinct(1) nth_Cons_0)
    with x Cons show ?thesis by simp
  qed
  ultimately show ?thesis by simp
qed

lemma mpsc_repr_empty:
  assumes "mpsc_repr q xs"
  shows "mpsc_empty q = Some (xs = [])"
proof -
  have "\<exists>nx. mpsc_load_next (queue (quiescent q)) = Some nx \<and> (nx = None \<longleftrightarrow> map (\<lambda>v. (v, True)) xs = [])"
    by (rule mpsc_sim_load_next [OF assms [unfolded mpsc_repr_def]]) simp
  then obtain nx where "mpsc_load_next q = Some nx" "nx = None \<longleftrightarrow> xs = []"
    unfolding quiescent_sel list.map_disc_iff by blast
  then show ?thesis by (simp add: mpsc_empty_def)
qed

lemma mpsc_repr_new: "mpsc_repr (mpsc_new a) []"
  unfolding mpsc_repr_def list.map
  by (rule mpsc_sim_init) (auto simp: mpsc_init_def)

lemma mpsc_repr_push:
  assumes "mpsc_repr q xs" and free: "heap q a = None"
  obtains q' where "mpsc_push a v q = Some q'" and "mpsc_repr q' (xs @ [v])"
proof -
  let ?ys = "map (\<lambda>v. (v, True)) xs"
  obtain prev q1 where e: "mpsc_exchange a v q = (prev, q1)" by fastforce
  let ?s1 = "quiescent q\<lparr>queue := q1, prods := (\<lambda>_. PIdle)(0 := PLink prev a)\<rparr>"
  from assms obtain ns where "mpsc_chain (quiescent q) ns ?ys" by (auto simp: mpsc_repr_def mpsc_sim_def)
  from mpsc_chain_exchange [OF this, of 0 a v prev q1] free e
  have c1: "mpsc_chain ?s1 (ns @ [a]) (?ys @ [(v, False)])" by simp
  have "heap q1 prev \<noteq> None" using mpsc_chain_pending_allocated [OF c1, of 0] by simp
  then obtain q2 where l: "mpsc_link prev a q1 = Some q2" by (auto simp: mpsc_link_def)
  obtain k where k: "k < length (?ys @ [(v, False)])" "\<not> snd ((?ys @ [(v, False)]) ! k)"
    and c2: "mpsc_chain (?s1\<lparr>queue := q2, prods := (prods ?s1)(0 := PIdle)\<rparr>) (ns @ [a])
               ((?ys @ [(v, False)])[k := (fst ((?ys @ [(v, False)]) ! k), True)])"
    by (rule mpsc_chain_link [OF c1, of 0 prev a q2]) (auto simp: l)
  have "k = length xs" using k by (auto simp: nth_append split: if_splits)
  moreover have "?s1\<lparr>queue := q2, prods := (prods ?s1)(0 := PIdle)\<rparr> = quiescent q2"
    by (auto simp: quiescent_def)
  ultimately have "mpsc_repr q2 (xs @ [v])"
    using c2 unfolding mpsc_repr_def mpsc_sim_def
    by (auto simp: nth_append list_update_snoc quiescent_def)
  moreover have "mpsc_push a v q = Some q2" by (simp add: mpsc_push_def e l)
  ultimately show thesis by (rule that [rotated])
qed

lemma mpsc_repr_pop_Nil:
  assumes "mpsc_repr q []"
  shows "mpsc_pop q = Some (None, q)"
proof -
  from assms obtain ns where c: "mpsc_chain (quiescent q) ns []" by (auto simp: mpsc_repr_def mpsc_sim_def)
  then have "ns = []" by (auto simp: mpsc_chain_defs)
  with c show ?thesis
    by (auto simp: mpsc_chain_defs mpsc_pop_def mpsc_load_next_def node_nxt_def split: option.splits)
qed

lemma mpsc_repr_pop_Cons:
  assumes "mpsc_repr q (x # xs)"
  obtains q' where "mpsc_pop q = Some (Some x, q')" and "mpsc_repr q' xs"
proof -
  from assms obtain ns where c: "mpsc_chain (quiescent q) ns ((x, True) # map (\<lambda>v. (v, True)) xs)"
    by (auto simp: mpsc_repr_def mpsc_sim_def)
  then obtain n where n: "node_nxt q (q_tail q) = Some n"
    by (fastforce simp: mpsc_chain_def Let_def content_ok_def)
  have c1: "mpsc_chain (quiescent q\<lparr>cons := CLoaded n\<rparr>) ns ((x, True) # map (\<lambda>v. (v, True)) xs)"
    using c n by (auto simp: mpsc_chain_def Let_def)
  obtain ns' where ns: "ns = n # ns'" "node_val q n = Some x"
    using mpsc_chain_loaded [OF c] n by auto
  then have "mpsc_load_next q = Some (Some n)" "heap q n \<noteq> None" "heap q (q_tail q) \<noteq> None"
    using n by (auto simp: mpsc_load_next_def node_nxt_def node_val_def split: option.splits)
  then obtain q' where a: "mpsc_advance n q = Some (Some x, q')" and "mpsc_pop q = Some (Some x, q')"
    using ns(2) by (auto simp: mpsc_advance_def node_val_def mpsc_pop_def)
  moreover have "mpsc_chain (quiescent q\<lparr>cons := CLoaded n, queue := q', cons := CIdle\<rparr>) ns' (map (\<lambda>v. (v, True)) xs)"
    using mpsc_chain_advance [OF c1 [unfolded ns(1)], of "Some x" q'] a by simp
  then have "mpsc_repr q' xs" by (auto simp: mpsc_repr_def mpsc_sim_def quiescent_def)
  ultimately show thesis using that by blast
qed

lemma mpsc_repr_destroy:
  "mpsc_repr q xs \<Longrightarrow> length xs < fuel \<Longrightarrow> mpsc_destroy fuel q = Some Map.empty"
proof (induction fuel arbitrary: q xs)
  case (Suc fuel)
  show ?case
  proof (cases xs)
    case Nil
    with Suc.prems(1) obtain ns where c: "mpsc_chain (quiescent q) ns []"
      by (auto simp: mpsc_repr_def mpsc_sim_def)
    then have "dom (heap q) = {q_tail q}" by (auto simp: mpsc_chain_defs)
    then have "heap q (q_tail q) \<noteq> None" and "(heap q)(q_tail q := None) = Map.empty" by fastforce+
    with Nil Suc.prems(1) show ?thesis by (simp add: mpsc_repr_pop_Nil)
  next
    case (Cons x ys)
    with Suc.prems(1) obtain q' where "mpsc_pop q = Some (Some x, q')" "mpsc_repr q' ys"
      by (auto elim: mpsc_repr_pop_Cons)
    with Suc Cons show ?thesis by simp
  qed
qed simp

interpretation mpsc_fifo_queue: fifo_queue mpsc_repr "\<lambda>q a. heap q a = None" mpsc_push mpsc_pop
proof unfold_locales
  fix q :: "'a mpsc" and x xs
  assume "mpsc_repr q (x # xs)"
  then show "\<exists>q'. mpsc_pop q = Some (Some x, q') \<and> mpsc_repr q' xs" by (rule mpsc_repr_pop_Cons) blast
qed (blast elim: mpsc_repr_push, rule mpsc_repr_pop_Nil)

subsection \<open>Properties\<close>

text \<open>
  C1. In every interleaving of any number of producers with the consumer, the values popped so far are
  a prefix of the values pushed so far in the order of the exchanges: nothing is lost, duplicated,
  reordered or made up. The allocated nodes are the sentinel and one node per value not yet popped.
\<close>

theorem mpsc_fifo:
  assumes "mpsc_init s" and "trace mpsc_step s es t"
  shows "\<exists>rest. pushes es = pops es @ rest \<and> card (dom (heap (queue t))) = Suc (length rest)"
proof -
  from mpsc.init_trace [OF assms] obtain xs where xs: "spec_trace vyukov_step [] es xs" "mpsc_sim t xs"
    by blast
  then obtain ns where "mpsc_chain t ns xs" by (auto simp: mpsc_sim_def)
  then have "dom (heap (queue t)) = set (q_tail (queue t) # ns)" "distinct (q_tail (queue t) # ns)"
      "length ns = length xs"
    by (auto simp: mpsc_chain_def Let_def content_ok_def)
  then have "card (dom (heap (queue t))) = Suc (length (map fst xs))"
    by (metis distinct_card length_Cons length_map)
  with vyukov_fifo [OF xs(1)] show ?thesis by blast
qed

text \<open>A run with one push used by the witnesses below.\<close>

definition one_push :: "nat mpsc_sys" where
  "one_push = (quiescent (mpsc_new 0))
     \<lparr>queue := snd (mpsc_exchange 1 7 (mpsc_new 0)), prods := (\<lambda>_. PIdle)(3 := PLink 0 1)\<rparr>"

lemma one_push_run:
  "mpsc_init (quiescent (mpsc_new 0))"
  "trace mpsc_step (quiescent (mpsc_new 0)) [Pushed 7] one_push"
proof -
  show "mpsc_init (quiescent (mpsc_new 0))" by (auto simp: mpsc_init_def)
  have "mpsc_step (quiescent (mpsc_new 0)) (Act (Pushed 7)) one_push"
    using mpsc_step.exchange [of "quiescent (mpsc_new 0)" 3 1 7 0 "snd (mpsc_exchange 1 7 (mpsc_new 0))"]
    by (simp add: one_push_def mpsc_new_def mpsc_exchange_def)
  then show "trace mpsc_step (quiescent (mpsc_new 0)) [Pushed 7] one_push" by (rule trace_single)
qed

theorem mpsc_fifo_witness:
  "\<exists>rest. pushes [Pushed (7::nat)] = pops [Pushed 7] @ rest \<and> card (dom (heap (queue one_push))) = Suc (length rest)"
  using mpsc_fifo [OF one_push_run] .

text \<open>
  C15. Memory safety: in every reachable state no operation in progress dereferences or deletes a node
  that has been freed. A producer that has exchanged \<open>head_\<close> may store to its predecessor, the consumer
  may read its sentinel and may advance to the node it loaded; so every producer can finish its push
  whatever the other threads do.
\<close>

theorem mpsc_memory_safe:
  assumes "reachable mpsc_init mpsc_step s"
  shows "(\<forall>p prev a. prods s p = PLink prev a \<longrightarrow> mpsc_link prev a (queue s) \<noteq> None) \<and>
         mpsc_load_next (queue s) \<noteq> None \<and>
         (\<forall>n. cons s = CLoaded n \<longrightarrow> mpsc_advance n (queue s) \<noteq> None)"
proof -
  from assms obtain xs where "mpsc_sim s xs" by (rule mpsc.reachable_sim)
  then obtain ns where c: "mpsc_chain s ns xs" by (auto simp: mpsc_sim_def)
  have "mpsc_link prev a (queue s) \<noteq> None" if "prods s p = PLink prev a" for p prev a
    using mpsc_chain_pending_allocated [OF c that] by (auto simp: mpsc_link_def)
  moreover have "mpsc_advance n (queue s) \<noteq> None" if "cons s = CLoaded n" for n
  proof -
    from c that have "node_nxt (queue s) (q_tail (queue s)) = Some n" by (simp add: mpsc_chain_def Let_def)
    from mpsc_chain_loaded [OF c this] obtain v where "node_val (queue s) n = Some v" by blast
    then have "heap (queue s) n \<noteq> None" by (auto simp: node_val_def split: option.splits)
    with mpsc_chain_tail_allocated [OF c] show ?thesis by (auto simp: mpsc_advance_def)
  qed
  ultimately show ?thesis
    using mpsc_chain_tail_allocated [OF c] by (auto simp: mpsc_load_next_def)
qed

theorem mpsc_memory_safe_witness:
  "prods one_push 3 = PLink 0 1 \<and> mpsc_link 0 1 (queue one_push) \<noteq> None"
proof -
  have p: "prods one_push 3 = PLink 0 1" by (simp add: one_push_def)
  have "reachable mpsc_init mpsc_step one_push"
    using one_push_run by (blast intro: trace_reachable reach_init)
  from mpsc_memory_safe [OF this] p show ?thesis by blast
qed

text \<open>
  C30. Pop answers \<open>nullopt\<close> exactly when nothing is left, provided no producer is between its exchange
  and its link: in a state with every producer idle the sentinel has no successor if and only if every
  pushed value has been popped.
\<close>

theorem mpsc_empty_iff_drained:
  assumes "mpsc_init s" and "trace mpsc_step s es t" and "\<forall>p. prods t p = PIdle"
  shows "mpsc_load_next (queue t) = Some None \<longleftrightarrow> pushes es = pops es"
proof -
  from mpsc.init_trace [OF assms(1,2)] obtain xs
    where xs: "spec_trace vyukov_step [] es xs" "mpsc_sim t xs" by blast
  from mpsc_sim_load_next [OF xs(2) assms(3)] vyukov_fifo [OF xs(1)] show ?thesis by auto
qed

theorem mpsc_empty_iff_drained_witness:
  "mpsc_load_next (mpsc_new 0 :: nat mpsc) = Some None \<and> pushes ([] :: nat mpsc_event list) = pops []"
  using mpsc_empty_iff_drained [OF one_push_run(1) trace_refl] by (simp add: mpsc_new_def mpsc_load_next_def)

text \<open>
  The destructor leaves no node allocated: when no operation is in progress it pops what is left,
  deletes the sentinel and every node is freed, whatever the history of the queue was.
\<close>

lemma mpsc_destroy_frees_all:
  assumes "reachable mpsc_init mpsc_step s" and "prods s = (\<lambda>_. PIdle)" and "cons s = CIdle"
  shows "mpsc_destroy (card (dom (heap (queue s)))) (queue s) = Some Map.empty"
proof -
  from assms(1) obtain xs where xs: "mpsc_sim s xs" by (rule mpsc.reachable_sim)
  have s: "s = quiescent (queue s)" using assms(2,3) by (simp add: quiescent_def)
  have "mpsc_repr (queue s) (map fst xs)"
    using xs mpsc_sim_idle_published [OF xs] assms(2) s by (simp add: mpsc_repr_def)
  moreover from xs have "card (dom (heap (queue s))) = Suc (length (map fst xs))"
    by (auto simp: mpsc_sim_def mpsc_chain_def Let_def content_ok_def distinct_card)
  ultimately show ?thesis using mpsc_repr_destroy by (metis lessI)
qed

end
