(* ===== verification/Work_Stealing_Deque.thy ===== *)
theory Work_Stealing_Deque
  imports Forge_Prelude
begin

section \<open>The Chase-Lev work-stealing deque (src/src/core/work\_stealing\_deque.h)\<close>

text \<open>
  The owner pushes and pops at the bottom, any number of thieves steal at the top. The element type's
  default value \<open>T{}\<close> is the argument \<open>t0\<close> of the operations that create a buffer. Circular buffers live
  in a store of their own, since a thief may hold a pointer to a buffer that the owner has replaced in
  the meantime; an access through a pointer that is not in the store, or with an index for which \<open>%\<close>
  would not give an array index, has the result \<open>None\<close> (undefined behaviour).

  Every load, store and compare-exchange of \<open>top_\<close>, \<open>bottom_\<close>, \<open>buffer_\<close> and of a buffer slot is one
  step. The indices are mathematical integers: the 64-bit counters would need more than $2^{63}$ pushes
  to wrap. Executions are interleavings (the memory orders and fences of the code are not modelled).
\<close>

subsection \<open>Circular buffers\<close>

record 'a cbuf =
  cb_cap :: int
  cb_data :: "'a list"

definition cb_new :: "'a \<Rightarrow> int \<Rightarrow> 'a cbuf" where
  "cb_new t0 cap = \<lparr>cb_cap = cap, cb_data = replicate (nat cap) t0\<rparr>"

definition cb_slot :: "'a cbuf \<Rightarrow> int \<Rightarrow> nat option" where
  "cb_slot B i =
     (if 0 \<le> i \<and> 0 < cb_cap B \<and> nat (i mod cb_cap B) < length (cb_data B) then Some (nat (i mod cb_cap B)) else None)"

definition cb_put :: "int \<Rightarrow> 'a \<Rightarrow> 'a cbuf \<Rightarrow> 'a cbuf option" where
  "cb_put i v B = map_option (\<lambda>j. B\<lparr>cb_data := (cb_data B)[j := v]\<rparr>) (cb_slot B i)"

definition cb_get :: "'a cbuf \<Rightarrow> int \<Rightarrow> 'a option" where
  "cb_get B i = map_option (\<lambda>j. cb_data B ! j) (cb_slot B i)"

text \<open>The copy loop of \<open>grow\<close>, then \<open>grow\<close> itself.\<close>

function cb_copy :: "'a cbuf \<Rightarrow> int \<Rightarrow> int \<Rightarrow> 'a cbuf \<Rightarrow> 'a cbuf option" where
  "cb_copy src i bottom dst =
     (if i < bottom then
        (case cb_get src i of
           None \<Rightarrow> None
         | Some v \<Rightarrow> (case cb_put i v dst of
             None \<Rightarrow> None
           | Some dst' \<Rightarrow> cb_copy src (i + 1) bottom dst'))
      else Some dst)"
  by pat_completeness auto
termination
  by (relation "measure (\<lambda>(src, i, bottom, dst). nat (bottom - i))") auto

declare cb_copy.simps [simp del]

definition cb_grow :: "'a \<Rightarrow> 'a cbuf \<Rightarrow> int \<Rightarrow> int \<Rightarrow> 'a cbuf option" where
  "cb_grow t0 B t bottom = cb_copy B t bottom (cb_new t0 (cb_cap B * 2))"

definition cb_ok :: "'a cbuf \<Rightarrow> bool" where
  "cb_ok B \<longleftrightarrow> 0 < cb_cap B \<and> length (cb_data B) = nat (cb_cap B)"

lemma cb_ok_new [simp]: "cb_ok (cb_new t0 cap) \<longleftrightarrow> 0 < cap"
  by (auto simp: cb_ok_def cb_new_def)

lemma cb_cap_new [simp]: "cb_cap (cb_new t0 cap) = cap"
  by (simp add: cb_new_def)

lemma cb_slot_Some: "cb_ok B \<Longrightarrow> 0 \<le> i \<Longrightarrow> cb_slot B i = Some (nat (i mod cb_cap B))"
  by (simp add: cb_slot_def cb_ok_def nat_less_iff)

lemma cb_get_Some: "cb_ok B \<Longrightarrow> 0 \<le> i \<Longrightarrow> cb_get B i = Some (cb_data B ! nat (i mod cb_cap B))"
  by (simp add: cb_get_def cb_slot_Some)

lemma cb_put_Some:
  assumes "cb_ok B" and "0 \<le> i"
  obtains B' where "cb_put i v B = Some B'" "cb_ok B'" "cb_cap B' = cb_cap B"
  using assms by (auto simp: cb_put_def cb_slot_Some) (simp add: cb_ok_def)

lemma cb_put_ok: "cb_put i v B = Some B' \<Longrightarrow> cb_ok B \<Longrightarrow> cb_ok B' \<and> cb_cap B' = cb_cap B"
  by (auto simp: cb_put_def cb_ok_def)

text \<open>Two indices less than a capacity apart have different slots.\<close>

lemma mod_close_neq:
  fixes i j c :: int
  assumes "i \<noteq> j" and "\<bar>i - j\<bar> < c"
  shows "i mod c \<noteq> j mod c"
proof
  assume "i mod c = j mod c"
  then have "c dvd i - j" by (simp add: mod_eq_dvd_iff)
  then have "c dvd \<bar>i - j\<bar>" by simp
  moreover have "0 < \<bar>i - j\<bar>" using assms(1) by simp
  ultimately show False using zdvd_imp_le [of c "\<bar>i - j\<bar>"] assms(2) by linarith
qed

lemma cb_get_put:
  assumes "cb_put i v B = Some B'" and "cb_ok B" and "0 \<le> i" and "0 \<le> j" and "\<bar>i - j\<bar> < cb_cap B"
  shows "cb_get B' j = (if j = i then Some v else cb_get B j)"
proof -
  have "nat (i mod cb_cap B) < length (cb_data B)" using assms(2) by (simp add: cb_ok_def nat_less_iff)
  moreover have "j \<noteq> i \<Longrightarrow> nat (j mod cb_cap B) \<noteq> nat (i mod cb_cap B)"
    using mod_close_neq [of i j "cb_cap B"] assms(2,5) by (auto simp: cb_ok_def nat_eq_iff)
  ultimately show ?thesis
    using assms(1-4) cb_put_ok [OF assms(1,2)] by (auto simp: cb_put_def cb_get_def cb_slot_Some)
qed

lemma cb_copy_correct:
  "cb_ok src \<Longrightarrow> cb_ok dst \<Longrightarrow> 0 \<le> i \<Longrightarrow> bottom - i \<le> cb_cap dst \<Longrightarrow>
   \<exists>d. cb_copy src i bottom dst = Some d \<and> cb_ok d \<and> cb_cap d = cb_cap dst \<and>
     (\<forall>j. 0 \<le> j \<longrightarrow> bottom - cb_cap dst \<le> j \<longrightarrow> j < bottom \<longrightarrow>
        cb_get d j = (if i \<le> j then cb_get src j else cb_get dst j))"
proof (induction src i bottom dst rule: cb_copy.induct)
  case (1 src i bottom dst)
  show ?case
  proof (cases "i < bottom")
    case False
    then show ?thesis using "1.prems" by (subst cb_copy.simps) auto
  next
    case True
    obtain v where v: "cb_get src i = Some v" using cb_get_Some [OF "1.prems"(1,3)] by blast
    obtain d1 where d1: "cb_put i v dst = Some d1" "cb_ok d1" "cb_cap d1 = cb_cap dst"
      using cb_put_Some [OF "1.prems"(2,3)] by blast
    have "0 \<le> i + 1" "bottom - (i + 1) \<le> cb_cap d1" using "1.prems" d1(3) by auto
    from "1.IH" [OF True v d1(1) "1.prems"(1) d1(2) this] obtain d where
      d: "cb_copy src (i + 1) bottom d1 = Some d" "cb_ok d" "cb_cap d = cb_cap d1"
         "\<And>j. 0 \<le> j \<Longrightarrow> bottom - cb_cap d1 \<le> j \<Longrightarrow> j < bottom \<Longrightarrow>
            cb_get d j = (if i + 1 \<le> j then cb_get src j else cb_get d1 j)"
      by blast
    have "cb_get d j = (if i \<le> j then cb_get src j else cb_get dst j)"
      if j: "0 \<le> j" "bottom - cb_cap dst \<le> j" "j < bottom" for j
    proof -
      have "\<bar>i - j\<bar> < cb_cap dst" using j True "1.prems"(4) by linarith
      from cb_get_put [OF d1(1) "1.prems"(2,3) j(1) this] d(4) [of j] j d1(3) v show ?thesis
        by (cases "j = i") auto
    qed
    with d d1(3) show ?thesis using True v d1(1) by (subst cb_copy.simps) auto
  qed
qed

lemma cb_grow_correct:
  assumes "cb_ok B" and "0 \<le> t" and "bottom - t \<le> 2 * cb_cap B"
  obtains B' where "cb_grow t0 B t bottom = Some B'" "cb_ok B'" "cb_cap B' = 2 * cb_cap B"
    "\<And>j. t \<le> j \<Longrightarrow> j < bottom \<Longrightarrow> cb_get B' j = cb_get B j"
proof -
  have "cb_ok (cb_new t0 (cb_cap B * 2))" using assms(1) by (simp add: cb_ok_def [of B])
  from cb_copy_correct [OF assms(1) this assms(2), of bottom] assms that show thesis
    by (auto simp: cb_grow_def)
qed

subsection \<open>The deque\<close>

record 'a wsd =
  wtop :: int
  wbottom :: int
  wbufs :: "addr \<rightharpoonup> 'a cbuf"
  wbuffer :: addr
  wold :: "addr list"

definition wsd_new :: "'a \<Rightarrow> addr \<Rightarrow> int \<Rightarrow> 'a wsd" where
  "wsd_new t0 a capacity =
     \<lparr>wtop = 0, wbottom = 0, wbufs = [a \<mapsto> cb_new t0 capacity], wbuffer = a, wold = []\<rparr>"

text \<open>
  The buffer a push writes to: the current one if the observed top \<open>t\<close> leaves room, otherwise a buffer of
  twice the capacity at the fresh address \<open>a\<close>; the replaced buffer is kept in \<open>old_buffers_\<close>.
\<close>

definition wsd_reserve :: "'a \<Rightarrow> addr \<Rightarrow> int \<Rightarrow> 'a wsd \<Rightarrow> 'a wsd option" where
  "wsd_reserve t0 a t d =
     (case wbufs d (wbuffer d) of
        None \<Rightarrow> None
      | Some B \<Rightarrow>
          if wbottom d - t \<ge> cb_cap B then
            (case cb_grow t0 B t (wbottom d) of
               None \<Rightarrow> None
             | Some B' \<Rightarrow> Some (d\<lparr>wbufs := (wbufs d)(a \<mapsto> B'), wold := wold d @ [wbuffer d], wbuffer := a\<rparr>))
          else Some d)"

definition wsd_put :: "addr \<Rightarrow> 'a \<Rightarrow> 'a wsd \<Rightarrow> 'a wsd option" where
  "wsd_put p v d =
     (case wbufs d p of
        None \<Rightarrow> None
      | Some B \<Rightarrow> map_option (\<lambda>B'. d\<lparr>wbufs := (wbufs d)(p \<mapsto> B')\<rparr>) (cb_put (wbottom d) v B))"

definition wsd_get :: "addr \<Rightarrow> int \<Rightarrow> 'a wsd \<Rightarrow> 'a option" where
  "wsd_get p i d = (case wbufs d p of None \<Rightarrow> None | Some B \<Rightarrow> cb_get B i)"

text \<open>\<open>top_.compare_exchange_strong(expected, expected + 1)\<close>.\<close>

definition wsd_cas_top :: "int \<Rightarrow> 'a wsd \<Rightarrow> bool \<times> 'a wsd" where
  "wsd_cas_top t d = (if wtop d = t then (True, d\<lparr>wtop := t + 1\<rparr>) else (False, d))"

definition wsd_push :: "'a \<Rightarrow> addr \<Rightarrow> 'a \<Rightarrow> 'a wsd \<Rightarrow> 'a wsd option" where
  "wsd_push t0 a v d =
     (case wsd_reserve t0 a (wtop d) d of
        None \<Rightarrow> None
      | Some d1 \<Rightarrow> map_option (\<lambda>d2. d2\<lparr>wbottom := wbottom d2 + 1\<rparr>) (wsd_put (wbuffer d1) v d1))"

definition wsd_pop :: "'a wsd \<Rightarrow> ('a option \<times> 'a wsd) option" where
  "wsd_pop d =
     (let b = wbottom d - 1; d1 = d\<lparr>wbottom := b\<rparr>; t = wtop d1 in
      if t \<le> b then
        (case wsd_get (wbuffer d1) b d1 of
           None \<Rightarrow> None
         | Some v \<Rightarrow>
             if t = b then
               (case wsd_cas_top t d1 of
                  (False, d2) \<Rightarrow> Some (None, d2\<lparr>wbottom := t + 1\<rparr>)
                | (True, d2) \<Rightarrow> Some (Some v, d2\<lparr>wbottom := t + 1\<rparr>))
             else Some (Some v, d1))
      else Some (None, d1\<lparr>wbottom := t\<rparr>))"

definition wsd_steal :: "'a wsd \<Rightarrow> ('a option \<times> 'a wsd) option" where
  "wsd_steal d =
     (let t = wtop d; b = wbottom d in
      if t < b then
        (case wsd_get (wbuffer d) t d of
           None \<Rightarrow> None
         | Some v \<Rightarrow> (case wsd_cas_top t d of
             (False, d1) \<Rightarrow> Some (None, d1)
           | (True, d1) \<Rightarrow> Some (Some v, d1)))
      else Some (None, d))"

definition wsd_size :: "'a wsd \<Rightarrow> int" where
  "wsd_size d = max (wbottom d - wtop d) 0"

definition wsd_empty :: "'a wsd \<Rightarrow> bool" where
  "wsd_empty d \<longleftrightarrow> wsd_size d = 0"

text \<open>The destructor deletes the current buffer, then every kept one; \<open>None\<close> is a double delete.\<close>

fun free_all :: "addr list \<Rightarrow> (addr \<rightharpoonup> 'b) \<Rightarrow> (addr \<rightharpoonup> 'b) option" where
  "free_all [] h = Some h"
| "free_all (a # as) h = (if h a = None then None else free_all as (h(a := None)))"

definition wsd_destroy :: "'a wsd \<Rightarrow> (addr \<rightharpoonup> 'a cbuf) option" where
  "wsd_destroy d = free_all (wbuffer d # wold d) (wbufs d)"

subsection \<open>Concurrent executions\<close>

text \<open>
  The program counters hold the local variables of the operation in progress. For the owner: \<open>t\<close> is the
  loaded top, \<open>p\<close> the loaded buffer pointer, \<open>b\<close> the decremented bottom.
\<close>

datatype 'a owner_pc =
    OIdle
  | OPushT 'a int        \<comment> \<open>push: top loaded\<close>
  | OPushP 'a addr       \<comment> \<open>push: buffer chosen\<close>
  | OPushed 'a           \<comment> \<open>push: slot written\<close>
  | OPopB int addr       \<comment> \<open>pop: bottom decremented\<close>
  | OPopGet int addr     \<comment> \<open>pop: more than one element seen\<close>
  | OPopLast int addr    \<comment> \<open>pop: one element seen\<close>
  | OPopCas int 'a       \<comment> \<open>pop: last element read, before the compare-exchange\<close>
  | OPopFix int          \<comment> \<open>pop: bottom to be restored\<close>

datatype 'a thief_pc =
    TIdle
  | TTop int             \<comment> \<open>steal: top loaded\<close>
  | TBot int             \<comment> \<open>steal: bottom loaded and larger than top\<close>
  | TBuf int addr        \<comment> \<open>steal: buffer pointer loaded\<close>
  | TVal int 'a          \<comment> \<open>steal: slot read, before the compare-exchange\<close>

record 'a wsd_sys =
  deque :: "'a wsd"
  owner :: "'a owner_pc"
  thieves :: "tid \<Rightarrow> 'a thief_pc"

datatype 'a wsd_event = Push 'a | Pop "'a option" | Steal 'a

definition wsd_init :: "'a \<Rightarrow> 'a wsd_sys \<Rightarrow> bool" where
  "wsd_init t0 s \<longleftrightarrow> (\<exists>a capacity. 0 < capacity \<and> deque s = wsd_new t0 a capacity) \<and>
     owner s = OIdle \<and> thieves s = (\<lambda>_. TIdle)"

inductive wsd_step :: "'a \<Rightarrow> 'a wsd_sys \<Rightarrow> 'a wsd_event label \<Rightarrow> 'a wsd_sys \<Rightarrow> bool" for t0 where
  push_load_top: "owner s = OIdle \<Longrightarrow>
     wsd_step t0 s Tau (s\<lparr>owner := OPushT v (wtop (deque s))\<rparr>)"
| push_reserve: "owner s = OPushT v t \<Longrightarrow> wbufs (deque s) a = None \<Longrightarrow>
     wsd_reserve t0 a t (deque s) = Some d \<Longrightarrow>
     wsd_step t0 s Tau (s\<lparr>deque := d, owner := OPushP v (wbuffer d)\<rparr>)"
| push_put: "owner s = OPushP v p \<Longrightarrow> wsd_put p v (deque s) = Some d \<Longrightarrow>
     wsd_step t0 s Tau (s\<lparr>deque := d, owner := OPushed v\<rparr>)"
| push_publish: "owner s = OPushed v \<Longrightarrow>
     wsd_step t0 s (Act (Push v))
       (s\<lparr>deque := (deque s)\<lparr>wbottom := wbottom (deque s) + 1\<rparr>, owner := OIdle\<rparr>)"
| pop_dec: "owner s = OIdle \<Longrightarrow> b = wbottom (deque s) - 1 \<Longrightarrow>
     wsd_step t0 s Tau
       (s\<lparr>deque := (deque s)\<lparr>wbottom := b\<rparr>, owner := OPopB b (wbuffer (deque s))\<rparr>)"
| pop_many: "owner s = OPopB b p \<Longrightarrow> wtop (deque s) < b \<Longrightarrow>
     wsd_step t0 s Tau (s\<lparr>owner := OPopGet b p\<rparr>)"
| pop_one: "owner s = OPopB b p \<Longrightarrow> wtop (deque s) = b \<Longrightarrow>
     wsd_step t0 s Tau (s\<lparr>owner := OPopLast b p\<rparr>)"
| pop_none: "owner s = OPopB b p \<Longrightarrow> b < wtop (deque s) \<Longrightarrow>
     wsd_step t0 s (Act (Pop None)) (s\<lparr>owner := OPopFix (wtop (deque s))\<rparr>)"
| pop_get: "owner s = OPopGet b p \<Longrightarrow> wsd_get p b (deque s) = Some v \<Longrightarrow>
     wsd_step t0 s (Act (Pop (Some v))) (s\<lparr>owner := OIdle\<rparr>)"
| pop_last_get: "owner s = OPopLast b p \<Longrightarrow> wsd_get p b (deque s) = Some v \<Longrightarrow>
     wsd_step t0 s Tau (s\<lparr>owner := OPopCas b v\<rparr>)"
| pop_cas: "owner s = OPopCas b v \<Longrightarrow> wsd_cas_top b (deque s) = (ok, d) \<Longrightarrow>
     wsd_step t0 s (Act (Pop (if ok then Some v else None)))
       (s\<lparr>deque := d, owner := OPopFix (b + 1)\<rparr>)"
| pop_fix: "owner s = OPopFix x \<Longrightarrow>
     wsd_step t0 s Tau (s\<lparr>deque := (deque s)\<lparr>wbottom := x\<rparr>, owner := OIdle\<rparr>)"
| steal_top: "thieves s i = TIdle \<Longrightarrow>
     wsd_step t0 s Tau (s\<lparr>thieves := (thieves s)(i := TTop (wtop (deque s)))\<rparr>)"
| steal_bottom: "thieves s i = TTop t \<Longrightarrow> t < wbottom (deque s) \<Longrightarrow>
     wsd_step t0 s Tau (s\<lparr>thieves := (thieves s)(i := TBot t)\<rparr>)"
| steal_empty: "thieves s i = TTop t \<Longrightarrow> \<not> t < wbottom (deque s) \<Longrightarrow>
     wsd_step t0 s Tau (s\<lparr>thieves := (thieves s)(i := TIdle)\<rparr>)"
| steal_buffer: "thieves s i = TBot t \<Longrightarrow>
     wsd_step t0 s Tau (s\<lparr>thieves := (thieves s)(i := TBuf t (wbuffer (deque s)))\<rparr>)"
| steal_get: "thieves s i = TBuf t p \<Longrightarrow> wsd_get p t (deque s) = Some v \<Longrightarrow>
     wsd_step t0 s Tau (s\<lparr>thieves := (thieves s)(i := TVal t v)\<rparr>)"
| steal_cas: "thieves s i = TVal t v \<Longrightarrow> wsd_cas_top t (deque s) = (True, d) \<Longrightarrow>
     wsd_step t0 s (Act (Steal v)) (s\<lparr>deque := d, thieves := (thieves s)(i := TIdle)\<rparr>)"
| steal_lost: "thieves s i = TVal t v \<Longrightarrow> wsd_cas_top t (deque s) = (False, d) \<Longrightarrow>
     wsd_step t0 s Tau (s\<lparr>deque := d, thieves := (thieves s)(i := TIdle)\<rparr>)"

subsection \<open>The abstract deque\<close>

inductive deque_step :: "'a list \<Rightarrow> 'a wsd_event \<Rightarrow> 'a list \<Rightarrow> bool" where
  spec_push: "deque_step xs (Push v) (xs @ [v])"
| spec_pop: "deque_step (xs @ [v]) (Pop (Some v)) xs"
| spec_pop_none: "deque_step [] (Pop None) []"
| spec_steal: "deque_step (v # xs) (Steal v) xs"

fun put_in :: "'a wsd_event \<Rightarrow> 'a list" where
  "put_in (Push v) = [v]"
| "put_in _ = []"

fun taken_out :: "'a wsd_event \<Rightarrow> 'a list" where
  "taken_out (Pop (Some v)) = [v]"
| "taken_out (Steal v) = [v]"
| "taken_out _ = []"

lemma deque_conserves:
  "spec_trace deque_step xs es ys \<Longrightarrow>
   mset xs + mset (concat (map put_in es)) = mset (concat (map taken_out es)) + mset ys"
proof (induction rule: spec_trace.induct)
  case (spec_act a es b e c)
  from spec_act.hyps(2) spec_act.IH show ?case by cases auto
qed simp

subsection \<open>The simulation relation\<close>

text \<open>
  The abstract list is the content of the slots from \<open>top_\<close> up to the logical bottom: a pop in progress
  has decremented \<open>bottom_\<close> but the element is still in the deque until it is taken.
\<close>

definition pop_pc :: "'a owner_pc \<Rightarrow> bool" where
  "pop_pc pc \<longleftrightarrow> (case pc of OPopB _ _ \<Rightarrow> True | OPopGet _ _ \<Rightarrow> True | OPopLast _ _ \<Rightarrow> True
                   | OPopCas _ _ \<Rightarrow> True | OPopFix _ \<Rightarrow> True | _ \<Rightarrow> False)"

lemma pop_pc_simps [simp]:
  "\<not> pop_pc OIdle" "\<not> pop_pc (OPushT v t)" "\<not> pop_pc (OPushP v p)" "\<not> pop_pc (OPushed v)"
  "pop_pc (OPopB b p)" "pop_pc (OPopGet b p)" "pop_pc (OPopLast b p)" "pop_pc (OPopCas b v)"
  "pop_pc (OPopFix x)"
  by (simp_all add: pop_pc_def)

definition wsd_content :: "'a wsd \<Rightarrow> 'a list \<Rightarrow> bool" where
  "wsd_content d xs \<longleftrightarrow> 0 \<le> wtop d \<and> (\<exists>B. wbufs d (wbuffer d) = Some B \<and> int (length xs) \<le> cb_cap B \<and>
     (\<forall>k < length xs. cb_get B (wtop d + int k) = Some (xs ! k)))"

definition bufs_ok :: "'a wsd \<Rightarrow> bool" where
  "bufs_ok d \<longleftrightarrow> distinct (wbuffer d # wold d) \<and> dom (wbufs d) = set (wbuffer d # wold d) \<and>
     (\<forall>p B. wbufs d p = Some B \<longrightarrow> cb_ok B)"

fun owner_ok :: "'a wsd \<Rightarrow> 'a list \<Rightarrow> 'a owner_pc \<Rightarrow> bool" where
  "owner_ok d xs OIdle = True"
| "owner_ok d xs (OPushT v t) \<longleftrightarrow> 0 \<le> t \<and> t \<le> wtop d \<and>
     (\<exists>B. wbufs d (wbuffer d) = Some B \<and> wbottom d - t \<le> cb_cap B)"
| "owner_ok d xs (OPushP v p) \<longleftrightarrow> p = wbuffer d \<and>
     (\<exists>B. wbufs d (wbuffer d) = Some B \<and> int (length xs) < cb_cap B)"
| "owner_ok d xs (OPushed v) \<longleftrightarrow>
     (\<exists>B. wbufs d (wbuffer d) = Some B \<and> int (length xs) < cb_cap B \<and> cb_get B (wbottom d) = Some v)"
| "owner_ok d xs (OPopB b p) \<longleftrightarrow> wbottom d = b \<and> p = wbuffer d"
| "owner_ok d xs (OPopGet b p) \<longleftrightarrow> wbottom d = b \<and> p = wbuffer d \<and> wtop d \<le> b"
| "owner_ok d xs (OPopLast b p) \<longleftrightarrow> wbottom d = b \<and> p = wbuffer d \<and> 0 \<le> b \<and> b \<le> wtop d"
| "owner_ok d xs (OPopCas b v) \<longleftrightarrow> wbottom d = b \<and> b \<le> wtop d \<and> (wtop d = b \<longrightarrow> xs = [v])"
| "owner_ok d xs (OPopFix x) \<longleftrightarrow> wbottom d = x - 1 \<and> wtop d = x"

text \<open>\<open>lim\<close> is the index the owner is about to take without a compare-exchange, if any.\<close>

fun thief_ok :: "'a wsd \<Rightarrow> 'a list \<Rightarrow> int option \<Rightarrow> 'a thief_pc \<Rightarrow> bool" where
  "thief_ok d xs lim TIdle = True"
| "thief_ok d xs lim (TTop t) \<longleftrightarrow> 0 \<le> t \<and> t \<le> wtop d"
| "thief_ok d xs lim (TBot t) \<longleftrightarrow> 0 \<le> t \<and> t \<le> wtop d \<and> (\<forall>b. lim = Some b \<longrightarrow> t < b) \<and> (wtop d = t \<longrightarrow> xs \<noteq> [])"
| "thief_ok d xs lim (TBuf t p) \<longleftrightarrow> 0 \<le> t \<and> t \<le> wtop d \<and> (\<forall>b. lim = Some b \<longrightarrow> t < b) \<and>
     wbufs d p \<noteq> None \<and> (wtop d = t \<longrightarrow> xs \<noteq> [] \<and> wsd_get p t d = Some (hd xs))"
| "thief_ok d xs lim (TVal t v) \<longleftrightarrow> 0 \<le> t \<and> t \<le> wtop d \<and> (\<forall>b. lim = Some b \<longrightarrow> t < b) \<and>
     (wtop d = t \<longrightarrow> xs \<noteq> [] \<and> v = hd xs)"

definition pop_limit :: "'a owner_pc \<Rightarrow> int option" where
  "pop_limit pc = (case pc of OPopGet b _ \<Rightarrow> Some b | _ \<Rightarrow> None)"

lemma pop_limit_simps [simp]:
  "pop_limit OIdle = None" "pop_limit (OPushT v t) = None" "pop_limit (OPushP v p) = None"
  "pop_limit (OPushed v) = None" "pop_limit (OPopB b p) = None" "pop_limit (OPopGet b p) = Some b"
  "pop_limit (OPopLast b p) = None" "pop_limit (OPopCas b v) = None" "pop_limit (OPopFix x) = None"
  by (simp_all add: pop_limit_def)

definition wsd_sim :: "'a wsd_sys \<Rightarrow> 'a list \<Rightarrow> bool" where
  "wsd_sim s xs \<longleftrightarrow>
     wtop (deque s) + int (length xs) = wbottom (deque s) + (if pop_pc (owner s) then 1 else 0) \<and>
     wsd_content (deque s) xs \<and> bufs_ok (deque s) \<and> owner_ok (deque s) xs (owner s) \<and>
     (\<forall>i. thief_ok (deque s) xs (pop_limit (owner s)) (thieves s i))"

lemma wsd_sim_init: "wsd_init t0 s \<Longrightarrow> wsd_sim s []"
  by (auto simp: wsd_init_def wsd_sim_def wsd_new_def wsd_content_def bufs_ok_def split: if_splits)

text \<open>How a thief's knowledge survives the steps of the other threads.\<close>

lemma thief_ok_keep:
  assumes "thief_ok d xs lim pc" and "wtop d' = wtop d"
    and "xs \<noteq> [] \<Longrightarrow> (\<And>b. lim = Some b \<Longrightarrow> wtop d < b) \<Longrightarrow> ys \<noteq> [] \<and> hd ys = hd xs"
    and "\<And>p. wbufs d p \<noteq> None \<Longrightarrow> wbufs d' p \<noteq> None"
    and "\<And>p. xs \<noteq> [] \<Longrightarrow> wsd_get p (wtop d) d = Some (hd xs) \<Longrightarrow> wsd_get p (wtop d) d' = Some (hd xs)"
    and "\<And>b. lim' = Some b \<Longrightarrow> lim = Some b \<or> wtop d < b"
  shows "thief_ok d' ys lim' pc"
proof (cases pc)
  case (TBot t)
  then show ?thesis using assms(1,2,3,6) by fastforce
next
  case (TBuf t p)
  then show ?thesis using assms(1,2,3,6) assms(4) [of p] assms(5) [of p] by fastforce
next
  case (TVal t v)
  then show ?thesis using assms(1,2,3,6) by fastforce
qed (use assms(1,2) in auto)

lemma thief_ok_advance:
  assumes "thief_ok d xs lim pc" and "wtop d' = wtop d + 1" and "wbufs d' = wbufs d"
  shows "thief_ok d' ys lim pc"
  using assms by (cases pc) auto

lemma wsd_content_buffer:
  "wsd_content d xs \<Longrightarrow> k < length xs \<Longrightarrow> wsd_get (wbuffer d) (wtop d + int k) d = Some (xs ! k)"
  by (auto simp: wsd_content_def wsd_get_def)

lemma wsd_content_frame:
  "wtop d' = wtop d \<Longrightarrow> wbufs d' = wbufs d \<Longrightarrow> wbuffer d' = wbuffer d \<Longrightarrow> wsd_content d' xs = wsd_content d xs"
  by (simp add: wsd_content_def)

lemma wsd_content_tl: "wsd_content d (x # xs) \<Longrightarrow> wsd_content (d\<lparr>wtop := wtop d + 1\<rparr>) xs"
  by (force simp: wsd_content_def add.assoc)

lemma wsd_content_butlast: "wsd_content d (xs @ [x]) \<Longrightarrow> wsd_content d xs"
  by (force simp: wsd_content_def nth_append)

lemma bufs_ok_frame [simp]:
  "bufs_ok (d\<lparr>wtop := t\<rparr>) = bufs_ok d" "bufs_ok (d\<lparr>wbottom := b\<rparr>) = bufs_ok d"
  by (simp_all add: bufs_ok_def)

lemma wsd_get_frame [simp]:
  "wsd_get p i (d\<lparr>wtop := t\<rparr>) = wsd_get p i d" "wsd_get p i (d\<lparr>wbottom := b\<rparr>) = wsd_get p i d"
  by (simp_all add: wsd_get_def)

subsubsection \<open>Push\<close>

lemma wsd_reserve_correct:
  assumes "wsd_content d xs" and "bufs_ok d" and "wtop d + int (length xs) = wbottom d"
    and t: "0 \<le> t" "t \<le> wtop d" "wbufs d (wbuffer d) = Some B" "wbottom d - t \<le> cb_cap B"
    and free: "wbufs d a = None" and r: "wsd_reserve t0 a t d = Some d'"
  shows "wsd_content d' xs \<and> bufs_ok d' \<and> wtop d' = wtop d \<and> wbottom d' = wbottom d \<and>
         (\<exists>B'. wbufs d' (wbuffer d') = Some B' \<and> int (length xs) < cb_cap B') \<and>
         (\<forall>p. wbufs d p \<noteq> None \<longrightarrow> wbufs d' p = wbufs d p)"
proof (cases "cb_cap B \<le> wbottom d - t")
  case False
  with r t have "d' = d" by (simp add: wsd_reserve_def)
  with False assms(1-3) t show ?thesis by auto
next
  case True
  have ok: "cb_ok B" using assms(2) t(3) by (auto simp: bufs_ok_def)
  then have pos: "0 < cb_cap B" by (simp add: cb_ok_def)
  obtain B' where B': "cb_grow t0 B t (wbottom d) = Some B'" "cb_ok B'" "cb_cap B' = 2 * cb_cap B"
      "\<And>j. t \<le> j \<Longrightarrow> j < wbottom d \<Longrightarrow> cb_get B' j = cb_get B j"
    using cb_grow_correct [OF ok t(1), of "wbottom d" t0] t(4) pos by auto
  have d': "d' = d\<lparr>wbufs := (wbufs d)(a \<mapsto> B'), wold := wold d @ [wbuffer d], wbuffer := a\<rparr>"
    using r True t(3) B'(1) by (simp add: wsd_reserve_def)
  have len: "int (length xs) \<le> cb_cap B" using assms(3) t by simp
  have "wsd_content d' xs"
    using assms(1,3) t B'(3,4) len pos by (auto simp: wsd_content_def d')
  moreover have "a \<notin> set (wbuffer d # wold d)" using free assms(2) by (auto simp: bufs_ok_def)
  then have "bufs_ok d'"
    using assms(2) B'(2) by (auto simp: bufs_ok_def d' split: if_splits)
  ultimately show ?thesis using B' len pos free by (auto simp: d')
qed

lemma wsd_put_correct:
  assumes c: "wsd_content d xs" and "bufs_ok d" and b: "wtop d + int (length xs) = wbottom d"
    and B: "wbufs d (wbuffer d) = Some B" "int (length xs) < cb_cap B"
    and r: "wsd_put (wbuffer d) v d = Some d'"
  shows "wsd_content d' xs \<and> bufs_ok d' \<and> wtop d' = wtop d \<and> wbottom d' = wbottom d \<and> wbuffer d' = wbuffer d \<and>
         (\<exists>B'. wbufs d' (wbuffer d) = Some B' \<and> cb_cap B' = cb_cap B \<and> cb_get B' (wbottom d) = Some v) \<and>
         (\<forall>p. wbufs d p \<noteq> None \<longrightarrow> wbufs d' p \<noteq> None) \<and>
         (\<forall>p. xs \<noteq> [] \<longrightarrow> wsd_get p (wtop d) d' = wsd_get p (wtop d) d)"
proof -
  obtain B' where put: "cb_put (wbottom d) v B = Some B'" and d': "d' = d\<lparr>wbufs := (wbufs d)(wbuffer d \<mapsto> B')\<rparr>"
    using r B(1) by (auto simp: wsd_put_def)
  have ok: "cb_ok B" using assms(2) B(1) by (auto simp: bufs_ok_def)
  have B': "cb_ok B'" "cb_cap B' = cb_cap B" using cb_put_ok [OF put ok] by auto
  have nonneg: "0 \<le> wtop d" using c by (simp add: wsd_content_def)
  have get: "cb_get B' (wtop d + int k) = (if k = length xs then Some v else cb_get B (wtop d + int k))"
    if "k \<le> length xs" for k
    using cb_get_put [OF put ok, of "wtop d + int k"] b B(2) that nonneg by auto
  from c B(1) have "\<forall>k < length xs. cb_get B (wtop d + int k) = Some (xs ! k)" by (auto simp: wsd_content_def)
  with get B(2) B'(2) nonneg have "wsd_content d' xs" by (auto simp: wsd_content_def d')
  moreover have "bufs_ok d'"
    using assms(2) B(1) B'(1) by (auto simp: bufs_ok_def d' split: if_splits)
  moreover have "cb_get B' (wbottom d) = Some v" using get [of "length xs"] b by simp
  moreover have "wsd_get p (wtop d) d' = wsd_get p (wtop d) d" if "xs \<noteq> []" for p
    using get [of 0] that B(1) by (auto simp: wsd_get_def d')
  ultimately show ?thesis using B'(2) by (auto simp: d')
qed

lemma wsd_sim_thief_pc:
  assumes "wsd_sim s xs" and "thief_ok (deque s) xs (pop_limit (owner s)) pc"
  shows "wsd_sim (s\<lparr>thieves := (thieves s)(i := pc)\<rparr>) xs"
  using assms by (auto simp: wsd_sim_def)

lemma wsd_sim_push_load_top:
  assumes "wsd_sim s xs" and "owner s = OIdle"
  shows "wsd_sim (s\<lparr>owner := OPushT v (wtop (deque s))\<rparr>) xs"
  using assms by (auto simp: wsd_sim_def wsd_content_def)

lemma wsd_sim_push_reserve:
  assumes sim: "wsd_sim s xs" and pc: "owner s = OPushT v t" and "wbufs (deque s) a = None"
    and r: "wsd_reserve t0 a t (deque s) = Some d"
  shows "wsd_sim (s\<lparr>deque := d, owner := OPushP v (wbuffer d)\<rparr>) xs"
proof -
  from sim pc obtain B where c: "wsd_content (deque s) xs" "bufs_ok (deque s)"
      "wtop (deque s) + int (length xs) = wbottom (deque s)" "0 \<le> t" "t \<le> wtop (deque s)"
      "wbufs (deque s) (wbuffer (deque s)) = Some B" "wbottom (deque s) - t \<le> cb_cap B"
    by (auto simp: wsd_sim_def)
  from wsd_reserve_correct [OF this assms(3) r] have d: "wsd_content d xs" "bufs_ok d"
      "wtop d = wtop (deque s)" "wbottom d = wbottom (deque s)"
      "\<exists>B. wbufs d (wbuffer d) = Some B \<and> int (length xs) < cb_cap B"
      "\<And>p. wbufs (deque s) p \<noteq> None \<Longrightarrow> wbufs d p = wbufs (deque s) p"
    by blast+
  have "thief_ok d xs None (thieves s i)" for i
  proof (rule thief_ok_keep [where d = "deque s" and xs = xs and lim = "pop_limit (owner s)"])
    show "thief_ok (deque s) xs (pop_limit (owner s)) (thieves s i)" using sim by (simp add: wsd_sim_def)
    show "wsd_get p (wtop (deque s)) d = Some (hd xs)"
      if "wsd_get p (wtop (deque s)) (deque s) = Some (hd xs)" for p
      using that d(6) [of p] by (auto simp: wsd_get_def split: option.splits)
  qed (use d in auto)
  with d c(3) show ?thesis by (simp add: wsd_sim_def)
qed

lemma wsd_sim_push_put:
  assumes sim: "wsd_sim s xs" and pc: "owner s = OPushP v p" and r: "wsd_put p v (deque s) = Some d"
  shows "wsd_sim (s\<lparr>deque := d, owner := OPushed v\<rparr>) xs"
proof -
  from sim pc obtain B where c: "wsd_content (deque s) xs" "bufs_ok (deque s)"
      "wtop (deque s) + int (length xs) = wbottom (deque s)" "p = wbuffer (deque s)"
      "wbufs (deque s) (wbuffer (deque s)) = Some B" "int (length xs) < cb_cap B"
    by (auto simp: wsd_sim_def)
  from wsd_put_correct [OF c(1-3,5,6) r [unfolded c(4)]] have d: "wsd_content d xs" "bufs_ok d"
      "wtop d = wtop (deque s)" "wbottom d = wbottom (deque s)" "wbuffer d = wbuffer (deque s)"
      "\<exists>B'. wbufs d (wbuffer (deque s)) = Some B' \<and> cb_cap B' = cb_cap B \<and> cb_get B' (wbottom (deque s)) = Some v"
      "\<And>p. wbufs (deque s) p \<noteq> None \<Longrightarrow> wbufs d p \<noteq> None"
      "\<And>p. xs \<noteq> [] \<Longrightarrow> wsd_get p (wtop (deque s)) d = wsd_get p (wtop (deque s)) (deque s)"
    by blast+
  have "thief_ok d xs None (thieves s i)" for i
    by (rule thief_ok_keep [where d = "deque s" and xs = xs and lim = "pop_limit (owner s)"])
      (use sim d in \<open>auto simp: wsd_sim_def\<close>)
  with d c show ?thesis by (auto simp: wsd_sim_def)
qed

lemma wsd_sim_push_publish:
  assumes sim: "wsd_sim s xs" and pc: "owner s = OPushed v"
  shows "wsd_sim (s\<lparr>deque := (deque s)\<lparr>wbottom := wbottom (deque s) + 1\<rparr>, owner := OIdle\<rparr>) (xs @ [v])"
proof -
  from sim pc obtain B where c: "wsd_content (deque s) xs" "bufs_ok (deque s)"
      "wtop (deque s) + int (length xs) = wbottom (deque s)"
      "wbufs (deque s) (wbuffer (deque s)) = Some B" "int (length xs) < cb_cap B"
      "cb_get B (wbottom (deque s)) = Some v"
    by (auto simp: wsd_sim_def)
  then have "wsd_content (deque s) (xs @ [v])"
    by (auto simp: wsd_content_def nth_append less_Suc_eq)
  moreover have "thief_ok ((deque s)\<lparr>wbottom := b\<rparr>) (xs @ [v]) None (thieves s i)" for i b
    by (rule thief_ok_keep [where d = "deque s" and xs = xs and lim = "pop_limit (owner s)"])
      (use sim in \<open>auto simp: wsd_sim_def\<close>)
  ultimately show ?thesis using c by (simp add: wsd_sim_def wsd_content_def)
qed

subsubsection \<open>Pop\<close>

lemma wsd_sim_pop_dec:
  assumes sim: "wsd_sim s xs" and pc: "owner s = OIdle" and b: "b = wbottom (deque s) - 1"
  shows "wsd_sim (s\<lparr>deque := (deque s)\<lparr>wbottom := b\<rparr>, owner := OPopB b (wbuffer (deque s))\<rparr>) xs"
proof -
  have "thief_ok ((deque s)\<lparr>wbottom := b\<rparr>) xs None (thieves s i)" for i
    by (rule thief_ok_keep [where d = "deque s" and xs = xs and lim = "pop_limit (owner s)"])
      (use sim in \<open>auto simp: wsd_sim_def\<close>)
  with sim pc b show ?thesis by (simp add: wsd_sim_def wsd_content_def)
qed

lemma wsd_sim_owner_pc:
  assumes sim: "wsd_sim s xs" and "pop_pc (owner s)" and "pop_pc pc" and "owner_ok (deque s) xs pc"
    and "\<And>b. pop_limit pc = Some b \<Longrightarrow> wtop (deque s) < b"
  shows "wsd_sim (s\<lparr>owner := pc\<rparr>) xs"
proof -
  have "thief_ok (deque s) xs (pop_limit pc) (thieves s i)" for i
    by (rule thief_ok_keep [where d = "deque s" and xs = xs and lim = "pop_limit (owner s)"])
      (use sim assms(5) in \<open>auto simp: wsd_sim_def\<close>)
  with assms show ?thesis by (simp add: wsd_sim_def)
qed

lemma wsd_sim_pop_get:
  assumes sim: "wsd_sim s xs" and pc: "owner s = OPopGet b p" and g: "wsd_get p b (deque s) = Some v"
  obtains ys where "xs = ys @ [v]" "wsd_sim (s\<lparr>owner := OIdle\<rparr>) ys"
proof -
  from sim pc have c: "wsd_content (deque s) xs" "bufs_ok (deque s)" "wbottom (deque s) = b"
      "wtop (deque s) + int (length xs) = b + 1" "p = wbuffer (deque s)" "wtop (deque s) \<le> b"
    by (auto simp: wsd_sim_def)
  then have "xs \<noteq> []" by auto
  then obtain ys y where ys: "xs = ys @ [y]" by (metis append_butlast_last_id)
  have "wsd_get p (wtop (deque s) + int (length ys)) (deque s) = Some y"
    using wsd_content_buffer [OF c(1), of "length ys"] ys c(5) by simp
  moreover have "wtop (deque s) + int (length ys) = b" using c(4) ys by simp
  ultimately have y: "y = v" using g by simp
  have "thief_ok (deque s) ys None (thieves s i)" for i
  proof (rule thief_ok_keep [where d = "deque s" and xs = xs and lim = "pop_limit (owner s)"])
    show "thief_ok (deque s) xs (pop_limit (owner s)) (thieves s i)" using sim by (simp add: wsd_sim_def)
    assume "\<And>b. pop_limit (owner s) = Some b \<Longrightarrow> wtop (deque s) < b"
    then have "wtop (deque s) < b" by (simp add: pc)
    then have "ys \<noteq> []" using c(4) ys by auto
    then show "ys \<noteq> [] \<and> hd ys = hd xs" by (simp add: ys)
  qed auto
  then have "wsd_sim (s\<lparr>owner := OIdle\<rparr>) ys"
    using sim c ys wsd_content_butlast by (auto simp: wsd_sim_def)
  with ys y that show thesis by blast
qed

lemma wsd_sim_pop_cas:
  assumes sim: "wsd_sim s xs" and pc: "owner s = OPopCas b v" and cas: "wsd_cas_top b (deque s) = (ok, d)"
  shows "deque_step xs (Pop (if ok then Some v else None)) [] \<and>
         wsd_sim (s\<lparr>deque := d, owner := OPopFix (b + 1)\<rparr>) []"
proof (cases "wtop (deque s) = b")
  case True
  with sim pc cas have xs: "xs = [v]" "ok" and d: "d = (deque s)\<lparr>wtop := wtop (deque s) + 1\<rparr>"
    by (auto simp: wsd_sim_def wsd_cas_top_def)
  have "thief_ok d [] None (thieves s i)" for i
    by (rule thief_ok_advance [where d = "deque s" and xs = xs])
      (use sim pc in \<open>auto simp: wsd_sim_def d\<close>)
  moreover have "wsd_content d []"
    using sim xs wsd_content_tl [of "deque s" v "[]"] by (simp add: d wsd_sim_def)
  ultimately have "wsd_sim (s\<lparr>deque := d, owner := OPopFix (b + 1)\<rparr>) []"
    using sim pc True by (simp add: wsd_sim_def d)
  with xs spec_pop [of "[]" v] show ?thesis by simp
next
  case False
  with sim pc have "b < wtop (deque s)" "wtop (deque s) + int (length xs) = b + 1"
    by (auto simp: wsd_sim_def)
  then have "wtop (deque s) = b + 1" "length xs = 0" by linarith+
  with False cas have t: "wtop (deque s) = b + 1" "xs = []" "\<not> ok" "d = deque s"
    by (auto simp: wsd_cas_top_def)
  have "wbottom (deque s) = b" using sim pc by (simp add: wsd_sim_def)
  then have "wsd_sim (s\<lparr>owner := OPopFix (b + 1)\<rparr>) xs"
    by (intro wsd_sim_owner_pc [OF sim]) (simp_all add: pc t(1))
  with t(2-4) show ?thesis using spec_pop_none by simp
qed

lemma wsd_sim_pop_fix:
  assumes sim: "wsd_sim s xs" and pc: "owner s = OPopFix x"
  shows "wsd_sim (s\<lparr>deque := (deque s)\<lparr>wbottom := x\<rparr>, owner := OIdle\<rparr>) xs"
proof -
  have "thief_ok ((deque s)\<lparr>wbottom := x\<rparr>) xs None (thieves s i)" for i
    by (rule thief_ok_keep [where d = "deque s" and xs = xs and lim = "pop_limit (owner s)"])
      (use sim in \<open>auto simp: wsd_sim_def\<close>)
  moreover have "wsd_content (deque s) xs" "bufs_ok (deque s)"
      "wtop (deque s) + int (length xs) = wbottom (deque s) + 1" "wbottom (deque s) = x - 1"
    using sim pc by (auto simp: wsd_sim_def)
  ultimately show ?thesis using pc by (simp add: wsd_sim_def wsd_content_def)
qed

subsubsection \<open>Steal\<close>

lemma wsd_sim_steal_bottom:
  assumes sim: "wsd_sim s xs" and pc: "thieves s i = TTop t" and b: "t < wbottom (deque s)"
  shows "thief_ok (deque s) xs (pop_limit (owner s)) (TBot t)"
proof -
  have t: "0 \<le> t" "t \<le> wtop (deque s)" using sim pc unfolding wsd_sim_def by (metis thief_ok.simps(2))+
  have lim: "t < c" if "pop_limit (owner s) = Some c" for c
    using that sim b by (auto simp: pop_limit_def wsd_sim_def split: owner_pc.splits)
  have "xs \<noteq> []" if "wtop (deque s) = t" using that sim b by (auto simp: wsd_sim_def split: if_splits)
  with t lim show ?thesis by simp
qed

lemma wsd_sim_steal_buffer:
  assumes sim: "wsd_sim s xs" and pc: "thieves s i = TBot t"
  shows "thief_ok (deque s) xs (pop_limit (owner s)) (TBuf t (wbuffer (deque s)))"
proof -
  have t: "thief_ok (deque s) xs (pop_limit (owner s)) (TBot t)" using sim pc unfolding wsd_sim_def by metis
  have c: "wsd_content (deque s) xs" using sim by (simp add: wsd_sim_def)
  then have "wbufs (deque s) (wbuffer (deque s)) \<noteq> None" by (auto simp: wsd_content_def)
  moreover have "wsd_get (wbuffer (deque s)) t (deque s) = Some (hd xs)" if "wtop (deque s) = t"
    using wsd_content_buffer [OF c, of 0] that t by (cases xs) auto
  ultimately show ?thesis using t by simp
qed

lemma wsd_sim_steal_get:
  assumes sim: "wsd_sim s xs" and pc: "thieves s i = TBuf t p" and "wsd_get p t (deque s) = Some v"
  shows "thief_ok (deque s) xs (pop_limit (owner s)) (TVal t v)"
proof -
  have t: "thief_ok (deque s) xs (pop_limit (owner s)) (TBuf t p)" using sim pc unfolding wsd_sim_def by metis
  then show ?thesis using assms(3) by auto
qed

lemma wsd_sim_steal_cas:
  assumes sim: "wsd_sim s xs" and pc: "thieves s i = TVal t v" and cas: "wsd_cas_top t (deque s) = (True, d)"
  obtains ys where "xs = v # ys" "wsd_sim (s\<lparr>deque := d, thieves := (thieves s)(i := TIdle)\<rparr>) ys"
proof -
  have top: "wtop (deque s) = t" and d: "d = (deque s)\<lparr>wtop := wtop (deque s) + 1\<rparr>"
    using cas by (auto simp: wsd_cas_top_def split: if_splits)
  have t: "thief_ok (deque s) xs (pop_limit (owner s)) (TVal t v)" using sim pc unfolding wsd_sim_def by metis
  with top obtain ys where xs: "xs = v # ys" by (cases xs) auto
  have th: "thief_ok d ys (pop_limit (owner s)) (thieves s j)" for j
    by (rule thief_ok_advance [where d = "deque s" and xs = xs])
      (use sim in \<open>auto simp: wsd_sim_def d\<close>)
  have "wsd_content d ys" using sim xs wsd_content_tl by (auto simp: wsd_sim_def d)
  moreover have "owner_ok d ys (owner s)"
  proof (cases "owner s")
    case (OPopGet b p)
    then show ?thesis using sim t top by (auto simp: wsd_sim_def d)
  qed (use sim xs top in \<open>auto simp: wsd_sim_def d\<close>)
  ultimately have "wsd_sim (s\<lparr>deque := d, thieves := (thieves s)(i := TIdle)\<rparr>) ys"
    using sim xs th by (auto simp: wsd_sim_def d)
  with xs that show thesis by blast
qed

subsection \<open>Refinement\<close>

lemma wsd_sim_tau:
  assumes sim: "wsd_sim s xs" and "wsd_step t0 s Tau t"
  shows "wsd_sim t xs"
  using assms(2)
proof cases
  case (push_load_top v)
  with sim show ?thesis by (simp add: wsd_sim_push_load_top)
next
  case (push_reserve v x a d)
  with sim show ?thesis by (simp add: wsd_sim_push_reserve)
next
  case (push_put v p d)
  with sim show ?thesis by (simp add: wsd_sim_push_put)
next
  case (pop_dec b)
  with sim show ?thesis by (simp add: wsd_sim_pop_dec)
next
  case (pop_many b p)
  then have "owner_ok (deque s) xs (OPopGet b p)" using sim by (simp add: wsd_sim_def)
  with pop_many show ?thesis using wsd_sim_owner_pc [OF sim, of "OPopGet b p"] by simp
next
  case (pop_one b p)
  then have "owner_ok (deque s) xs (OPopLast b p)" using sim by (auto simp: wsd_sim_def wsd_content_def)
  with pop_one show ?thesis using wsd_sim_owner_pc [OF sim, of "OPopLast b p"] by simp
next
  case (pop_last_get b p v)
  have "owner_ok (deque s) xs (OPopCas b v)"
  proof -
    from sim pop_last_get have o: "wsd_content (deque s) xs" "wbottom (deque s) = b" "p = wbuffer (deque s)"
        "b \<le> wtop (deque s)" "wtop (deque s) + int (length xs) = b + 1" by (auto simp: wsd_sim_def)
    have "xs = [v]" if "wtop (deque s) = b"
    proof -
      from that o(5) obtain x where "xs = [x]" by (auto simp: length_Suc_conv)
      with wsd_content_buffer [OF o(1), of 0] that pop_last_get o(3) show ?thesis by simp
    qed
    with o show ?thesis by simp
  qed
  with sim pop_last_get show ?thesis by (auto intro!: wsd_sim_owner_pc)
next
  case (pop_fix x)
  with sim show ?thesis by (simp add: wsd_sim_pop_fix)
next
  case (steal_top i)
  with sim show ?thesis by (auto intro!: wsd_sim_thief_pc simp: wsd_sim_def wsd_content_def)
next
  case (steal_bottom i x)
  show ?thesis unfolding steal_bottom(1)
    by (rule wsd_sim_thief_pc [OF sim wsd_sim_steal_bottom [OF sim steal_bottom(2,3)]])
next
  case (steal_empty i x)
  with sim show ?thesis by (simp add: wsd_sim_thief_pc)
next
  case (steal_buffer i x)
  show ?thesis unfolding steal_buffer(1)
    by (rule wsd_sim_thief_pc [OF sim wsd_sim_steal_buffer [OF sim steal_buffer(2)]])
next
  case (steal_get i x p v)
  show ?thesis unfolding steal_get(1)
    by (rule wsd_sim_thief_pc [OF sim wsd_sim_steal_get [OF sim steal_get(2,3)]])
next
  case (steal_lost i x v d)
  then have "t = s\<lparr>thieves := (thieves s)(i := TIdle)\<rparr>"
    by (simp add: wsd_cas_top_def split: if_splits)
  then show ?thesis using wsd_sim_thief_pc [OF sim, of TIdle i] by simp
qed

lemma wsd_sim_act:
  assumes sim: "wsd_sim s xs" and "wsd_step t0 s (Act e) t"
  shows "\<exists>ys. deque_step xs e ys \<and> wsd_sim t ys"
  using assms(2)
proof cases
  case (push_publish v)
  with wsd_sim_push_publish [OF sim] show ?thesis by (auto intro: deque_step.intros)
next
  case (pop_none b p)
  with sim have "wbottom (deque s) = b" "wtop (deque s) + int (length xs) = b + 1" by (auto simp: wsd_sim_def)
  with pop_none(4) have "length xs = 0" "wtop (deque s) = b + 1" by linarith+
  moreover have "wsd_sim t xs"
    unfolding pop_none(2) by (rule wsd_sim_owner_pc [OF sim])
      (use pop_none \<open>wbottom (deque s) = b\<close> calculation in auto)
  ultimately show ?thesis using pop_none(1) by (auto intro: deque_step.intros)
next
  case (pop_get b p v)
  from wsd_sim_pop_get [OF sim pop_get(3,4)] show ?thesis
    unfolding pop_get(1,2) by (metis deque_step.spec_pop)
next
  case (pop_cas b v ok d)
  with wsd_sim_pop_cas [OF sim pop_cas(3,4)] show ?thesis by blast
next
  case (steal_cas i x v d)
  from wsd_sim_steal_cas [OF sim steal_cas(3,4)] show ?thesis
    unfolding steal_cas(1,2) by (metis deque_step.spec_steal)
qed

interpretation wsd: lts_simulation "wsd_init t0" "wsd_step t0" wsd_sim "[]" deque_step
  by unfold_locales (auto intro: wsd_sim_init wsd_sim_tau wsd_sim_act)

subsection \<open>The deque between operations\<close>

definition quiet :: "'a wsd \<Rightarrow> 'a wsd_sys" where
  "quiet d = \<lparr>deque = d, owner = OIdle, thieves = (\<lambda>_. TIdle)\<rparr>"

definition wsd_repr :: "'a wsd \<Rightarrow> 'a list \<Rightarrow> bool" where
  "wsd_repr d xs \<longleftrightarrow> wtop d + int (length xs) = wbottom d \<and> wsd_content d xs \<and> bufs_ok d"

lemma wsd_repr_quiet: "wsd_repr d xs \<longleftrightarrow> wsd_sim (quiet d) xs"
  by (simp add: wsd_repr_def wsd_sim_def quiet_def)

lemma wsd_repr_new: "0 < capacity \<Longrightarrow> wsd_repr (wsd_new t0 a capacity) []"
  unfolding wsd_repr_quiet by (rule wsd_sim_init) (auto simp: wsd_init_def quiet_def)

lemma wsd_repr_bounds: "wsd_repr d xs \<Longrightarrow> 0 \<le> wtop d \<and> wtop d \<le> wbottom d"
  by (auto simp: wsd_repr_def wsd_content_def)

lemma wsd_repr_empty: "wsd_repr d xs \<Longrightarrow> wsd_empty d \<longleftrightarrow> xs = []"
  by (auto simp: wsd_repr_def wsd_empty_def wsd_size_def)

lemma wsd_reserve_total:
  assumes "wsd_content d xs" and "bufs_ok d" and "0 \<le> t" and "t \<le> wtop d"
    and "wbufs d (wbuffer d) = Some B" and "wbottom d - t \<le> cb_cap B"
  shows "\<exists>d'. wsd_reserve t0 a t d = Some d'"
proof -
  have ok: "cb_ok B" using assms(2,5) by (auto simp: bufs_ok_def)
  then have "wbottom d - t \<le> 2 * cb_cap B" using assms(6) by (simp add: cb_ok_def)
  from cb_grow_correct [OF ok assms(3) this, of t0] obtain B' where "cb_grow t0 B t (wbottom d) = Some B'"
    by blast
  then show ?thesis using assms(5) by (auto simp: wsd_reserve_def)
qed

lemma wsd_repr_push:
  assumes r: "wsd_repr d xs" and free: "wbufs d a = None"
  shows "\<exists>d'. wsd_push t0 a v d = Some d' \<and> wsd_repr d' (xs @ [v])"
proof -
  from r obtain B where c: "wsd_content d xs" "bufs_ok d" "wtop d + int (length xs) = wbottom d"
      "wbufs d (wbuffer d) = Some B" "wbottom d - wtop d \<le> cb_cap B" "0 \<le> wtop d"
    by (auto simp: wsd_repr_def wsd_content_def)
  obtain d1 where d1: "wsd_reserve t0 a (wtop d) d = Some d1"
    using wsd_reserve_total [OF c(1,2,6) order_refl c(4,5)] by blast
  from wsd_reserve_correct [OF c(1-3,6) order_refl c(4,5) free d1] obtain B1
    where c1: "wsd_content d1 xs" "bufs_ok d1" "wtop d1 + int (length xs) = wbottom d1"
      "wbufs d1 (wbuffer d1) = Some B1" "int (length xs) < cb_cap B1"
    using c(3) by auto
  have "cb_ok B1" "0 \<le> wbottom d1" using c1 by (auto simp: bufs_ok_def wsd_content_def)
  from cb_put_Some [OF this] obtain B2 where "cb_put (wbottom d1) v B1 = Some B2" by blast
  then obtain d2 where d2: "wsd_put (wbuffer d1) v d1 = Some d2"
    using c1(4) by (auto simp: wsd_put_def)
  from wsd_put_correct [OF c1 d2] c1 have "wsd_repr (d2\<lparr>wbottom := wbottom d2 + 1\<rparr>) (xs @ [v])"
    by (auto simp: wsd_repr_def wsd_content_def nth_append less_Suc_eq)
  with d1 d2 show ?thesis by (simp add: wsd_push_def)
qed

lemma wsd_repr_pop_Nil: "wsd_repr d [] \<Longrightarrow> wsd_pop d = Some (None, d)"
  by (simp add: wsd_repr_def wsd_pop_def Let_def)

lemma wsd_repr_pop_snoc:
  assumes r: "wsd_repr d (xs @ [x])"
  shows "\<exists>d'. wsd_pop d = Some (Some x, d') \<and> wsd_repr d' xs"
proof -
  from r have c: "wsd_content d (xs @ [x])" "bufs_ok d" "wtop d + int (length xs) = wbottom d - 1"
    by (auto simp: wsd_repr_def)
  have get: "wsd_get (wbuffer d) (wbottom d - 1) d = Some x"
    using wsd_content_buffer [OF c(1), of "length xs"] c(3) by simp
  show ?thesis
  proof (cases "xs = []")
    case True
    with c get wsd_content_tl [of d x "[]"] show ?thesis
      by (auto simp: wsd_pop_def Let_def wsd_cas_top_def wsd_repr_def wsd_content_def)
  next
    case False
    with c get wsd_content_butlast [OF c(1)] show ?thesis
      by (auto simp: wsd_pop_def Let_def wsd_repr_def wsd_content_def)
  qed
qed

lemma wsd_repr_steal_Nil: "wsd_repr d [] \<Longrightarrow> wsd_steal d = Some (None, d)"
  by (simp add: wsd_repr_def wsd_steal_def Let_def)

lemma wsd_repr_steal_Cons:
  assumes r: "wsd_repr d (x # xs)"
  shows "\<exists>d'. wsd_steal d = Some (Some x, d') \<and> wsd_repr d' xs"
proof -
  from r have c: "wsd_content d (x # xs)" "bufs_ok d" "wtop d + 1 + int (length xs) = wbottom d"
    by (auto simp: wsd_repr_def)
  with wsd_content_buffer [OF c(1), of 0] wsd_content_tl [OF c(1)] show ?thesis
    by (auto simp: wsd_steal_def Let_def wsd_cas_top_def wsd_repr_def)
qed

interpretation wsd_deque: work_deque wsd_repr "\<lambda>d a. wbufs d a = None" "wsd_push t0" wsd_pop wsd_steal
  by unfold_locales
    (auto intro: wsd_repr_push wsd_repr_pop_Nil wsd_repr_pop_snoc wsd_repr_steal_Nil wsd_repr_steal_Cons)

lemma free_all_all: "distinct as \<Longrightarrow> dom h = set as \<Longrightarrow> free_all as h = Some Map.empty"
proof (induction as arbitrary: h)
  case (Cons a as)
  from Cons.prems have "dom (h(a := None)) = set as" by (simp add: Diff_insert_absorb)
  moreover have "distinct as" "h a \<noteq> None" using Cons.prems by auto
  ultimately show ?case unfolding free_all.simps by (simp only: Cons.IH if_False)
qed simp

subsection \<open>Properties\<close>

text \<open>
  C2. Linearisability: in every interleaving of the owner with any number of thieves the completed pushes,
  pops and steals, in the order of their linearisation points, are a run of an abstract deque: a pop
  takes the youngest element and answers \<open>nullopt\<close> only when the deque is empty, a steal takes the oldest.
\<close>

theorem wsd_linearisable:
  assumes "wsd_init t0 s" and "trace (wsd_step t0) s es t"
  shows "\<exists>xs. spec_trace deque_step [] es xs \<and>
           (owner t = OIdle \<longrightarrow> wsd_size (deque t) = int (length xs))"
proof -
  from wsd.init_trace [OF assms] obtain xs where "spec_trace deque_step [] es xs" "wsd_sim t xs" by blast
  then show ?thesis by (auto simp: wsd_sim_def wsd_size_def)
qed

text \<open>A run in which the owner starts a push, used by the witnesses.\<close>

definition one_load :: "nat wsd_sys" where
  "one_load = (quiet (wsd_new 0 4 1))\<lparr>owner := OPushT 7 0\<rparr>"

lemma one_load_run:
  "wsd_init 0 (quiet (wsd_new (0::nat) 4 1))"
  "trace (wsd_step 0) (quiet (wsd_new 0 4 1)) [] one_load"
proof -
  show "wsd_init 0 (quiet (wsd_new (0::nat) 4 1))"
    unfolding wsd_init_def quiet_def by (auto intro!: exI [of _ 4] exI [of _ "1::int"])
  have "wsd_step 0 (quiet (wsd_new 0 4 1)) Tau one_load"
    using wsd_step.push_load_top [of "quiet (wsd_new 0 4 1)" 0 7]
    by (simp add: one_load_def quiet_def wsd_new_def)
  with trace_refl show "trace (wsd_step 0) (quiet (wsd_new 0 4 1)) [] one_load" by (rule trace_tau)
qed

definition one_room :: "nat wsd_sys" where
  "one_room = (quiet (wsd_new 0 4 1))\<lparr>owner := OPushP 7 4\<rparr>"

definition one_put :: "nat wsd_sys" where
  "one_put = (quiet ((wsd_new 0 4 1)\<lparr>wbufs := [4 \<mapsto> \<lparr>cb_cap = 1, cb_data = [7]\<rparr>]\<rparr>))\<lparr>owner := OPushed 7\<rparr>"

definition one_pushed :: "nat wsd_sys" where
  "one_pushed = quiet ((wsd_new 0 4 1)\<lparr>wbufs := [4 \<mapsto> \<lparr>cb_cap = 1, cb_data = [7]\<rparr>], wbottom := 1\<rparr>)"

lemmas one_push_defs = one_load_def one_room_def one_put_def one_pushed_def quiet_def wsd_new_def cb_new_def

lemma one_push_published_run:
  "trace (wsd_step 0) (quiet (wsd_new 0 4 1)) [] one_room"
  "trace (wsd_step 0) (quiet (wsd_new 0 4 1)) [Push 7] one_pushed"
proof -
  have "wsd_step 0 one_load Tau one_room"
    using wsd_step.push_reserve [of one_load 7 0 9 0 "deque one_load"] by (simp add: one_push_defs wsd_reserve_def)
  with one_load_run(2) show room: "trace (wsd_step 0) (quiet (wsd_new 0 4 1)) [] one_room" by (rule trace_tau)
  have "wsd_step 0 one_room Tau one_put"
    using wsd_step.push_put [of one_room 7 4 "deque one_put" 0] by (simp add: one_push_defs wsd_put_def cb_put_def cb_slot_def)
  with room have put: "trace (wsd_step 0) (quiet (wsd_new 0 4 1)) [] one_put" by (rule trace_tau)
  have "wsd_step 0 one_put (Act (Push 7)) one_pushed"
    using wsd_step.push_publish [of one_put 7 0] by (simp add: one_push_defs)
  from trace_act [OF put this] show "trace (wsd_step 0) (quiet (wsd_new 0 4 1)) [Push 7] one_pushed" by simp
qed

theorem wsd_linearisable_witness:
  "\<exists>xs. spec_trace deque_step [] [Push (7 :: nat)] xs \<and> wsd_size (deque one_pushed) = int (length xs)"
  using wsd_linearisable [OF one_load_run(1) one_push_published_run(2)] by (simp add: one_pushed_def quiet_def)

text \<open>
  No element is lost and none is handed out twice: after any interleaving the pushed elements are, as a
  multiset, exactly the elements returned by the pops and steals together with those still in the deque.
\<close>

lemma wsd_conserves_elements:
  assumes "wsd_init t0 s" and "trace (wsd_step t0) s es t"
  shows "\<exists>xs. wsd_sim t xs \<and>
           mset (concat (map put_in es)) = mset (concat (map taken_out es)) + mset xs"
proof -
  from wsd.init_trace [OF assms] obtain xs where "spec_trace deque_step [] es xs" "wsd_sim t xs" by blast
  with deque_conserves [of "[]" es xs] show ?thesis by auto
qed

text \<open>
  C16. Memory safety: in every reachable state the next access of the owner and of every thief is defined.
  The pointer a thief holds, also one to a buffer that has been replaced, is still allocated, and every
  index an operation reads or writes, the copy loop of a growth included, is within the array of its buffer. When the slot of a push is
  about to be written, the buffer has a slot more than the elements from top to bottom, so that none is overwritten.
\<close>

theorem wsd_memory_safe:
  assumes "reachable (wsd_init t0) (wsd_step t0) s"
  shows "(\<forall>v t a. owner s = OPushT v t \<longrightarrow> wsd_reserve t0 a t (deque s) \<noteq> None) \<and>
         (\<forall>v p. owner s = OPushP v p \<longrightarrow> wsd_put p v (deque s) \<noteq> None \<and>
            (\<exists>B. wbufs (deque s) p = Some B \<and> wbottom (deque s) - wtop (deque s) < int (length (cb_data B)))) \<and>
         (\<forall>b p. owner s = OPopGet b p \<or> owner s = OPopLast b p \<longrightarrow> wsd_get p b (deque s) \<noteq> None) \<and>
         (\<forall>i t p. thieves s i = TBuf t p \<longrightarrow> wsd_get p t (deque s) \<noteq> None)"
proof -
  from assms obtain xs where sim: "wsd_sim s xs" by (rule wsd.reachable_sim)
  then have c: "wsd_content (deque s) xs" "bufs_ok (deque s)" by (auto simp: wsd_sim_def)
  then obtain B where B: "wbufs (deque s) (wbuffer (deque s)) = Some B" "cb_ok B" "0 \<le> wtop (deque s)"
    by (auto simp: wsd_content_def bufs_ok_def)
  have "wsd_reserve t0 a t (deque s) \<noteq> None" if "owner s = OPushT v t" for v t a
  proof -
    from sim that B(1) have "0 \<le> t" "t \<le> wtop (deque s)" "wbottom (deque s) - t \<le> cb_cap B"
      by (auto simp: wsd_sim_def)
    from wsd_reserve_total [OF c this(1,2) B(1) this(3)] show ?thesis by auto
  qed
  moreover have "wsd_put p v (deque s) \<noteq> None \<and>
      (\<exists>B. wbufs (deque s) p = Some B \<and> wbottom (deque s) - wtop (deque s) < int (length (cb_data B)))" if "owner s = OPushP v p" for v p
  proof -
    from sim that B have room: "wbottom (deque s) - wtop (deque s) < int (length (cb_data B))" by (auto simp: wsd_sim_def cb_ok_def)
    from sim that B(3) have "p = wbuffer (deque s)" "0 \<le> wbottom (deque s)" by (auto simp: wsd_sim_def)
    moreover from this cb_put_Some [OF B(2)] obtain B' where "cb_put (wbottom (deque s)) v B = Some B'" by blast
    ultimately show ?thesis using B(1) room by (auto simp: wsd_put_def)
  qed
  moreover have "wsd_get p b (deque s) \<noteq> None" if "owner s = OPopGet b p \<or> owner s = OPopLast b p" for b p
  proof -
    have "p = wbuffer (deque s)" "0 \<le> b" using sim that B(3) by (auto simp: wsd_sim_def)
    with B cb_get_Some [OF B(2)] show ?thesis by (auto simp: wsd_get_def)
  qed
  moreover have "wsd_get p t (deque s) \<noteq> None" if "thieves s i = TBuf t p" for i t p
  proof -
    have "thief_ok (deque s) xs (pop_limit (owner s)) (TBuf t p)"
      using sim that unfolding wsd_sim_def by metis
    then obtain B' where "wbufs (deque s) p = Some B'" "0 \<le> t" by auto
    moreover from this c(2) have "cb_ok B'" by (auto simp: bufs_ok_def)
    ultimately show ?thesis by (simp add: wsd_get_def cb_get_Some)
  qed
  ultimately show ?thesis by blast
qed

theorem wsd_memory_safe_witness:
  "wsd_put 4 7 (deque one_room) \<noteq> None \<and>
   (\<exists>B. wbufs (deque one_room) 4 = Some B \<and> wbottom (deque one_room) - wtop (deque one_room) < int (length (cb_data B)))"
proof -
  have "reachable (wsd_init 0) (wsd_step 0) one_room"
    using one_load_run one_push_published_run(1) by (blast intro: trace_reachable reach_init)
  from wsd_memory_safe [OF this] show ?thesis by (simp add: one_room_def)
qed

text \<open>
  The destructor frees the current buffer and every buffer kept in \<open>old_buffers_\<close> exactly once and
  leaves none allocated, in every reachable state: growing neither leaks nor double-frees.
\<close>

lemma wsd_destroy_frees_all:
  assumes "reachable (wsd_init t0) (wsd_step t0) s"
  shows "wsd_destroy (deque s) = Some Map.empty"
proof -
  from assms obtain xs where "wsd_sim s xs" by (rule wsd.reachable_sim)
  then show ?thesis
    unfolding wsd_destroy_def by (intro free_all_all) (auto simp: wsd_sim_def bufs_ok_def)
qed

end
