(* ===== verification/Future_Promise.thy ===== *)
theory Future_Promise
  imports Forge_Prelude
begin

section \<open>Futures and promises (src/src/core/future.h)\<close>

text \<open>
  The shared state of a promise and its future. The continuation slot holds null, a pointer to a heap
  allocated callback, or the sentinel. \<open>conts\<close> is the set of the allocated callbacks: using or deleting
  a pointer that is not in it is undefined behaviour, and no rule of the step relation or branch of an
  operation allows it, so the safety theorem states that the access is always possible.

  The header's preconditions are part of the model: one thread satisfies the promise, once, with a value
  or an exception (the assertions of \<open>set_value\<close> and \<open>set_exception\<close>), and one thread registers a
  continuation, once. Every atomic access is one step. The
  instance for \<open>void\<close> is the same protocol at the type \<open>unit\<close>.
\<close>

subsection \<open>The shared state\<close>

datatype slot = Null | Cont addr | Sentinel

definition is_sentinel :: "slot \<Rightarrow> bool" where
  "is_sentinel p \<longleftrightarrow> p = Sentinel"

record 'v shared_state =
  value_storage :: "'v option"
  ss_exception :: "exn option"
  ss_ready :: bool
  ss_continuation :: slot
  conts :: "addr set"

definition ss_new :: "'v shared_state" where
  "ss_new = \<lparr>value_storage = None, ss_exception = None, ss_ready = False, ss_continuation = Null, conts = {}\<rparr>"

text \<open>
  The destructor deletes a continuation that was never picked up (the destructor of the value is left out). The result is the callbacks that stay
  allocated; \<open>None\<close> is a double delete.
\<close>

definition ss_destroy :: "'v shared_state \<Rightarrow> addr set option" where
  "ss_destroy s =
     (case ss_continuation s of
        Cont c \<Rightarrow> (if c \<in> conts s then Some (conts s - {c}) else None)
      | _ \<Rightarrow> Some (conts s))"

subsection \<open>Operations run without interruption\<close>

text \<open>
  The list in the result is the values a callback was invoked with.
\<close>

definition ss_exchange :: "slot \<Rightarrow> 'v shared_state \<Rightarrow> slot \<times> 'v shared_state" where
  "ss_exchange n s = (ss_continuation s, s\<lparr>ss_continuation := n\<rparr>)"

definition set_value :: "'v \<Rightarrow> 'v shared_state \<Rightarrow> 'v list \<times> 'v shared_state" where
  "set_value v s =
     (let s1 = s\<lparr>value_storage := Some v, ss_ready := True\<rparr>;
          (prev, s2) = ss_exchange Sentinel s1
      in case prev of
           Cont c \<Rightarrow> ([v], s2\<lparr>conts := conts s2 - {c}\<rparr>)
         | _ \<Rightarrow> ([], s2))"

definition set_exception :: "exn \<Rightarrow> 'v shared_state \<Rightarrow> 'v list \<times> 'v shared_state" where
  "set_exception e s =
     (let s1 = s\<lparr>ss_exception := Some e, ss_ready := True\<rparr>;
          (prev, s2) = ss_exchange Sentinel s1
      in case prev of
           Cont c \<Rightarrow> ([], s2\<lparr>conts := conts s2 - {c}\<rparr>)
         | _ \<Rightarrow> ([], s2))"

definition then_do :: "addr \<Rightarrow> 'v shared_state \<Rightarrow> 'v list \<times> 'v shared_state" where
  "then_do c s =
     (let (prev, s1) = ss_exchange (Cont c) (s\<lparr>conts := insert c (conts s)\<rparr>)
      in if is_sentinel prev then
           ((case ss_exception s1 of
               Some e \<Rightarrow> []
             | None \<Rightarrow> (case value_storage s1 of Some v \<Rightarrow> [v] | None \<Rightarrow> [])),
            s1\<lparr>conts := conts s1 - {c}, ss_continuation := Sentinel\<rparr>)
         else ([], s1))"

text \<open>What \<open>get\<close> returns or rethrows once the flag is set; \<open>None\<close> is "not ready yet".\<close>

definition poll :: "'v shared_state \<Rightarrow> (exn + 'v) option" where
  "poll s =
     (if \<not> ss_ready s then None
      else case ss_exception s of
             Some e \<Rightarrow> Some (Inl e)
           | None \<Rightarrow> map_option Inr (value_storage s))"

text \<open>
  The loop of \<open>wait_for\<close>, over the sequence of what its iterations observe: the shared state at the load
  of the flag and the clock read afterwards. \<open>Some None\<close> is the timeout, \<open>None\<close> means that the loop has
  not left after these iterations.
\<close>

fun wait_for :: "int \<Rightarrow> ('v shared_state \<times> int) list \<Rightarrow> (exn + 'v) option option" where
  "wait_for deadline [] = None"
| "wait_for deadline ((s, now) # obs) =
     (if ss_ready s then Some (poll s)
      else if now \<ge> deadline then Some None
      else wait_for deadline obs)"

text \<open>The loop of \<open>get\<close>, over the shared states that its loads of the flag observe.\<close>

fun fut_get :: "'v shared_state list \<Rightarrow> (exn + 'v) option" where
  "fut_get [] = None"
| "fut_get (s # obs) = (if ss_ready s then poll s else fut_get obs)"

text \<open>A future is a handle on a shared state, or empty.\<close>

definition fut_valid :: "'v shared_state option \<Rightarrow> bool" where
  "fut_valid st \<longleftrightarrow> st \<noteq> None"

definition fut_ready :: "'v shared_state option \<Rightarrow> bool" where
  "fut_ready st \<longleftrightarrow> (case st of None \<Rightarrow> False | Some s \<Rightarrow> ss_ready s)"

text \<open>The instances for \<open>void\<close>: there is no value to store, and \<open>wait_for\<close> answers whether it is ready.\<close>

definition ss_destroy_void :: "unit shared_state \<Rightarrow> addr set option" where
  "ss_destroy_void s = ss_destroy s"

definition set_value_void :: "unit shared_state \<Rightarrow> unit list \<times> unit shared_state" where
  "set_value_void s = set_value () s"

definition set_exception_void :: "exn \<Rightarrow> unit shared_state \<Rightarrow> unit list \<times> unit shared_state" where
  "set_exception_void e s = set_exception e s"

definition then_void :: "addr \<Rightarrow> unit shared_state \<Rightarrow> unit list \<times> unit shared_state" where
  "then_void c s = then_do c s"

definition get_void :: "unit shared_state list \<Rightarrow> (exn + unit) option" where
  "get_void obs = fut_get obs"

definition wait_for_void :: "int \<Rightarrow> (unit shared_state \<times> int) list \<Rightarrow> (exn + bool) option" where
  "wait_for_void deadline obs =
     map_option (\<lambda>r. case r of None \<Rightarrow> Inr False | Some (Inl e) \<Rightarrow> Inl e | Some (Inr u) \<Rightarrow> Inr True)
       (wait_for deadline obs)"

text \<open>What an iteration of a waiting loop does: a pool thread runs a task instead of sleeping.\<close>

datatype pause = Ran_task | Spin | Yield | Sleep_us nat

definition backoff :: "bool option \<Rightarrow> nat \<Rightarrow> pause" where
  "backoff yield_fn iter =
     (if yield_fn = Some True then Ran_task
      else if iter < 4 then Spin
      else if iter < 16 then Yield
      else if iter < 64 then Sleep_us 1
      else Sleep_us 100)"

subsection \<open>Concurrent executions\<close>

datatype setter_pc = SIdle | SStored | SReady | SHave addr | SDel addr | SDone
datatype then_pc = NIdle | NHave addr | NDel addr | NStore | NDone

record 'v fut_sys =
  shared :: "'v shared_state"
  setter :: setter_pc
  thener :: then_pc

datatype 'v fut_event = Set "exn + 'v" | Fired 'v

definition fut_init :: "'v fut_sys \<Rightarrow> bool" where
  "fut_init s \<longleftrightarrow> s = \<lparr>shared = ss_new, setter = SIdle, thener = NIdle\<rparr>"

inductive fut_step :: "'v fut_sys \<Rightarrow> 'v fut_event label \<Rightarrow> 'v fut_sys \<Rightarrow> bool" where
  store_value: "setter s = SIdle \<Longrightarrow>
     fut_step s (Act (Set (Inr v))) (s\<lparr>shared := (shared s)\<lparr>value_storage := Some v\<rparr>, setter := SStored\<rparr>)"
| store_exception: "setter s = SIdle \<Longrightarrow>
     fut_step s (Act (Set (Inl e))) (s\<lparr>shared := (shared s)\<lparr>ss_exception := Some e\<rparr>, setter := SStored\<rparr>)"
| store_ready: "setter s = SStored \<Longrightarrow>
     fut_step s Tau (s\<lparr>shared := (shared s)\<lparr>ss_ready := True\<rparr>, setter := SReady\<rparr>)"
| set_exchange: "setter s = SReady \<Longrightarrow> ss_exchange Sentinel (shared s) = (prev, s') \<Longrightarrow>
     fut_step s Tau
       (s\<lparr>shared := s', setter := (case prev of Cont c \<Rightarrow> SHave c | _ \<Rightarrow> SDone)\<rparr>)"
| set_invoke: "setter s = SHave c \<Longrightarrow> c \<in> conts (shared s) \<Longrightarrow> ss_exception (shared s) = None \<Longrightarrow>
     value_storage (shared s) = Some v \<Longrightarrow>
     fut_step s (Act (Fired v)) (s\<lparr>setter := SDel c\<rparr>)"
| set_skip: "setter s = SHave c \<Longrightarrow> ss_exception (shared s) = Some e \<Longrightarrow>
     fut_step s Tau (s\<lparr>setter := SDel c\<rparr>)"
| set_delete: "setter s = SDel c \<Longrightarrow> c \<in> conts (shared s) \<Longrightarrow>
     fut_step s Tau (s\<lparr>shared := (shared s)\<lparr>conts := conts (shared s) - {c}\<rparr>, setter := SDone\<rparr>)"
| then_exchange: "thener s = NIdle \<Longrightarrow> c \<notin> conts (shared s) \<Longrightarrow>
     ss_exchange (Cont c) ((shared s)\<lparr>conts := insert c (conts (shared s))\<rparr>) = (prev, s') \<Longrightarrow>
     fut_step s Tau (s\<lparr>shared := s', thener := (if is_sentinel prev then NHave c else NDone)\<rparr>)"
| then_invoke: "thener s = NHave c \<Longrightarrow> c \<in> conts (shared s) \<Longrightarrow> ss_exception (shared s) = None \<Longrightarrow>
     value_storage (shared s) = Some v \<Longrightarrow>
     fut_step s (Act (Fired v)) (s\<lparr>thener := NDel c\<rparr>)"
| then_skip: "thener s = NHave c \<Longrightarrow> ss_exception (shared s) = Some e \<Longrightarrow>
     fut_step s Tau (s\<lparr>thener := NDel c\<rparr>)"
| then_delete: "thener s = NDel c \<Longrightarrow> c \<in> conts (shared s) \<Longrightarrow>
     fut_step s Tau (s\<lparr>shared := (shared s)\<lparr>conts := conts (shared s) - {c}\<rparr>, thener := NStore\<rparr>)"
| then_store: "thener s = NStore \<Longrightarrow>
     fut_step s Tau (s\<lparr>shared := (shared s)\<lparr>ss_continuation := Sentinel\<rparr>, thener := NDone\<rparr>)"

subsection \<open>The abstract promise\<close>

text \<open>The result, once set, and the values the callback was invoked with.\<close>

inductive promise_step :: "(exn + 'v) option \<times> bool \<Rightarrow> 'v fut_event \<Rightarrow> (exn + 'v) option \<times> bool \<Rightarrow> bool" where
  spec_set: "promise_step (None, False) (Set r) (Some r, False)"
| spec_fire: "promise_step (Some (Inr v), False) (Fired v) (Some (Inr v), True)"

fun fired :: "'v fut_event \<Rightarrow> 'v list" where
  "fired (Fired v) = [v]"
| "fired (Set r) = []"

fun sets :: "'v fut_event \<Rightarrow> (exn + 'v) list" where
  "sets (Set r) = [r]"
| "sets (Fired v) = []"

lemma promise_trace:
  fixes es :: "'v fut_event list"
  shows "spec_trace promise_step (None, False) es (r, f) \<Longrightarrow>
   concat (map sets es) = (case r of None \<Rightarrow> [] | Some x \<Rightarrow> [x]) \<and>
   concat (map fired es) = (if f then (case r of Some (Inr v) \<Rightarrow> [v] | _ \<Rightarrow> []) else [])"
proof (induction "(None, False) :: (exn + 'v) option \<times> bool" es "(r, f)" arbitrary: r f rule: spec_trace.induct)
  case (spec_act es b e)
  from spec_act.hyps(3) spec_act.hyps(2) show ?case by cases (auto split: if_splits)
qed simp

subsection \<open>The simulation relation\<close>

definition result_ok :: "'v fut_sys \<Rightarrow> (exn + 'v) option \<Rightarrow> bool" where
  "result_ok s r \<longleftrightarrow>
     (setter s = SIdle \<longleftrightarrow> r = None) \<and>
     (ss_ready (shared s) \<longleftrightarrow> setter s \<noteq> SIdle \<and> setter s \<noteq> SStored) \<and>
     (case r of
        None \<Rightarrow> value_storage (shared s) = None \<and> ss_exception (shared s) = None
      | Some (Inr v) \<Rightarrow> value_storage (shared s) = Some v \<and> ss_exception (shared s) = None
      | Some (Inl e) \<Rightarrow> ss_exception (shared s) = Some e)"

definition before_exchange :: "setter_pc \<Rightarrow> bool" where
  "before_exchange pc \<longleftrightarrow> pc = SIdle \<or> pc = SStored \<or> pc = SReady"

definition is_value :: "(exn + 'v) option \<Rightarrow> bool" where
  "is_value r \<longleftrightarrow> (\<exists>v. r = Some (Inr v))"

fun protocol_ok :: "slot \<Rightarrow> addr set \<Rightarrow> bool \<Rightarrow> bool \<Rightarrow> setter_pc \<Rightarrow> then_pc \<Rightarrow> bool" where
  "protocol_ok sl C isv f pc NIdle \<longleftrightarrow> C = {} \<and> \<not> f \<and>
     (before_exchange pc \<and> sl = Null \<or> pc = SDone \<and> sl = Sentinel)"
| "protocol_ok sl C isv f pc NDone \<longleftrightarrow>
     (before_exchange pc \<and> (\<exists>c. sl = Cont c \<and> C = {c}) \<and> \<not> f) \<or>
     (sl = Sentinel \<and>
        ((\<exists>c. pc = SHave c \<and> C = {c} \<and> \<not> f) \<or> (\<exists>c. pc = SDel c \<and> C = {c} \<and> f = isv) \<or>
         (pc = SDone \<and> C = {} \<and> f = isv)))"
| "protocol_ok sl C isv f pc (NHave c) \<longleftrightarrow> pc = SDone \<and> sl = Cont c \<and> C = {c} \<and> \<not> f"
| "protocol_ok sl C isv f pc (NDel c) \<longleftrightarrow> pc = SDone \<and> sl = Cont c \<and> C = {c} \<and> f = isv"
| "protocol_ok sl C isv f pc NStore \<longleftrightarrow> pc = SDone \<and> C = {} \<and> f = isv"

definition fut_sim :: "'v fut_sys \<Rightarrow> (exn + 'v) option \<times> bool \<Rightarrow> bool" where
  "fut_sim s a \<longleftrightarrow> result_ok s (fst a) \<and>
     protocol_ok (ss_continuation (shared s)) (conts (shared s)) (is_value (fst a)) (snd a) (setter s) (thener s)"

lemmas fut_sim_defs = fut_sim_def result_ok_def before_exchange_def is_value_def

lemma fut_sim_init: "fut_init s \<Longrightarrow> fut_sim s (None, False)"
  by (simp add: fut_init_def ss_new_def fut_sim_defs)

lemma result_ok_frame:
  assumes "result_ok s r" and "value_storage (shared t) = value_storage (shared s)"
    and "ss_exception (shared t) = ss_exception (shared s)"
    and "setter t = SIdle \<longleftrightarrow> setter s = SIdle"
    and "ss_ready (shared t) \<longleftrightarrow> setter t \<noteq> SIdle \<and> setter t \<noteq> SStored"
  shows "result_ok t r"
  using assms by (auto simp: result_ok_def split: option.splits sum.splits)

lemma result_ok_exception: "result_ok s r \<Longrightarrow> ss_exception (shared s) = Some e \<Longrightarrow> \<not> is_value r"
  by (auto simp: result_ok_def is_value_def)

lemma result_ok_value:
  "result_ok s r \<Longrightarrow> ss_exception (shared s) = None \<Longrightarrow> value_storage (shared s) = Some v \<Longrightarrow> r = Some (Inr v)"
  by (auto simp: result_ok_def split: option.splits sum.splits)

lemma protocol_exchange:
  assumes "protocol_ok sl C isv f SReady n"
  shows "protocol_ok Sentinel C isv f (case sl of Cont c \<Rightarrow> SHave c | _ \<Rightarrow> SDone) n"
  using assms by (cases n) (auto simp: before_exchange_def)

lemma protocol_register:
  assumes "protocol_ok sl C isv f pc NIdle"
  shows "protocol_ok (Cont c) (insert c C) isv f pc (if is_sentinel sl then NHave c else NDone)"
  using assms by (auto simp: before_exchange_def is_sentinel_def)

lemma fut_sim_tau:
  assumes "fut_sim s a" and "fut_step s Tau t"
  shows "fut_sim t a"
proof (cases a)
  case (Pair r f)
  with assms(1) have r: "result_ok s r"
    and p: "protocol_ok (ss_continuation (shared s)) (conts (shared s)) (is_value r) f (setter s) (thener s)"
    by (auto simp: fut_sim_def)
  have ready: "ss_ready (shared s) \<longleftrightarrow> setter s \<noteq> SIdle \<and> setter s \<noteq> SStored"
    using r by (simp add: result_ok_def)
  from assms(2) have "result_ok t r \<and>
      protocol_ok (ss_continuation (shared t)) (conts (shared t)) (is_value r) f (setter t) (thener t)"
  proof cases
    case store_ready
    with p show ?thesis
      by (intro conjI result_ok_frame [OF r]) (cases "thener s"; auto simp: before_exchange_def)+
  next
    case (set_exchange prev s')
    with protocol_exchange [OF p [unfolded set_exchange(2)]] ready show ?thesis
      by (intro conjI result_ok_frame [OF r]) (auto simp: ss_exchange_def split: slot.splits)
  next
    case (set_skip c e)
    with p result_ok_exception [OF r] ready show ?thesis
      by (intro conjI result_ok_frame [OF r]) (cases "thener s"; auto simp: before_exchange_def)+
  next
    case (set_delete c)
    with p ready show ?thesis
      by (intro conjI result_ok_frame [OF r]) (cases "thener s"; auto simp: before_exchange_def)+
  next
    case (then_exchange c prev s')
    with protocol_register [OF p [unfolded then_exchange(2)], of c] ready show ?thesis
      by (intro conjI result_ok_frame [OF r]) (auto simp: ss_exchange_def)
  next
    case (then_skip c e)
    with p result_ok_exception [OF r] ready show ?thesis
      by (intro conjI result_ok_frame [OF r]) auto
  next
    case (then_delete c)
    with p ready show ?thesis by (intro conjI result_ok_frame [OF r]) auto
  next
    case then_store
    with p ready show ?thesis by (intro conjI result_ok_frame [OF r]) auto
  qed
  with Pair show ?thesis by (simp add: fut_sim_def)
qed

lemma fut_sim_set:
  assumes "fut_sim s (r, f)" and "setter s = SIdle"
  shows "r = None \<and> \<not> f \<and> value_storage (shared s) = None \<and> ss_exception (shared s) = None"
  using assms by (cases "thener s") (auto simp: fut_sim_defs)

lemma fut_sim_act:
  assumes "fut_sim s a" and "fut_step s (Act e) t"
  shows "\<exists>b. promise_step a e b \<and> fut_sim t b"
proof (cases a)
  case (Pair r f)
  with assms(1) have r: "result_ok s r"
    and p: "protocol_ok (ss_continuation (shared s)) (conts (shared s)) (is_value r) f (setter s) (thener s)"
    by (auto simp: fut_sim_def)
  from assms(2) show ?thesis
  proof cases
    case (store_value v)
    with fut_sim_set assms(1) Pair have n: "r = None" "\<not> f" "ss_exception (shared s) = None" by blast+
    with p r store_value have "fut_sim t (Some (Inr v), False)"
      by (cases "thener s") (auto simp: fut_sim_defs)
    with n Pair store_value(1) show ?thesis by (auto intro: spec_set)
  next
    case (store_exception x)
    with fut_sim_set assms(1) Pair have n: "r = None" "\<not> f" by blast+
    with p r store_exception have "fut_sim t (Some (Inl x), False)"
      by (cases "thener s") (auto simp: fut_sim_defs)
    with n Pair store_exception(1) show ?thesis by (auto intro: spec_set)
  next
    case (set_invoke c v)
    then have rv: "r = Some (Inr v)" using result_ok_value [OF r] by blast
    have nf: "\<not> f" using p set_invoke(3) by (cases "thener s") (auto simp: before_exchange_def)
    have "result_ok t r" using set_invoke r by (intro result_ok_frame [OF r]) (auto simp: result_ok_def)
    then have "fut_sim t (r, True)"
      using p set_invoke rv by (cases "thener s") (auto simp: fut_sim_def before_exchange_def is_value_def)
    with rv nf Pair set_invoke(1) show ?thesis by (auto intro: spec_fire)
  next
    case (then_invoke c v)
    then have rv: "r = Some (Inr v)" using result_ok_value [OF r] by blast
    have nf: "\<not> f" using p then_invoke(3) by auto
    have "result_ok t r" using then_invoke r by (intro result_ok_frame [OF r]) (auto simp: result_ok_def)
    then have "fut_sim t (r, True)" using p then_invoke rv by (auto simp: fut_sim_def is_value_def)
    with rv nf Pair then_invoke(1) show ?thesis by (auto intro: spec_fire)
  qed
qed

interpretation fut: lts_simulation fut_init fut_step fut_sim "(None, False)" promise_step
  by unfold_locales (rule fut_sim_init fut_sim_tau fut_sim_act, assumption+)+

subsection \<open>Properties\<close>

text \<open>
  C4. A continuation fires exactly once. Whatever the interleaving of the thread that satisfies the promise
  with the thread that registers the continuation, when both are done the promise was satisfied once, the
  callback was invoked exactly once with that value (never, if the result is an exception), the callback
  object has been deleted and a poll of the future gives the result.
\<close>

theorem continuation_fires_exactly_once:
  assumes "fut_init s" and "trace fut_step s es t" and "setter t = SDone" and "thener t = NDone"
  shows "\<exists>r. concat (map sets es) = [r] \<and> poll (shared t) = Some r \<and> conts (shared t) = {} \<and>
           concat (map fired es) = (case r of Inr v \<Rightarrow> [v] | Inl e \<Rightarrow> [])"
proof -
  from fut.init_trace [OF assms(1,2)] obtain r f
    where tr: "spec_trace promise_step (None, False) es (r, f)" and sim: "fut_sim t (r, f)" by fastforce
  from sim assms(3,4) have *: "r \<noteq> None" "ss_ready (shared t)" "conts (shared t) = {}" "f = is_value r" "result_ok t r"
    by (auto simp: fut_sim_def result_ok_def before_exchange_def)
  then obtain x where x: "r = Some x" by blast
  then have "poll (shared t) = Some x"
    using * by (auto simp: poll_def result_ok_def split: sum.splits)
  with * x promise_trace [OF tr] show ?thesis
    by (auto simp: is_value_def split: sum.splits)
qed

text \<open>
  At every moment of every execution the continuation has been invoked at most once and only with
  the value the promise was satisfied with.
\<close>

lemma continuation_fires_at_most_once:
  assumes "fut_init s" and "trace fut_step s es t"
  shows "concat (map fired es) = [] \<or> (\<exists>v. concat (map fired es) = [v] \<and> concat (map sets es) = [Inr v])"
proof -
  from fut.init_trace [OF assms] obtain r f
    where tr: "spec_trace promise_step (None, False) es (r, f)" by fastforce
  from promise_trace [OF tr] show ?thesis by (auto split: option.splits sum.splits if_splits)
qed

text \<open>
  C17. Memory safety and progress: in every reachable state the callback that the next action of either
  thread uses is allocated and the value or exception it needs is there, and whenever neither thread is
  inside an operation the destructor of the shared state frees the callback that is left, once.
\<close>

theorem future_memory_safe:
  assumes "reachable fut_init fut_step s"
  shows "(\<forall>c. setter s = SHave c \<or> setter s = SDel c \<longrightarrow> c \<in> conts (shared s)) \<and>
         (\<forall>c. thener s = NHave c \<or> thener s = NDel c \<longrightarrow> c \<in> conts (shared s)) \<and>
         ((\<exists>c. setter s = SHave c \<or> thener s = NHave c) \<longrightarrow> poll (shared s) \<noteq> None) \<and>
         (setter s \<in> {SIdle, SDone} \<and> thener s \<in> {NIdle, NDone} \<longrightarrow> ss_destroy (shared s) = Some {})"
proof -
  from assms obtain a where "fut_sim s a" by (rule fut.reachable_sim)
  then obtain r f where r: "result_ok s r"
    and p: "protocol_ok (ss_continuation (shared s)) (conts (shared s)) (is_value r) f (setter s) (thener s)"
    by (auto simp: fut_sim_def)
  have "poll (shared s) \<noteq> None" if "setter s = SHave c \<or> thener s = NHave c" for c
  proof -
    have "setter s \<noteq> SIdle" "setter s \<noteq> SStored" using that p by auto
    with r show ?thesis by (auto simp: poll_def result_ok_def split: option.splits sum.splits)
  qed
  moreover have "ss_destroy (shared s) = Some {}"
    if "setter s \<in> {SIdle, SDone}" "thener s \<in> {NIdle, NDone}"
    using that p by (auto simp: ss_destroy_def before_exchange_def)
  ultimately show ?thesis
    using p by (cases "thener s") (auto simp: before_exchange_def)
qed

text \<open>
  The operations run one after the other: registering before or after the promise is satisfied makes
  no difference, neither to the number of invocations nor to the state left behind.
\<close>

lemma set_then_commute:
  "(let (f1, s1) = then_do c ss_new; (f2, s2) = set_value v s1 in (f1 @ f2, s2)) =
   (let (f1, s1) = set_value v ss_new; (f2, s2) = then_do c s1 in (f1 @ f2, s2)) \<and>
   fst (set_value v (snd (then_do c ss_new))) = [v]"
  by (simp add: then_do_def set_value_def ss_new_def ss_exchange_def is_sentinel_def)

text \<open>
  An exception never reaches a continuation: satisfying the promise with an exception invokes no
  callback, whether it was registered before or after, so code that is only reached through a
  continuation does not run.
\<close>

lemma exception_skips_continuation:
  "fst (set_exception e (snd (then_do c ss_new))) = [] \<and>
   fst (then_do c (snd (set_exception e ss_new))) = []"
  by (simp add: then_do_def set_exception_def ss_new_def ss_exchange_def is_sentinel_def)

text \<open>
  The timed wait: the loop leaves at the first iteration that finds the flag set, with the value or the
  exception, or else at the first iteration whose clock has reached the deadline, with \<open>nullopt\<close>; a
  result that is there when the loop first looks is returned even if the deadline has passed.
\<close>

lemma wait_for_first_event:
  "wait_for deadline obs =
     (case List.find (\<lambda>(s, now). ss_ready s \<or> deadline \<le> now) obs of
        None \<Rightarrow> None
      | Some (s, now) \<Rightarrow> Some (if ss_ready s then poll s else None))"
  by (induction deadline obs rule: wait_for.induct) (simp_all split: prod.splits)

subsection \<open>A complete run\<close>

text \<open>The promise is satisfied with 5, then the continuation is registered and invoked.\<close>

definition set_first :: "nat fut_sys" where
  "set_first = \<lparr>shared = snd (set_value 5 ss_new), setter = SDone, thener = NIdle\<rparr>"

definition both_done :: "nat fut_sys" where
  "both_done = \<lparr>shared = snd (set_value 5 ss_new), setter = SDone, thener = NDone\<rparr>"

lemma set_first_run: "trace fut_step \<lparr>shared = ss_new, setter = SIdle, thener = NIdle\<rparr> [Set (Inr 5)] set_first"
proof -
  let ?s0 = "\<lparr>shared = ss_new, setter = SIdle, thener = NIdle\<rparr> :: nat fut_sys"
  let ?s1 = "?s0\<lparr>shared := (shared ?s0)\<lparr>value_storage := Some 5\<rparr>, setter := SStored\<rparr>"
  let ?s2 = "?s1\<lparr>shared := (shared ?s1)\<lparr>ss_ready := True\<rparr>, setter := SReady\<rparr>"
  have "trace fut_step ?s0 [Set (Inr 5)] ?s1" by (intro trace_single store_value) simp
  then have "trace fut_step ?s0 [Set (Inr 5)] ?s2" by (rule trace_tau) (intro store_ready, simp)
  moreover have "fut_step ?s2 Tau set_first"
    using set_exchange [of ?s2 Null "(shared ?s2)\<lparr>ss_continuation := Sentinel\<rparr>"]
    by (simp add: set_first_def ss_exchange_def ss_new_def set_value_def)
  ultimately show ?thesis by (rule trace_tau)
qed

lemma both_done_run:
  "trace fut_step \<lparr>shared = ss_new, setter = SIdle, thener = NIdle\<rparr> [Set (Inr 5), Fired 5] both_done"
proof -
  let ?s0 = "\<lparr>shared = ss_new, setter = SIdle, thener = NIdle\<rparr> :: nat fut_sys"
  let ?sh = "(shared set_first)\<lparr>conts := {2}, ss_continuation := Cont 2\<rparr>"
  let ?s4 = "set_first\<lparr>shared := ?sh, thener := NHave 2\<rparr>"
  let ?s5 = "?s4\<lparr>thener := NDel 2\<rparr>"
  let ?s6 = "?s5\<lparr>shared := (shared ?s5)\<lparr>conts := conts (shared ?s5) - {2}\<rparr>, thener := NStore\<rparr>"
  note defs = set_first_def set_value_def ss_new_def ss_exchange_def is_sentinel_def
  have "fut_step set_first Tau ?s4"
    using then_exchange [of set_first 2 Sentinel ?sh] by (simp add: defs)
  with set_first_run have "trace fut_step ?s0 [Set (Inr 5)] ?s4" by (rule trace_tau)
  moreover have "fut_step ?s4 (Act (Fired 5)) ?s5" by (rule then_invoke) (simp_all add: defs)
  ultimately have "trace fut_step ?s0 ([Set (Inr 5)] @ [Fired 5]) ?s5" by (rule trace_act)
  moreover have "fut_step ?s5 Tau ?s6" by (rule then_delete) (simp_all add: defs)
  ultimately have "trace fut_step ?s0 ([Set (Inr 5)] @ [Fired 5]) ?s6" by (rule trace_tau)
  moreover have "fut_step ?s6 Tau both_done"
    using then_store [of ?s6] by (simp add: defs both_done_def)
  ultimately have "trace fut_step ?s0 ([Set (Inr 5)] @ [Fired 5]) both_done" by (rule trace_tau)
  then show ?thesis by simp
qed

lemma fut_init_zero: "fut_init \<lparr>shared = ss_new, setter = SIdle, thener = NIdle\<rparr>"
  by (simp add: fut_init_def)

theorem continuation_fires_exactly_once_witness:
  "\<exists>r. concat (map sets [Set (Inr (5::nat)), Fired 5]) = [r] \<and> poll (shared both_done) = Some r \<and>
     conts (shared both_done) = {} \<and>
     concat (map fired [Set (Inr 5), Fired 5]) = (case r of Inr v \<Rightarrow> [v] | Inl e \<Rightarrow> [])"
  by (rule continuation_fires_exactly_once [OF fut_init_zero both_done_run]) (simp_all add: both_done_def)


theorem future_memory_safe_witness: "ss_destroy (shared both_done) = Some {}"
proof -
  have "reachable fut_init fut_step both_done"
    using both_done_run fut_init_zero by (blast intro: trace_reachable reach_init)
  from future_memory_safe [OF this] show ?thesis by (simp add: both_done_def)
qed

end
