(* ===== verification/Semaphore.thy ===== *)
theory Semaphore
  imports Forge_Prelude Future_Promise
begin

section \<open>The counting semaphore (src/src/core/semaphore.h)\<close>

text \<open>
  The counter is a 32-bit \<open>int\<close> read as signed; \<open>fetch_add\<close> wraps. The compare-exchange of
  \<open>try_acquire\<close> is the weak one, so it may fail although the counter has the expected value.
  The concurrent executions interleave the single accesses of any number of threads; \<open>held\<close> counts the
  permits that were acquired and not yet given back, by whichever thread gives them back: the client's
  obligation is only that it releases what somebody acquired. The abstract specification is a counter
  between 0 and the capacity.
\<close>

subsection \<open>State and operations\<close>

record semaphore =
  permits :: "32 word"
  max_permits :: "32 word"

text \<open>The constructor asserts a positive capacity: \<open>None\<close> is the failed assertion.\<close>

definition sem_new :: "32 word \<Rightarrow> semaphore option" where
  "sem_new m = (if 0 <s m then Some \<lparr>permits = m, max_permits = m\<rparr> else None)"

text \<open>
  The weak compare-exchange from the value \<open>cur\<close> to \<open>cur - 1\<close>. \<open>spurious\<close> is the hardware's choice to
  fail. The value that comes back is what \<open>current\<close> holds afterwards.
\<close>

definition sem_cas :: "bool \<Rightarrow> 32 word \<Rightarrow> semaphore \<Rightarrow> bool \<times> 32 word \<times> semaphore" where
  "sem_cas spurious cur s =
     (if permits s = cur \<and> \<not> spurious then (True, cur, s\<lparr>permits := cur - 1\<rparr>)
      else (False, permits s, s))"

text \<open>
  \<open>try_acquire\<close> run without interference. The list says which of its compare-exchanges fail spuriously;
  one that the list does not mention succeeds.
\<close>

fun try_acquire_loop :: "bool list \<Rightarrow> 32 word \<Rightarrow> semaphore \<Rightarrow> bool \<times> semaphore" where
  "try_acquire_loop spurious cur s =
     (if \<not> 0 <s cur then (False, s)
      else case sem_cas (spurious \<noteq> [] \<and> hd spurious) cur s of
             (True, _, s') \<Rightarrow> (True, s')
           | (False, cur', s') \<Rightarrow>
               (case spurious of [] \<Rightarrow> (False, s') | _ # rest \<Rightarrow> try_acquire_loop rest cur' s'))"

declare try_acquire_loop.simps [simp del]

definition try_acquire :: "bool list \<Rightarrow> semaphore \<Rightarrow> bool \<times> semaphore" where
  "try_acquire spurious s = try_acquire_loop spurious (permits s) s"

text \<open>What a refused round of \<open>acquire\<close> does; \<open>iter\<close> is an \<open>unsigned\<close> and wraps.\<close>

definition acquire_pause :: "32 word \<Rightarrow> pause" where
  "acquire_pause iter =
     (if iter < 4 then Spin
      else if iter < 16 then Yield
      else if iter < 64 then Sleep_us 10
      else Sleep_us 100)"

text \<open>
  The loop of \<open>acquire\<close> over the semaphores its rounds find. \<open>None\<close> says that it is still waiting.
\<close>

fun sem_acquire :: "32 word \<Rightarrow> semaphore list \<Rightarrow> (pause list \<times> semaphore) option" where
  "sem_acquire iter [] = None"
| "sem_acquire iter (s # later) =
     (case try_acquire [] s of
        (True, s') \<Rightarrow> Some ([], s')
      | (False, _) \<Rightarrow>
          map_option (\<lambda>(ps, s'). (acquire_pause iter # ps, s')) (sem_acquire (iter + 1) later))"

text \<open>\<open>release\<close> asserts that the counter was below the capacity: \<open>None\<close> is the failed assertion.\<close>

definition release :: "semaphore \<Rightarrow> semaphore option" where
  "release s =
     (let prev = permits s
      in if prev <s max_permits s then Some (s\<lparr>permits := prev + 1\<rparr>) else None)"

definition sem_available :: "semaphore \<Rightarrow> 32 word" where
  "sem_available s = permits s"

lemmas [op_defs] = sem_new_def sem_cas_def release_def sem_available_def

subsection \<open>Concurrent executions\<close>

text \<open>\<open>Trying cur\<close>: inside the loop of \<open>try_acquire\<close>, with a positive \<open>current\<close>.\<close>

datatype sem_pc = SemIdle | Trying "32 word"

record sem_sys =
  sem :: semaphore
  sem_pcs :: "tid \<Rightarrow> sem_pc"
  held :: nat

datatype sem_event = Acquired tid | Refused tid | Released tid

definition sem_init :: "32 word \<Rightarrow> sem_sys \<Rightarrow> bool" where
  "sem_init m s \<longleftrightarrow> sem_new m = Some (sem s) \<and> sem_pcs s = (\<lambda>_. SemIdle) \<and> held s = 0"

inductive sem_step :: "sem_sys \<Rightarrow> sem_event label \<Rightarrow> sem_sys \<Rightarrow> bool" where
  load_positive: "sem_pcs s t = SemIdle \<Longrightarrow> 0 <s permits (sem s) \<Longrightarrow>
     sem_step s Tau (s\<lparr>sem_pcs := (sem_pcs s)(t := Trying (permits (sem s)))\<rparr>)"
| load_refused: "sem_pcs s t = SemIdle \<Longrightarrow> \<not> 0 <s permits (sem s) \<Longrightarrow>
     sem_step s (Act (Refused t)) s"
| cas_ok: "sem_pcs s t = Trying cur \<Longrightarrow> sem_cas sp cur (sem s) = (True, cur', s') \<Longrightarrow>
     sem_step s (Act (Acquired t))
       (s\<lparr>sem := s', sem_pcs := (sem_pcs s)(t := SemIdle), held := held s + 1\<rparr>)"
| cas_retry: "sem_pcs s t = Trying cur \<Longrightarrow> sem_cas sp cur (sem s) = (False, cur', s') \<Longrightarrow> 0 <s cur' \<Longrightarrow>
     sem_step s Tau (s\<lparr>sem := s', sem_pcs := (sem_pcs s)(t := Trying cur')\<rparr>)"
| cas_refused: "sem_pcs s t = Trying cur \<Longrightarrow> sem_cas sp cur (sem s) = (False, cur', s') \<Longrightarrow> \<not> 0 <s cur' \<Longrightarrow>
     sem_step s (Act (Refused t)) (s\<lparr>sem := s', sem_pcs := (sem_pcs s)(t := SemIdle)\<rparr>)"
| give_back: "held s > 0 \<Longrightarrow> sem_pcs s t = SemIdle \<Longrightarrow> release (sem s) = Some s' \<Longrightarrow>
     sem_step s (Act (Released t)) (s\<lparr>sem := s', held := held s - 1\<rparr>)"

text \<open>The specification: the number of free permits of a semaphore with capacity \<open>m\<close>.\<close>

inductive counter_step :: "nat \<Rightarrow> nat \<Rightarrow> sem_event \<Rightarrow> nat \<Rightarrow> bool" for m where
  count_acquire: "0 < n \<Longrightarrow> counter_step m n (Acquired t) (n - 1)"
| count_refuse: "counter_step m 0 (Refused t) 0"
| count_release: "n < m \<Longrightarrow> counter_step m n (Released t) (n + 1)"

subsection \<open>The signed counter\<close>

lemma unat_less_uint: "unat (x :: 32 word) < 2 ^ 31 \<longleftrightarrow> uint x < 2 ^ 31"
proof -
  have "nat (uint x) < 2 ^ 31 \<longleftrightarrow> uint x < int (2 ^ 31)" by (rule nat_less_iff) simp
  then show ?thesis by simp
qed

lemma sint_small:
  assumes "unat (x :: 32 word) < 2 ^ 31"
  shows "sint x = int (unat x)"
proof -
  have "- (2 ^ 31) \<le> uint x" by (rule order_trans [OF _ uint_ge_0]) simp
  moreover have "uint x < 2 ^ 31" using assms by (simp only: unat_less_uint)
  ultimately have "signed_take_bit 31 (uint x) = uint x"
    by (simp add: signed_take_bit_int_eq_self_iff)
  then show ?thesis by (simp add: sint_uint)
qed

lemma sless_unat:
  fixes x y :: "32 word"
  assumes "unat x < 2 ^ 31" and "unat y < 2 ^ 31"
  shows "x <s y \<longleftrightarrow> unat x < unat y"
  unfolding word_sless_alt sint_small [OF assms(1)] sint_small [OF assms(2)] by (rule of_nat_less_iff)

lemma positive_unat: "unat (x :: 32 word) < 2 ^ 31 \<Longrightarrow> 0 <s x \<longleftrightarrow> 0 < unat x"
  using sless_unat [of 0 x] by simp

lemma positive_small: "0 <s (x :: 32 word) \<Longrightarrow> unat x < 2 ^ 31 \<and> 0 < unat x"
proof -
  assume a: "0 <s x"
  then have s: "0 < sint x" by (simp add: word_sless_alt)
  have "uint x < 2 ^ 31"
  proof (rule ccontr)
    assume "\<not> uint x < 2 ^ 31"
    moreover have "uint x < 2 ^ 32" using uint_lt2p [of x] by simp
    ultimately have "uint x div 2 ^ 31 = 1" by simp
    then have "bit (uint x) 31" by (simp add: bit_iff_odd)
    then have "sint x < 0" by (simp add: sint_uint)
    with s show False by simp
  qed
  then have "unat x < 2 ^ 31" by (simp only: unat_less_uint)
  with a show ?thesis by (simp add: positive_unat)
qed

lemma unat_dec: "0 < unat (x :: 32 word) \<Longrightarrow> unat (x - 1) = unat x - 1"
  by (metis unat_gt_0 unat_minus_one)

lemma unat_inc: "unat (x :: 32 word) + 1 < 2 ^ 32 \<Longrightarrow> unat (x + 1) = unat x + 1"
  by (simp add: unat_word_ariths)


subsection \<open>The simulation\<close>

text \<open>The free and the held permits add up to the capacity, and nothing leaves the range of the type.\<close>

definition sem_sim :: "32 word \<Rightarrow> sem_sys \<Rightarrow> nat \<Rightarrow> bool" where
  "sem_sim m s n \<longleftrightarrow> max_permits (sem s) = m \<and> unat m < 2 ^ 31 \<and>
     unat (permits (sem s)) = n \<and> n + held s = unat m \<and>
     (\<forall>t cur. sem_pcs s t = Trying cur \<longrightarrow> 0 <s cur)"

lemma sem_sim_init: "sem_init m s \<Longrightarrow> sem_sim m s (unat m)"
  using positive_small [of m]
  by (cases "sem s") (auto simp: sem_init_def sem_sim_def sem_new_def split: if_splits)

lemma sem_sim_positive: "sem_sim m s n \<Longrightarrow> 0 <s permits (sem s) \<longleftrightarrow> 0 < n"
  unfolding sem_sim_def by (subst positive_unat) linarith+

lemma sem_sim_tau: "sem_sim m s n \<Longrightarrow> sem_step s Tau t \<Longrightarrow> sem_sim m t n"
  by (erule sem_step.cases) (auto simp: sem_sim_def sem_cas_def split: if_splits)

lemma sem_sim_acquire:
  assumes "sem_sim m s n" and "sem_pcs s t = Trying cur" and "sem_cas sp cur (sem s) = (True, cur', s')"
  shows "0 < n \<and>
    sem_sim m (s\<lparr>sem := s', sem_pcs := (sem_pcs s)(t := SemIdle), held := held s + 1\<rparr>) (n - 1)"
proof -
  have c: "permits (sem s) = cur" "s' = (sem s)\<lparr>permits := cur - 1\<rparr>"
    using assms(3) by (auto simp: sem_cas_def split: if_splits)
  have "0 < n" using assms(1,2) c(1) sem_sim_positive [OF assms(1)] by (auto simp: sem_sim_def)
  then show ?thesis using assms(1) c by (auto simp: sem_sim_def unat_dec)
qed

lemma sem_sim_release:
  assumes "sem_sim m s n" and "0 < held s"
  shows "n < unat m \<and> release (sem s) = Some ((sem s)\<lparr>permits := permits (sem s) + 1\<rparr>)"
    and "sem_sim m (s\<lparr>sem := (sem s)\<lparr>permits := permits (sem s) + 1\<rparr>, held := held s - 1\<rparr>) (n + 1)"
proof -
  have n: "n < unat m" "unat (permits (sem s)) = n" "unat m < 2 ^ 31" "max_permits (sem s) = m"
    using assms by (auto simp: sem_sim_def)
  then have "permits (sem s) <s m" by (subst sless_unat) linarith+
  with n show "n < unat m \<and> release (sem s) = Some ((sem s)\<lparr>permits := permits (sem s) + 1\<rparr>)"
    by (simp add: release_def)
  have "unat (permits (sem s) + 1) = n + 1" using n by (subst unat_inc) auto
  with n assms show "sem_sim m (s\<lparr>sem := (sem s)\<lparr>permits := permits (sem s) + 1\<rparr>, held := held s - 1\<rparr>) (n + 1)"
    by (auto simp: sem_sim_def)
qed

lemma sem_sim_act:
  assumes "sem_sim m s n" and "sem_step s (Act e) t"
  shows "\<exists>k. counter_step (unat m) n e k \<and> sem_sim m t k"
  using assms(2)
proof cases
  case (load_refused u)
  with sem_sim_positive [OF assms(1)] assms(1) show ?thesis by (auto intro: count_refuse)
next
  case (cas_ok u cur sp cur' s')
  with sem_sim_acquire [OF assms(1) cas_ok(3,4)] show ?thesis by (auto intro: count_acquire)
next
  case (cas_refused u cur sp cur' s')
  then have "s' = sem s" "cur' = permits (sem s)" by (auto simp: sem_cas_def split: if_splits)
  with cas_refused sem_sim_positive [OF assms(1)] assms(1) show ?thesis
    by (auto simp: sem_sim_def intro!: exI [of _ n] count_refuse split: if_splits)
next
  case (give_back u s')
  with sem_sim_release [OF assms(1) give_back(3)] show ?thesis by (auto intro: count_release)
qed

interpretation semaphore: lts_simulation "sem_init m" sem_step "sem_sim m" "unat m" "counter_step (unat m)"
  by unfold_locales (blast intro: sem_sim_init sem_sim_tau sem_sim_act)+

subsection \<open>Properties\<close>

text \<open>
  C6. The semaphore refines a counter: under every interleaving of the accesses of any number of
  threads, with spurious failures of the compare-exchange, the acquisitions, refusals and releases of a
  run are a run of a counter that starts at the capacity, never leaves 0 to the capacity, and refuses
  only at 0. Free and outstanding permits always add up to the capacity, and the assertion of
  \<open>release\<close> holds whenever a permit is outstanding.
\<close>

theorem semaphore_counts:
  assumes "sem_init m s0" and "trace sem_step s0 es s"
  shows "spec_trace (counter_step (unat m)) (unat m) es (unat (permits (sem s))) \<and>
    unat (permits (sem s)) + held s = unat m \<and>
    (0 < held s \<longrightarrow> release (sem s) = Some ((sem s)\<lparr>permits := permits (sem s) + 1\<rparr>))"
proof -
  from semaphore.init_trace [OF assms] obtain n
    where "spec_trace (counter_step (unat m)) (unat m) es n" and n: "sem_sim m s n" by blast
  moreover from n have "unat (permits (sem s)) = n" "n + held s = unat m" by (auto simp: sem_sim_def)
  ultimately show ?thesis using sem_sim_release(1) [OF n] by simp
qed

text \<open>A run with one permit: thread 1 takes it, thread 2 is refused.\<close>

definition one_permit :: sem_sys where
  "one_permit = \<lparr>sem = \<lparr>permits = 1, max_permits = 1\<rparr>, sem_pcs = \<lambda>_. SemIdle, held = 0\<rparr>"

definition permit_taken :: sem_sys where
  "permit_taken = \<lparr>sem = \<lparr>permits = 0, max_permits = 1\<rparr>, sem_pcs = \<lambda>_. SemIdle, held = 1\<rparr>"

lemma one_permit_init: "sem_init 1 one_permit"
  by (simp add: sem_init_def sem_new_def one_permit_def word_sless_alt)

lemma one_permit_run: "trace sem_step one_permit [Acquired 1, Refused 2] permit_taken"
proof -
  let ?mid = "one_permit\<lparr>sem_pcs := (sem_pcs one_permit)(1 := Trying 1)\<rparr>"
  have "sem_step one_permit Tau ?mid"
    using load_positive [of one_permit 1] by (simp add: one_permit_def word_sless_alt)
  then have mid: "trace sem_step one_permit [] ?mid" using trace_tau trace_refl by metis
  have "sem_step ?mid (Act (Acquired 1)) permit_taken"
    using cas_ok [of ?mid 1 1 False 1 "\<lparr>permits = 0, max_permits = 1\<rparr>"]
    by (simp add: one_permit_def permit_taken_def sem_cas_def)
  with mid have "trace sem_step one_permit [Acquired 1] permit_taken" using trace_act by fastforce
  moreover have "sem_step permit_taken (Act (Refused 2)) permit_taken"
    using load_refused [of permit_taken 2] by (simp add: permit_taken_def word_sless_alt)
  ultimately show ?thesis using trace_act [of sem_step one_permit "[Acquired 1]"] by fastforce
qed

theorem semaphore_counts_witness:
  "spec_trace (counter_step 1) 1 [Acquired 1, Refused 2] 0 \<and> held permit_taken = 1 \<and>
   release (sem permit_taken) = Some \<lparr>permits = 1, max_permits = 1\<rparr>"
  using semaphore_counts [OF one_permit_init one_permit_run] by (simp add: permit_taken_def)

text \<open>
  Without interference \<open>try_acquire\<close> returns whatever spurious failures its compare-exchanges meet:
  it takes a permit when there is one and changes nothing otherwise.
\<close>

lemma try_acquire_returns:
  "try_acquire spurious s =
     (if 0 <s permits s then (True, s\<lparr>permits := permits s - 1\<rparr>) else (False, s))"
proof -
  have "try_acquire_loop spurious (permits s) s =
      (if 0 <s permits s then (True, s\<lparr>permits := permits s - 1\<rparr>) else (False, s))"
  proof (induction spurious)
    case Nil
    show ?case by (subst try_acquire_loop.simps) (simp add: sem_cas_def)
  next
    case (Cons b rest)
    then show ?case by (subst try_acquire_loop.simps) (simp add: sem_cas_def)
  qed
  then show ?thesis by (simp add: try_acquire_def)
qed

lemma release_after_acquire:
  assumes "0 <s permits s" and "\<not> max_permits s <s permits s" and "0 <s max_permits s"
  shows "release (s\<lparr>permits := permits s - 1\<rparr>) = Some s"
proof -
  have p: "unat (permits s) < 2 ^ 31" "0 < unat (permits s)" "unat (max_permits s) < 2 ^ 31"
    using positive_small [OF assms(1)] positive_small [OF assms(3)] by auto
  have le: "unat (permits s) \<le> unat (max_permits s)" using assms(2) sless_unat [OF p(3,1)] by simp
  have d: "unat (permits s - 1) = unat (permits s) - 1" by (rule unat_dec [OF p(2)])
  then have "permits s - 1 <s max_permits s" using sless_unat [of "permits s - 1" "max_permits s"] p le by simp
  then show ?thesis by (simp add: release_def)
qed

end
