(* ===== verification/Rate_Limiter.thy ===== *)
theory Rate_Limiter
  imports Complex_Main Forge_Prelude
begin

section \<open>The token bucket (src/src/core/rate_limiter.h)\<close>

text \<open>
  Tokens are fixed-point integers. The floating-point arithmetic of the class is a parameter: \<open>cap\<close> is
  \<open>to_fixed(burst_)\<close> and \<open>accrue us\<close> is the number of fixed-point tokens that the expression of
  \<open>refill\<close> computes for a window of \<open>us\<close> microseconds, whatever its rounding. The amounts are
  \<open>to_fixed(amount)\<close>. Values are mathematical integers; with \<open>cap + accrue us\<close> below \<open>2\<^sup>6\<^sup>3\<close> the sums of the
  code are the same ones.

  The clock is part of the state of the concurrent executions and only moves forwards, as
  \<open>steady_clock\<close> does. Every access of \<open>tokens_\<close> and \<open>last_refill_\<close> is a step.
\<close>

subsection \<open>State and operations run without interruption\<close>

record bucket =
  tokens :: int
  last_refill :: int

definition bucket_new :: "int \<Rightarrow> int \<Rightarrow> bucket" where
  "bucket_new cap now = \<lparr>tokens = cap, last_refill = now\<rparr>"

definition refill :: "(int \<Rightarrow> int) \<Rightarrow> int \<Rightarrow> int \<Rightarrow> bucket \<Rightarrow> bucket" where
  "refill accrue cap now b =
     (let elapsed_us = now - last_refill b
      in if elapsed_us \<le> 0 then b
         else let b1 = b\<lparr>last_refill := now\<rparr>; new_tokens = accrue elapsed_us
              in if new_tokens \<le> 0 then b1
                 else b1\<lparr>tokens := min (tokens b1 + new_tokens) cap\<rparr>)"

definition rl_try_acquire :: "(int \<Rightarrow> int) \<Rightarrow> int \<Rightarrow> int \<Rightarrow> int \<Rightarrow> bucket \<Rightarrow> bool \<times> bucket" where
  "rl_try_acquire accrue cap needed now b =
     (let b1 = refill accrue cap now b
      in if tokens b1 < needed then (False, b1)
         else (True, b1\<lparr>tokens := tokens b1 - needed\<rparr>))"

text \<open>
  The loop of \<open>acquire\<close>, over the clock readings of its rounds; each refused round sleeps 100 microseconds.
  \<open>None\<close> says that it is still waiting.
\<close>

fun rl_acquire :: "(int \<Rightarrow> int) \<Rightarrow> int \<Rightarrow> int \<Rightarrow> int list \<Rightarrow> bucket \<Rightarrow> bucket option" where
  "rl_acquire accrue cap needed [] b = None"
| "rl_acquire accrue cap needed (now # later) b =
     (case rl_try_acquire accrue cap needed now b of
        (True, b') \<Rightarrow> Some b'
      | (False, b') \<Rightarrow> rl_acquire accrue cap needed later b')"

subsection \<open>Concurrent executions\<close>

text \<open>
  Where a thread is inside \<open>try_acquire\<close>, with the values of its locals: before the load of
  \<open>last_refill_\<close>; in the loop that claims a window; before the load of \<open>tokens_\<close> in \<open>refill\<close>; in the loop
  that adds the new tokens; before the load of \<open>tokens_\<close> in \<open>try_acquire\<close>; in the loop that takes them.
\<close>

datatype rl_pc =
    RIdle
  | RStart int int
  | RClaim int int int
  | RLoad int int
  | RAdd int int int
  | RTake int
  | RTaking int int

record rl_sys =
  bucket :: bucket
  clock :: int
  rl_pcs :: "rl_pc list"

datatype rl_event = Granted tid int | Denied tid int

definition rl_init :: "int \<Rightarrow> int \<Rightarrow> rl_sys \<Rightarrow> bool" where
  "rl_init cap start s \<longleftrightarrow> bucket s = bucket_new cap start \<and> clock s = start \<and> set (rl_pcs s) \<subseteq> {RIdle}"

text \<open>The local step after a window test: claim the window or go on to take the tokens.\<close>

definition claim_or_take :: "int \<Rightarrow> int \<Rightarrow> int \<Rightarrow> rl_pc" where
  "claim_or_take n now prev = (if now - prev \<le> 0 then RTake n else RClaim n now prev)"

text \<open>The local step after the window is claimed.\<close>

definition load_or_take :: "(int \<Rightarrow> int) \<Rightarrow> int \<Rightarrow> int \<Rightarrow> rl_pc" where
  "load_or_take accrue n elapsed_us =
     (let new_tokens = accrue elapsed_us in if new_tokens \<le> 0 then RTake n else RLoad n new_tokens)"

inductive rl_step :: "(int \<Rightarrow> int) \<Rightarrow> int \<Rightarrow> rl_sys \<Rightarrow> rl_event label \<Rightarrow> rl_sys \<Rightarrow> bool"
  for accrue cap where
  tick: "clock s \<le> c \<Longrightarrow> rl_step accrue cap s Tau (s\<lparr>clock := c\<rparr>)"
| read_clock: "t < length (rl_pcs s) \<Longrightarrow> rl_pcs s ! t = RIdle \<Longrightarrow> 0 \<le> n \<Longrightarrow>
     rl_step accrue cap s Tau (s\<lparr>rl_pcs := (rl_pcs s)[t := RStart n (clock s)]\<rparr>)"
| load_last: "t < length (rl_pcs s) \<Longrightarrow> rl_pcs s ! t = RStart n now \<Longrightarrow>
     rl_step accrue cap s Tau (s\<lparr>rl_pcs := (rl_pcs s)[t := claim_or_take n now (last_refill (bucket s))]\<rparr>)"
| claim_ok: "t < length (rl_pcs s) \<Longrightarrow> rl_pcs s ! t = RClaim n now prev \<Longrightarrow>
     weak_cas sp prev now (last_refill (bucket s)) = (True, prev', l) \<Longrightarrow>
     rl_step accrue cap s Tau
       (s\<lparr>bucket := (bucket s)\<lparr>last_refill := l\<rparr>,
          rl_pcs := (rl_pcs s)[t := load_or_take accrue n (now - prev)]\<rparr>)"
| claim_fail: "t < length (rl_pcs s) \<Longrightarrow> rl_pcs s ! t = RClaim n now prev \<Longrightarrow>
     weak_cas sp prev now (last_refill (bucket s)) = (False, prev', l) \<Longrightarrow>
     rl_step accrue cap s Tau (s\<lparr>rl_pcs := (rl_pcs s)[t := claim_or_take n now prev']\<rparr>)"
| load_tokens: "t < length (rl_pcs s) \<Longrightarrow> rl_pcs s ! t = RLoad n new \<Longrightarrow>
     rl_step accrue cap s Tau (s\<lparr>rl_pcs := (rl_pcs s)[t := RAdd n new (tokens (bucket s))]\<rparr>)"
| add_ok: "t < length (rl_pcs s) \<Longrightarrow> rl_pcs s ! t = RAdd n new cur \<Longrightarrow>
     weak_cas sp cur (min (cur + new) cap) (tokens (bucket s)) = (True, cur', k) \<Longrightarrow>
     rl_step accrue cap s Tau
       (s\<lparr>bucket := (bucket s)\<lparr>tokens := k\<rparr>, rl_pcs := (rl_pcs s)[t := RTake n]\<rparr>)"
| add_fail: "t < length (rl_pcs s) \<Longrightarrow> rl_pcs s ! t = RAdd n new cur \<Longrightarrow>
     weak_cas sp cur (min (cur + new) cap) (tokens (bucket s)) = (False, cur', k) \<Longrightarrow>
     rl_step accrue cap s Tau (s\<lparr>rl_pcs := (rl_pcs s)[t := RAdd n new cur']\<rparr>)"
| take_load: "t < length (rl_pcs s) \<Longrightarrow> rl_pcs s ! t = RTake n \<Longrightarrow> \<not> tokens (bucket s) < n \<Longrightarrow>
     rl_step accrue cap s Tau (s\<lparr>rl_pcs := (rl_pcs s)[t := RTaking n (tokens (bucket s))]\<rparr>)"
| take_refused: "t < length (rl_pcs s) \<Longrightarrow> rl_pcs s ! t = RTake n \<Longrightarrow> tokens (bucket s) < n \<Longrightarrow>
     rl_step accrue cap s (Act (Denied t n)) (s\<lparr>rl_pcs := (rl_pcs s)[t := RIdle]\<rparr>)"
| take_ok: "t < length (rl_pcs s) \<Longrightarrow> rl_pcs s ! t = RTaking n cur \<Longrightarrow>
     weak_cas sp cur (cur - n) (tokens (bucket s)) = (True, cur', k) \<Longrightarrow>
     rl_step accrue cap s (Act (Granted t n))
       (s\<lparr>bucket := (bucket s)\<lparr>tokens := k\<rparr>, rl_pcs := (rl_pcs s)[t := RIdle]\<rparr>)"
| take_retry: "t < length (rl_pcs s) \<Longrightarrow> rl_pcs s ! t = RTaking n cur \<Longrightarrow>
     weak_cas sp cur (cur - n) (tokens (bucket s)) = (False, cur', k) \<Longrightarrow> \<not> cur' < n \<Longrightarrow>
     rl_step accrue cap s Tau (s\<lparr>rl_pcs := (rl_pcs s)[t := RTaking n cur']\<rparr>)"
| take_lost: "t < length (rl_pcs s) \<Longrightarrow> rl_pcs s ! t = RTaking n cur \<Longrightarrow>
     weak_cas sp cur (cur - n) (tokens (bucket s)) = (False, cur', k) \<Longrightarrow> cur' < n \<Longrightarrow>
     rl_step accrue cap s (Act (Denied t n)) (s\<lparr>rl_pcs := (rl_pcs s)[t := RIdle]\<rparr>)"

text \<open>The specification counts what was granted; a refusal needs a bucket below the amount.\<close>

inductive meter_step :: "int \<Rightarrow> rl_event \<Rightarrow> int \<Rightarrow> bool" where
  meter_grant: "0 \<le> n \<Longrightarrow> meter_step a (Granted t n) (a + n)"
| meter_deny: "0 < n \<Longrightarrow> meter_step a (Denied t n) a"

fun granted :: "rl_event \<Rightarrow> int" where
  "granted (Granted t n) = n"
| "granted (Denied t n) = 0"

lemma meter_trace: "spec_trace meter_step a es b \<Longrightarrow> b = a + sum_list (map granted es)"
  by (induction rule: spec_trace.induct) (auto elim: meter_step.cases)

subsection \<open>The simulation\<close>

text \<open>Tokens of a claimed window that are not in the bucket yet.\<close>

fun pending :: "rl_pc \<Rightarrow> int" where
  "pending (RLoad n new) = new"
| "pending (RAdd n new cur) = new"
| "pending _ = 0"

fun pc_ok :: "int \<Rightarrow> rl_pc \<Rightarrow> bool" where
  "pc_ok c RIdle \<longleftrightarrow> True"
| "pc_ok c (RStart n now) \<longleftrightarrow> 0 \<le> n \<and> now \<le> c"
| "pc_ok c (RClaim n now prev) \<longleftrightarrow> 0 \<le> n \<and> now \<le> c \<and> prev < now"
| "pc_ok c (RLoad n new) \<longleftrightarrow> 0 \<le> n \<and> 0 < new"
| "pc_ok c (RAdd n new cur) \<longleftrightarrow> 0 \<le> n \<and> 0 < new"
| "pc_ok c (RTake n) \<longleftrightarrow> 0 \<le> n"
| "pc_ok c (RTaking n cur) \<longleftrightarrow> 0 \<le> n \<and> n \<le> cur"

definition rl_sim :: "real \<Rightarrow> int \<Rightarrow> int \<Rightarrow> rl_sys \<Rightarrow> int \<Rightarrow> bool" where
  "rl_sim r cap start s a \<longleftrightarrow>
     0 \<le> tokens (bucket s) \<and> tokens (bucket s) \<le> cap \<and> last_refill (bucket s) \<le> clock s \<and>
     (\<forall>t < length (rl_pcs s). pc_ok (clock s) (rl_pcs s ! t)) \<and>
     real_of_int (a + tokens (bucket s) + sum_list (map pending (rl_pcs s)))
       \<le> real_of_int cap + r * real_of_int (last_refill (bucket s) - start)"

text \<open>A rate that bounds what the floating-point expression yields for a window.\<close>

definition accrues_at_most :: "real \<Rightarrow> (int \<Rightarrow> int) \<Rightarrow> bool" where
  "accrues_at_most r accrue \<longleftrightarrow> 0 \<le> r \<and> (\<forall>us>0. real_of_int (accrue us) \<le> r * real_of_int us)"

lemma pc_ok_mono: "pc_ok c pc \<Longrightarrow> c \<le> c' \<Longrightarrow> pc_ok c' pc"
  by (cases pc) auto

lemma sum_list_idle: "set pcs \<subseteq> {RIdle} \<Longrightarrow> sum_list (map pending pcs) = 0"
  by (induction pcs) auto

lemma rl_sim_init: "0 \<le> cap \<Longrightarrow> rl_init cap start s \<Longrightarrow> rl_sim r cap start s 0"
  unfolding rl_sim_def rl_init_def bucket_new_def
  by (auto simp: sum_list_idle dest!: nth_mem subsetD)

text \<open>One thread moves: what it takes, keeps and claims must balance.\<close>

lemma rl_sim_move:
  assumes "rl_sim r cap start s a" and "t < length (rl_pcs s)"
    and "pc_ok (clock s) pc" and "0 \<le> k" and "k \<le> cap" and "l \<le> clock s"
    and "real_of_int (a' + k + pending pc) - real_of_int (a + tokens (bucket s) + pending (rl_pcs s ! t))
       \<le> r * real_of_int (l - last_refill (bucket s))"
  shows "rl_sim r cap start
     (s\<lparr>bucket := (bucket s)\<lparr>tokens := k, last_refill := l\<rparr>, rl_pcs := (rl_pcs s)[t := pc]\<rparr>) a'"
proof -
  have "sum_list (map pending ((rl_pcs s)[t := pc])) =
      sum_list (map pending (rl_pcs s)) - pending (rl_pcs s ! t) + pending pc"
    using assms(2) sum_list_update_int [of t "map pending (rl_pcs s)" "pending pc"] by (simp add: map_update)
  with assms show ?thesis
    by (simp add: rl_sim_def nth_list_update algebra_simps)
qed

text \<open>The same for a step that only changes the thread's locals.\<close>

lemma rl_sim_local:
  assumes "rl_sim r cap start s a" and "t < length (rl_pcs s)"
    and "pc_ok (clock s) pc" and "pending pc = pending (rl_pcs s ! t)"
  shows "rl_sim r cap start (s\<lparr>rl_pcs := (rl_pcs s)[t := pc]\<rparr>) a"
  using rl_sim_move [OF assms(1-3), of "tokens (bucket s)" "last_refill (bucket s)" a] assms
  by (simp add: rl_sim_def)

lemma rl_sim_pc: "rl_sim r cap start s a \<Longrightarrow> t < length (rl_pcs s) \<Longrightarrow> pc_ok (clock s) (rl_pcs s ! t)"
  by (simp add: rl_sim_def)

lemma claim_or_take_ok:
  "0 \<le> n \<Longrightarrow> now \<le> c \<Longrightarrow> pc_ok c (claim_or_take n now prev) \<and> pending (claim_or_take n now prev) = 0"
  by (simp add: claim_or_take_def)

lemma load_or_take_ok:
  assumes "accrues_at_most r accrue" and "0 \<le> n" and "0 < us"
  shows "pc_ok c (load_or_take accrue n us)"
    and "real_of_int (pending (load_or_take accrue n us)) \<le> r * real_of_int us"
  using assms by (auto simp: load_or_take_def accrues_at_most_def Let_def)

lemma rl_sim_tau:
  assumes acc: "accrues_at_most r accrue" and sim: "rl_sim r cap start s a" and "rl_step accrue cap s Tau u"
  shows "rl_sim r cap start u a"
  using assms(3)
proof cases
  case (tick c)
  with sim show ?thesis by (auto simp: rl_sim_def intro: pc_ok_mono)
next
  case (read_clock t n)
  with sim show ?thesis by (auto intro!: rl_sim_local)
next
  case (load_last t n now)
  with sim rl_sim_pc [OF sim load_last(2)] show ?thesis by (auto intro!: rl_sim_local simp: claim_or_take_ok)
next
  case (claim_ok t n now prev sp prev' l)
  then have "l = now" "last_refill (bucket s) = prev" by (auto simp: weak_cas_True)
  moreover have "0 \<le> n" "now \<le> clock s" "prev < now" using rl_sim_pc [OF sim claim_ok(2)] claim_ok(3) by auto
  ultimately show ?thesis
    using rl_sim_move [OF sim claim_ok(2), of "load_or_take accrue n (now - prev)" "tokens (bucket s)" now a]
      load_or_take_ok [OF acc, of n "now - prev"] sim claim_ok
    by (simp add: rl_sim_def)
next
  case (claim_fail t n now prev sp prev' l)
  with sim rl_sim_pc [OF sim claim_fail(2)] show ?thesis by (auto intro!: rl_sim_local simp: claim_or_take_ok)
next
  case (load_tokens t n new)
  with sim rl_sim_pc [OF sim load_tokens(2)] show ?thesis by (auto intro!: rl_sim_local)
next
  case (add_ok t n new cur sp cur' k)
  then have "k = min (cur + new) cap" "tokens (bucket s) = cur" by (auto simp: weak_cas_True)
  moreover have "0 \<le> n" "0 < new" using rl_sim_pc [OF sim add_ok(2)] add_ok(3) by auto
  moreover have "0 \<le> tokens (bucket s)" "tokens (bucket s) \<le> cap" using sim by (auto simp: rl_sim_def)
  ultimately show ?thesis
    using rl_sim_move [OF sim add_ok(2), of "RTake n" k "last_refill (bucket s)" a] sim add_ok
    by (simp add: rl_sim_def)
next
  case (add_fail t n new cur sp cur' k)
  with sim rl_sim_pc [OF sim add_fail(2)] show ?thesis by (auto intro!: rl_sim_local)
next
  case (take_load t n)
  with sim rl_sim_pc [OF sim take_load(2)] show ?thesis by (auto intro!: rl_sim_local)
next
  case (take_retry t n cur sp cur' k)
  with sim rl_sim_pc [OF sim take_retry(2)] show ?thesis by (auto intro!: rl_sim_local)
qed

lemma rl_sim_act:
  assumes sim: "rl_sim r cap start s a" and "rl_step accrue cap s (Act e) u"
  shows "\<exists>b. meter_step a e b \<and> rl_sim r cap start u b"
  using assms(2)
proof cases
  case (take_refused t n)
  have "0 < n" using take_refused sim by (auto simp: rl_sim_def)
  with sim take_refused show ?thesis by (auto intro!: exI [of _ a] meter_deny rl_sim_local)
next
  case (take_ok t n cur sp cur' k)
  then have "k = cur - n" "tokens (bucket s) = cur" by (auto simp: weak_cas_True)
  moreover have "0 \<le> n" "n \<le> cur" using rl_sim_pc [OF sim take_ok(3)] take_ok(4) by auto
  ultimately show ?thesis
    using rl_sim_move [OF sim take_ok(3), of RIdle k "last_refill (bucket s)" "a + n"] sim take_ok
    by (auto intro!: exI [of _ "a + n"] meter_grant simp: rl_sim_def)
next
  case (take_lost t n cur sp cur' k)
  have "0 < n" using take_lost sim by (auto simp: rl_sim_def weak_cas_False)
  with sim take_lost show ?thesis by (auto intro!: exI [of _ a] meter_deny rl_sim_local)
qed

interpretation rate: lts_simulation "\<lambda>s. accrues_at_most r accrue \<and> 0 \<le> cap \<and> rl_init cap start s"
  "rl_step accrue cap" "\<lambda>s a. accrues_at_most r accrue \<and> rl_sim r cap start s a" 0 meter_step
proof
  fix s a u
  assume "accrues_at_most r accrue \<and> rl_sim r cap start s a" and "rl_step accrue cap s Tau u"
  then show "accrues_at_most r accrue \<and> rl_sim r cap start u a" using rl_sim_tau by blast
next
  fix s a e u
  assume "accrues_at_most r accrue \<and> rl_sim r cap start s a" and "rl_step accrue cap s (Act e) u"
  then show "\<exists>b. meter_step a e b \<and> accrues_at_most r accrue \<and> rl_sim r cap start u b"
    using rl_sim_act by blast
qed (simp add: rl_sim_init)

lemma pending_nonneg:
  assumes "rl_sim r cap start s a"
  shows "0 \<le> sum_list (map pending (rl_pcs s))"
proof (rule sum_list_nonneg)
  fix x
  assume "x \<in> set (map pending (rl_pcs s))"
  then obtain t where "t < length (rl_pcs s)" "x = pending (rl_pcs s ! t)" by (auto simp: in_set_conv_nth)
  with rl_sim_pc [OF assms this(1)] show "0 \<le> x" by (cases "rl_pcs s ! t") auto
qed

subsection \<open>A run without interference\<close>

lemma solo_refill:
  assumes "t < length (rl_pcs s)" and "rl_pcs s ! t = RStart n (clock s)"
  shows "trace (rl_step accrue cap) s []
     (s\<lparr>bucket := refill accrue cap (clock s) (bucket s), rl_pcs := (rl_pcs s)[t := RTake n]\<rparr>)"
proof (cases "clock s - last_refill (bucket s) \<le> 0")
  case True
  then have "rl_step accrue cap s Tau (s\<lparr>rl_pcs := (rl_pcs s)[t := RTake n]\<rparr>)"
    using load_last [OF assms, of accrue cap] by (simp add: claim_or_take_def)
  moreover have "refill accrue cap (clock s) (bucket s) = bucket s" using True by (simp add: refill_def)
  ultimately show ?thesis by (metis (no_types, lifting) rl_sys.surjective rl_sys.update_convs(1) trace_refl trace_tau)
next
  case False
  define us where "us = clock s - last_refill (bucket s)"
  define s1 where "s1 = s\<lparr>rl_pcs := (rl_pcs s)[t := RClaim n (clock s) (last_refill (bucket s))]\<rparr>"
  define s2 where "s2 = s\<lparr>bucket := (bucket s)\<lparr>last_refill := clock s\<rparr>,
    rl_pcs := (rl_pcs s)[t := load_or_take accrue n us]\<rparr>"
  have "rl_step accrue cap s Tau s1"
    using load_last [OF assms, of accrue cap] False by (simp add: claim_or_take_def s1_def)
  moreover have "rl_step accrue cap s1 Tau s2"
    using claim_ok [of t s1 n "clock s" "last_refill (bucket s)" False "last_refill (bucket s)" "clock s" accrue cap]
      assms(1) by (simp add: s1_def s2_def us_def weak_cas_def)
  ultimately have to2: "trace (rl_step accrue cap) s [] s2" by (metis trace_refl trace_tau)
  show ?thesis
  proof (cases "accrue us \<le> 0")
    case True
    then show ?thesis using to2 False by (simp add: s2_def refill_def us_def load_or_take_def Let_def)
  next
    case more: False
    define s3 where "s3 = s2\<lparr>rl_pcs := (rl_pcs s)[t := RAdd n (accrue us) (tokens (bucket s))]\<rparr>"
    have "rl_step accrue cap s2 Tau s3"
      using load_tokens [of t s2 n "accrue us" accrue cap] assms(1) more
      by (simp add: s2_def s3_def load_or_take_def Let_def)
    moreover have "rl_step accrue cap s3 Tau
        (s\<lparr>bucket := refill accrue cap (clock s) (bucket s), rl_pcs := (rl_pcs s)[t := RTake n]\<rparr>)"
      using add_ok [of t s3 n "accrue us" "tokens (bucket s)" False cap "tokens (bucket s)"
          "min (tokens (bucket s) + accrue us) cap" accrue] assms(1) False more
      by (simp add: s2_def s3_def weak_cas_def refill_def us_def Let_def)
    ultimately show ?thesis using to2 by (metis trace_tau)
  qed
qed

lemma solo_try_acquire:
  assumes "t < length (rl_pcs s)" and "rl_pcs s ! t = RIdle" and "0 \<le> n"
  shows "trace (rl_step accrue cap) s
     [if fst (rl_try_acquire accrue cap n (clock s) (bucket s)) then Granted t n else Denied t n]
     (s\<lparr>bucket := snd (rl_try_acquire accrue cap n (clock s) (bucket s))\<rparr>)"
proof -
  define b where "b = refill accrue cap (clock s) (bucket s)"
  define s1 where "s1 = s\<lparr>rl_pcs := (rl_pcs s)[t := RStart n (clock s)]\<rparr>"
  define s2 where "s2 = s\<lparr>bucket := b, rl_pcs := (rl_pcs s)[t := RTake n]\<rparr>"
  have idle: "(rl_pcs s)[t := RIdle] = rl_pcs s" using assms(2) by (metis list_update_id)
  have "rl_step accrue cap s Tau s1" using read_clock [OF assms, of accrue cap] by (simp add: s1_def)
  then have "trace (rl_step accrue cap) s [] s1" by (metis trace_refl trace_tau)
  moreover have "trace (rl_step accrue cap) s1 [] s2"
    using solo_refill [of t s1 n accrue cap] assms(1) by (simp add: s1_def s2_def b_def)
  ultimately have to2: "trace (rl_step accrue cap) s [] s2" using trace_append by fastforce
  show ?thesis
  proof (cases "tokens b < n")
    case True
    then have "rl_step accrue cap s2 (Act (Denied t n)) (s\<lparr>bucket := b\<rparr>)"
      using take_refused [of t s2 n accrue cap] assms(1) by (simp add: s2_def idle)
    with to2 have "trace (rl_step accrue cap) s ([] @ [Denied t n]) (s\<lparr>bucket := b\<rparr>)" by (rule trace_act)
    with True show ?thesis by (simp add: rl_try_acquire_def b_def [symmetric])
  next
    case False
    define s3 where "s3 = s2\<lparr>rl_pcs := (rl_pcs s)[t := RTaking n (tokens b)]\<rparr>"
    have "rl_step accrue cap s2 Tau s3"
      using take_load [of t s2 n accrue cap] assms(1) False by (simp add: s2_def s3_def)
    with to2 have to3: "trace (rl_step accrue cap) s [] s3" by (rule trace_tau)
    have "rl_step accrue cap s3 (Act (Granted t n)) (s\<lparr>bucket := b\<lparr>tokens := tokens b - n\<rparr>\<rparr>)"
      using take_ok [of t s3 n "tokens b" False "tokens b" "tokens b - n" accrue cap] assms(1)
      by (simp add: s2_def s3_def weak_cas_def idle)
    with to3 have "trace (rl_step accrue cap) s ([] @ [Granted t n]) (s\<lparr>bucket := b\<lparr>tokens := tokens b - n\<rparr>\<rparr>)"
      by (rule trace_act)
    with False show ?thesis by (simp add: rl_try_acquire_def b_def [symmetric])
  qed
qed

subsection \<open>Properties\<close>

text \<open>
  C7. The bucket enforces its rate under every interleaving of any number of threads, with spurious
  failures: if the floating-point expression yields at most \<open>r\<close> tokens per microsecond of a window, then
  what was granted up to now is at most the burst size plus \<open>r\<close> times the time since the start, because
  every window is claimed by one thread only. The bucket stays between empty and the burst size.
\<close>

theorem rate_limit_enforced:
  assumes "accrues_at_most r accrue" and "0 \<le> cap" and "rl_init cap start s0"
    and "trace (rl_step accrue cap) s0 es s"
  shows "real_of_int (sum_list (map granted es)) \<le> real_of_int cap + r * real_of_int (clock s - start) \<and>
    0 \<le> tokens (bucket s) \<and> tokens (bucket s) \<le> cap"
proof -
  from rate.init_trace [OF conjI [OF assms(1) conjI [OF assms(2,3)]] assms(4)] obtain a
    where tr: "spec_trace meter_step 0 es a" and sim: "rl_sim r cap start s a" by blast
  have "a = sum_list (map granted es)" using meter_trace [OF tr] by simp
  moreover have "real_of_int a \<le> real_of_int (a + tokens (bucket s) + sum_list (map pending (rl_pcs s)))"
    using sim pending_nonneg [OF sim] by (simp add: rl_sim_def)
  moreover have "r * real_of_int (last_refill (bucket s) - start) \<le> r * real_of_int (clock s - start)"
    using assms(1) sim by (intro mult_left_mono) (auto simp: accrues_at_most_def rl_sim_def)
  ultimately show ?thesis using sim by (auto simp: rl_sim_def)
qed

text \<open>
  A thread that runs alone finishes \<open>try_acquire\<close>, with the result and the bucket that the
  uninterrupted operation computes.
\<close>

lemma rate_try_acquire_solo:
  assumes "t < length (rl_pcs s)" and "rl_pcs s ! t = RIdle" and "0 \<le> n"
  shows "trace (rl_step accrue cap) s
     [if fst (rl_try_acquire accrue cap n (clock s) (bucket s)) then Granted t n else Denied t n]
     (s\<lparr>bucket := snd (rl_try_acquire accrue cap n (clock s) (bucket s))\<rparr>)"
  by (rule solo_try_acquire [OF assms])

text \<open>A bucket of two tokens with one thread, two tokens per microsecond: the first acquisition.\<close>

definition full_bucket :: rl_sys where
  "full_bucket = \<lparr>bucket = bucket_new 2000000 0, clock = 0, rl_pcs = [RIdle]\<rparr>"

lemma full_bucket_run:
  "trace (rl_step (\<lambda>us. 2 * us) 2000000) full_bucket [Granted 0 1500000]
     (full_bucket\<lparr>bucket := \<lparr>tokens = 500000, last_refill = 0\<rparr>\<rparr>)"
  using solo_try_acquire [of 0 full_bucket 1500000 "\<lambda>us. 2 * us" 2000000]
  by (simp add: full_bucket_def bucket_new_def rl_try_acquire_def refill_def)

theorem rate_limit_enforced_witness:
  "real_of_int (sum_list (map granted [Granted 0 1500000])) \<le> 2000000 + 2 * real_of_int (clock full_bucket - 0)"
  using rate_limit_enforced [of 2 "\<lambda>us. 2 * us" 2000000 0 full_bucket "[Granted 0 1500000]"
      "full_bucket\<lparr>bucket := \<lparr>tokens = 500000, last_refill = 0\<rparr>\<rparr>", OF _ _ _ full_bucket_run]
  by (simp add: accrues_at_most_def rl_init_def full_bucket_def bucket_new_def)

end
