(* ===== verification/Concurrent_Map.thy ===== *)
theory Concurrent_Map
  imports Forge_Prelude "HOL-Library.AList"
begin

section \<open>The striped hash map (src/src/core/concurrent_map.h)\<close>

text \<open>
  The map is a list of stripes; a stripe is the content of its \<open>unordered_map\<close> as an association list,
  whose order stands for the unspecified iteration order. The hash function is a parameter. An operation
  on one key runs under the lock of one stripe and is one atomic action; \<open>size\<close> and \<open>keys\<close> lock one
  stripe after the other, so in a concurrent execution they are as many actions as there are stripes, and
  \<open>insert_if_under\<close> is a scan followed by an insertion.
\<close>

subsection \<open>State and operations\<close>

type_synonym ('k, 'v) stripe = "('k \<times> 'v) list"
type_synonym ('k, 'v) cmap = "('k, 'v) stripe list"

definition cm_new :: "nat \<Rightarrow> ('k, 'v) cmap" where
  "cm_new num_stripes = replicate num_stripes []"

definition stripe_of :: "('k \<Rightarrow> nat) \<Rightarrow> ('k, 'v) cmap \<Rightarrow> 'k \<Rightarrow> nat" where
  "stripe_of hash m k = hash k mod length m"

definition cm_insert :: "('k \<Rightarrow> nat) \<Rightarrow> 'k \<Rightarrow> 'v \<Rightarrow> ('k, 'v) cmap \<Rightarrow> bool \<times> ('k, 'v) cmap" where
  "cm_insert hash k v m =
     (let i = stripe_of hash m k
      in (map_of (m ! i) k = None, m[i := AList.update k v (m ! i)]))"

definition cm_size :: "('k, 'v) cmap \<Rightarrow> nat" where
  "cm_size m = sum_list (map length m)"

definition cm_empty :: "('k, 'v) cmap \<Rightarrow> bool" where
  "cm_empty m \<longleftrightarrow> cm_size m = 0"

definition insert_if_under ::
  "('k \<Rightarrow> nat) \<Rightarrow> 'k \<Rightarrow> 'v \<Rightarrow> nat \<Rightarrow> ('k, 'v) cmap \<Rightarrow> bool \<times> ('k, 'v) cmap" where
  "insert_if_under hash k v max_size m =
     (if cm_size m \<ge> max_size then (False, m) else (True, snd (cm_insert hash k v m)))"

definition cm_find :: "('k \<Rightarrow> nat) \<Rightarrow> ('k, 'v) cmap \<Rightarrow> 'k \<Rightarrow> 'v option" where
  "cm_find hash m k = map_of (m ! stripe_of hash m k) k"

definition cm_erase :: "('k \<Rightarrow> nat) \<Rightarrow> 'k \<Rightarrow> ('k, 'v) cmap \<Rightarrow> bool \<times> ('k, 'v) cmap" where
  "cm_erase hash k m =
     (let i = stripe_of hash m k
      in (map_of (m ! i) k \<noteq> None, m[i := AList.delete k (m ! i)]))"

definition cm_contains :: "('k \<Rightarrow> nat) \<Rightarrow> 'k \<Rightarrow> ('k, 'v) cmap \<Rightarrow> bool" where
  "cm_contains hash k m \<longleftrightarrow> k \<in> set (map fst (m ! stripe_of hash m k))"

text \<open>The callback of \<open>with_value\<close> only reads; its result is what the caller observes.\<close>

definition with_value :: "('k \<Rightarrow> nat) \<Rightarrow> 'k \<Rightarrow> ('v \<Rightarrow> 'r) \<Rightarrow> ('k, 'v) cmap \<Rightarrow> 'r option" where
  "with_value hash k func m = map_option func (cm_find hash m k)"

definition cm_mutate :: "('k \<Rightarrow> nat) \<Rightarrow> 'k \<Rightarrow> ('v \<Rightarrow> 'v) \<Rightarrow> ('k, 'v) cmap \<Rightarrow> bool \<times> ('k, 'v) cmap" where
  "cm_mutate hash k func m =
     (let i = stripe_of hash m k
      in case map_of (m ! i) k of
           None \<Rightarrow> (False, m)
         | Some v \<Rightarrow> (True, m[i := AList.update k (func v) (m ! i)]))"

definition cm_keys :: "('k, 'v) cmap \<Rightarrow> 'k list" where
  "cm_keys m = concat (map (map fst) m)"

subsection \<open>The invariant\<close>

definition cm_inv :: "('k \<Rightarrow> nat) \<Rightarrow> ('k, 'v) cmap \<Rightarrow> bool" where
  "cm_inv hash m \<longleftrightarrow> m \<noteq> [] \<and>
     (\<forall>i < length m. distinct (map fst (m ! i)) \<and> (\<forall>k \<in> fst ` set (m ! i). stripe_of hash m k = i))"

lemma cm_inv_new: "0 < n \<Longrightarrow> cm_inv hash (cm_new n)"
  by (auto simp: cm_inv_def cm_new_def)

lemma cm_size_new [simp]: "cm_size (cm_new n) = 0"
  by (simp add: cm_size_def cm_new_def sum_list_replicate)

lemma stripe_bound: "cm_inv hash m \<Longrightarrow> stripe_of hash m k < length m"
  by (cases m) (auto simp: cm_inv_def stripe_of_def)

lemma stripe_of_update [simp]: "stripe_of hash (m[i := s]) k = stripe_of hash m k"
  by (simp add: stripe_of_def)

text \<open>Replacing the stripe of a key by one whose other keys were there before.\<close>

lemma cm_inv_update:
  assumes "cm_inv hash m" and "i = stripe_of hash m k"
    and "distinct (map fst s)" and "fst ` set s \<subseteq> insert k (fst ` set (m ! i))"
  shows "cm_inv hash (m[i := s])"
  unfolding cm_inv_def
proof (intro conjI allI impI)
  show "m[i := s] \<noteq> []" using assms(1) by (simp add: cm_inv_def)
next
  fix j
  assume j: "j < length (m[i := s])"
  then have old: "distinct (map fst (m ! j))" "\<forall>x \<in> fst ` set (m ! j). stripe_of hash m x = j"
    using assms(1) by (auto simp: cm_inv_def)
  from j old assms(3) show "distinct (map fst (m[i := s] ! j))" by (cases "j = i") auto
  show "\<forall>x \<in> fst ` set (m[i := s] ! j). stripe_of hash (m[i := s]) x = j"
  proof (cases "j = i")
    case True
    with j assms(4) have "fst ` set (m[i := s] ! j) \<subseteq> insert k (fst ` set (m ! j))" by simp
    with old(2) assms(2) True show ?thesis by (simp only: stripe_of_update) blast
  qed (use old(2) in simp)
qed

lemma cm_find_update:
  assumes "cm_inv hash m" and "i = stripe_of hash m k"
    and "\<And>k'. k' \<noteq> k \<Longrightarrow> map_of s k' = map_of (m ! i) k'"
  shows "cm_find hash (m[i := s]) = (cm_find hash m)(k := map_of s k)"
  using assms stripe_bound [OF assms(1), of k] by (auto simp: cm_find_def nth_list_update)

subsection \<open>The interface of a dictionary\<close>

text \<open>
  What the session manager relies on. The content is the partial function \<open>find m\<close>.
\<close>

locale dictionary =
  fixes ok :: "'m \<Rightarrow> bool"
    and find :: "'m \<Rightarrow> 'k \<Rightarrow> 'v option"
    and insert_under :: "'k \<Rightarrow> 'v \<Rightarrow> nat \<Rightarrow> 'm \<Rightarrow> bool \<times> 'm"
    and erase :: "'k \<Rightarrow> 'm \<Rightarrow> bool \<times> 'm"
    and mutate :: "'k \<Rightarrow> ('v \<Rightarrow> 'v) \<Rightarrow> 'm \<Rightarrow> bool \<times> 'm"
    and keys :: "'m \<Rightarrow> 'k list"
    and size :: "'m \<Rightarrow> nat"
  assumes keys_law: "ok m \<Longrightarrow> distinct (keys m) \<and> set (keys m) = dom (find m)"
    and size_law: "ok m \<Longrightarrow> size m = card (dom (find m))"
    and insert_law: "ok m \<Longrightarrow> insert_under k v b m =
       (if b \<le> size m then (False, m) else (True, snd (insert_under k v b m))) \<and>
       ok (snd (insert_under k v b m)) \<and>
       (size m < b \<longrightarrow> find (snd (insert_under k v b m)) = (find m)(k \<mapsto> v))"
    and erase_law: "ok m \<Longrightarrow> (fst (erase k m) \<longleftrightarrow> find m k \<noteq> None) \<and>
       ok (snd (erase k m)) \<and> find (snd (erase k m)) = (find m)(k := None)"
    and mutate_law: "ok m \<Longrightarrow> (fst (mutate k f m) \<longleftrightarrow> find m k \<noteq> None) \<and>
       ok (snd (mutate k f m)) \<and> find (snd (mutate k f m)) = (find m)(k := map_option f (find m k))"
begin

lemma dom_finite: "ok m \<Longrightarrow> finite (dom (find m))"
  using keys_law by (metis List.finite_set)

text \<open>A loop that erases the keys of a list that a test on the value selects, and counts them.\<close>

lemma erase_loop:
  assumes "ok m" and "distinct ks" and "\<And>k m'. P k m' \<longleftrightarrow> (\<exists>v. find m' k = Some v \<and> Q v)"
  defines "loop \<equiv> fold (\<lambda>k (n, m). if P k m then (n + 1, snd (erase k m)) else (n, m))"
  shows "ok (snd (loop ks (n, m))) \<and>
    find (snd (loop ks (n, m))) =
      (\<lambda>k. if k \<in> set ks \<and> (\<exists>v. find m k = Some v \<and> Q v) then None else find m k) \<and>
    fst (loop ks (n, m)) = n + card {k \<in> set ks. \<exists>v. find m k = Some v \<and> Q v}"
  using assms(1,2)
proof (induction ks arbitrary: n m)
  case (Cons k ks)
  let ?S = "\<lambda>m. {j \<in> set ks. \<exists>v. find m j = Some v \<and> Q v}"
  show ?case
  proof (cases "P k m")
    case True
    let ?m = "snd (erase k m)"
    have e: "ok ?m" "find ?m = (find m)(k := None)" using erase_law [OF Cons.prems(1)] by auto
    have sel: "\<exists>v. find m k = Some v \<and> Q v" using True assms(3) by blast
    have "?S ?m = ?S m" using Cons.prems(2) e(2) by auto
    moreover have "{j \<in> set (k # ks). \<exists>v. find m j = Some v \<and> Q v} = insert k (?S m)" using sel by auto
    ultimately show ?thesis
      using Cons.IH [OF e(1), of "n + 1"] Cons.prems(2) True sel unfolding e(2) by (auto simp: loop_def fun_eq_iff)
  next
    case False
    then have "\<not> (\<exists>v. find m k = Some v \<and> Q v)" using assms(3) by blast
    then have "{j \<in> set (k # ks). \<exists>v. find m j = Some v \<and> Q v} = ?S m" by auto
    then show ?thesis using Cons.IH [OF Cons.prems(1), of n] Cons.prems(2) False assms(3) [of k m]
      by (auto simp: loop_def fun_eq_iff)
  qed
qed (auto simp: loop_def)

end

subsection \<open>The striped map is a dictionary\<close>

lemma update_inv:
  assumes "cm_inv hash m" and "i = stripe_of hash m k"
  shows "cm_inv hash (m[i := AList.update k v (m ! i)])"
    and "cm_find hash (m[i := AList.update k v (m ! i)]) = (cm_find hash m)(k \<mapsto> v)"
proof -
  have d: "distinct (map fst (m ! i))" using assms stripe_bound [OF assms(1), of k] by (simp add: cm_inv_def)
  show "cm_inv hash (m[i := AList.update k v (m ! i)])"
    using assms d by (intro cm_inv_update) (auto simp: distinct_update dom_update)
  show "cm_find hash (m[i := AList.update k v (m ! i)]) = (cm_find hash m)(k \<mapsto> v)"
    using cm_find_update [OF assms, of "AList.update k v (m ! i)"] by (simp add: update_conv)
qed

lemma delete_inv:
  assumes "cm_inv hash m" and "i = stripe_of hash m k"
  shows "cm_inv hash (m[i := AList.delete k (m ! i)])"
    and "cm_find hash (m[i := AList.delete k (m ! i)]) = (cm_find hash m)(k := None)"
proof -
  have d: "distinct (map fst (m ! i))" using assms stripe_bound [OF assms(1), of k] by (simp add: cm_inv_def)
  have keys: "fst ` set (AList.delete k (m ! i)) \<subseteq> fst ` set (m ! i)"
    using delete_keys [of k "m ! i"] by (metis list.set_map set_removeAll Diff_subset)
  show "cm_inv hash (m[i := AList.delete k (m ! i)])"
    using assms d keys by (intro cm_inv_update) (auto simp: distinct_delete)
  show "cm_find hash (m[i := AList.delete k (m ! i)]) = (cm_find hash m)(k := None)"
    using cm_find_update [OF assms, of "AList.delete k (m ! i)"] by (simp add: delete_conv)
qed

lemma cm_keys_set:
  assumes "cm_inv hash m"
  shows "set (cm_keys m) = dom (cm_find hash m)"
proof (intro equalityI subsetI)
  fix k
  assume "k \<in> set (cm_keys m)"
  then obtain x where x: "x \<in> set m" "k \<in> fst ` set x" by (auto simp: cm_keys_def)
  then obtain i where "i < length m" "m ! i = x" by (auto simp: in_set_conv_nth)
  with x(2) have i: "i < length m" "k \<in> fst ` set (m ! i)" by simp_all
  with assms have "stripe_of hash m k = i" by (auto simp: cm_inv_def)
  with i show "k \<in> dom (cm_find hash m)" by (simp add: cm_find_def dom_map_of_conv_image_fst [symmetric] domIff)
next
  fix k
  assume "k \<in> dom (cm_find hash m)"
  then have "k \<in> fst ` set (m ! stripe_of hash m k)"
    by (simp add: cm_find_def dom_map_of_conv_image_fst [symmetric] domIff)
  with stripe_bound [OF assms, of k] show "k \<in> set (cm_keys m)" by (force simp: cm_keys_def)
qed

lemma cm_contains_find: "cm_contains hash k m \<longleftrightarrow> cm_find hash m k \<noteq> None"
  by (simp add: cm_contains_def cm_find_def map_of_eq_None_iff del: not_None_eq)

lemma cm_keys_distinct:
  assumes "cm_inv hash m"
  shows "distinct (cm_keys m)"
proof -
  have "distinct (concat (map (map fst) xs))"
    if "\<forall>i < length xs. distinct (map fst (xs ! i)) \<and> (\<forall>k \<in> fst ` set (xs ! i). f k = i + c)" for xs :: "('a, 'b) cmap" and f c
    using that
  proof (induction xs arbitrary: c)
    case (Cons x xs)
    have "\<forall>i < length xs. distinct (map fst (xs ! i)) \<and> (\<forall>k \<in> fst ` set (xs ! i). f k = i + Suc c)"
    proof (intro allI impI)
      fix i
      assume "i < length xs"
      with Cons.prems [rule_format, of "Suc i"]
      show "distinct (map fst (xs ! i)) \<and> (\<forall>k \<in> fst ` set (xs ! i). f k = i + Suc c)" by simp
    qed
    note tl = this
    have "distinct (map fst x)" "\<forall>k \<in> fst ` set x. f k = c" using Cons.prems [rule_format, of 0] by auto
    moreover have "\<forall>k \<in> set (concat (map (map fst) xs)). f k > c"
    proof
      fix k
      assume "k \<in> set (concat (map (map fst) xs))"
      then obtain y where "y \<in> set xs" "k \<in> fst ` set y" by auto
      moreover from this obtain i where "i < length xs" "xs ! i = y" by (auto simp: in_set_conv_nth)
      ultimately have "f k = i + Suc c" using tl by blast
      then show "f k > c" by simp
    qed
    ultimately show ?case using Cons.IH [OF tl] by fastforce
  qed simp
  from this [of m "stripe_of hash m" 0] assms show ?thesis by (simp add: cm_keys_def cm_inv_def)
qed

lemma cm_size_card: "cm_inv hash m \<Longrightarrow> cm_size m = card (dom (cm_find hash m))"
  using distinct_card [OF cm_keys_distinct, of hash m]
  by (simp add: cm_keys_set) (simp add: cm_size_def cm_keys_def length_concat comp_def)

lemma cm_mutate_laws:
  assumes "cm_inv hash m"
  shows "(fst (cm_mutate hash k f m) \<longleftrightarrow> cm_find hash m k \<noteq> None) \<and> cm_inv hash (snd (cm_mutate hash k f m)) \<and>
     cm_find hash (snd (cm_mutate hash k f m)) = (cm_find hash m)(k := map_option f (cm_find hash m k))"
proof (cases "cm_find hash m k")
  case None
  then have "map_of (m ! stripe_of hash m k) k = None" by (simp add: cm_find_def)
  with None assms show ?thesis by (simp add: cm_mutate_def Let_def) (metis fun_upd_triv)
next
  case (Some v)
  then have "map_of (m ! stripe_of hash m k) k = Some v" by (simp add: cm_find_def)
  with Some assms show ?thesis by (simp add: cm_mutate_def Let_def update_inv)
qed

interpretation cm: dictionary "cm_inv hash" "cm_find hash" "insert_if_under hash" "cm_erase hash" "cm_mutate hash"
  cm_keys cm_size
proof
  fix m :: "('a, 'b) cmap"
  assume ok: "cm_inv hash m"
  show "distinct (cm_keys m) \<and> set (cm_keys m) = dom (cm_find hash m)"
    using ok by (simp add: cm_keys_distinct cm_keys_set)
  show "cm_size m = card (dom (cm_find hash m))" using ok by (rule cm_size_card)
  show "insert_if_under hash k v b m =
       (if b \<le> cm_size m then (False, m) else (True, snd (insert_if_under hash k v b m))) \<and>
       cm_inv hash (snd (insert_if_under hash k v b m)) \<and>
       (cm_size m < b \<longrightarrow> cm_find hash (snd (insert_if_under hash k v b m)) = (cm_find hash m)(k \<mapsto> v))" for k v b
    using ok by (simp add: insert_if_under_def cm_insert_def Let_def update_inv)
  show "(fst (cm_erase hash k m) \<longleftrightarrow> cm_find hash m k \<noteq> None) \<and> cm_inv hash (snd (cm_erase hash k m)) \<and>
      cm_find hash (snd (cm_erase hash k m)) = (cm_find hash m)(k := None)" for k
    using ok by (simp add: cm_erase_def Let_def delete_inv) (simp add: cm_find_def)
  show "(fst (cm_mutate hash k f m) \<longleftrightarrow> cm_find hash m k \<noteq> None) \<and> cm_inv hash (snd (cm_mutate hash k f m)) \<and>
     cm_find hash (snd (cm_mutate hash k f m)) = (cm_find hash m)(k := map_option f (cm_find hash m k))" for k f
    using ok by (rule cm_mutate_laws)
qed

subsection \<open>Concurrent \<open>insert_if_under\<close>\<close>

text \<open>
  \<open>CScan k v i tot\<close>: inside \<open>size\<close>, about to lock stripe \<open>i\<close>; \<open>CInsert k v\<close>: the check has passed.
\<close>

datatype ('k, 'v) cm_pc = CIdle | CScan 'k 'v nat nat | CInsert 'k 'v

record ('k, 'v) cm_sys =
  cmap :: "('k, 'v) cmap"
  cm_pcs :: "('k, 'v) cm_pc list"

datatype 'k cm_event = Inserted tid 'k | Full tid 'k

definition cm_init :: "nat \<Rightarrow> ('k, 'v) cm_sys \<Rightarrow> bool" where
  "cm_init n s \<longleftrightarrow> cmap s = cm_new n \<and> cm_pcs s \<noteq> [] \<and> set (cm_pcs s) = {CIdle}"

inductive cm_step :: "('k \<Rightarrow> nat) \<Rightarrow> nat \<Rightarrow> ('k, 'v) cm_sys \<Rightarrow> 'k cm_event label \<Rightarrow> ('k, 'v) cm_sys \<Rightarrow> bool"
  for hash max_size where
  cm_begin: "t < length (cm_pcs s) \<Longrightarrow> cm_pcs s ! t = CIdle \<Longrightarrow>
     cm_step hash max_size s Tau (s\<lparr>cm_pcs := (cm_pcs s)[t := CScan k v 0 0]\<rparr>)"
| cm_scan: "t < length (cm_pcs s) \<Longrightarrow> cm_pcs s ! t = CScan k v i tot \<Longrightarrow> i < length (cmap s) \<Longrightarrow>
     cm_step hash max_size s Tau (s\<lparr>cm_pcs := (cm_pcs s)[t := CScan k v (i + 1) (tot + length (cmap s ! i))]\<rparr>)"
| cm_full: "t < length (cm_pcs s) \<Longrightarrow> cm_pcs s ! t = CScan k v i tot \<Longrightarrow> \<not> i < length (cmap s) \<Longrightarrow>
     tot \<ge> max_size \<Longrightarrow>
     cm_step hash max_size s (Act (Full t k)) (s\<lparr>cm_pcs := (cm_pcs s)[t := CIdle]\<rparr>)"
| cm_pass: "t < length (cm_pcs s) \<Longrightarrow> cm_pcs s ! t = CScan k v i tot \<Longrightarrow> \<not> i < length (cmap s) \<Longrightarrow>
     \<not> tot \<ge> max_size \<Longrightarrow>
     cm_step hash max_size s Tau (s\<lparr>cm_pcs := (cm_pcs s)[t := CInsert k v]\<rparr>)"
| cm_do_insert: "t < length (cm_pcs s) \<Longrightarrow> cm_pcs s ! t = CInsert k v \<Longrightarrow>
     cm_step hash max_size s (Act (Inserted t k))
       (s\<lparr>cmap := snd (cm_insert hash k v (cmap s)), cm_pcs := (cm_pcs s)[t := CIdle]\<rparr>)"

text \<open>
  A thread is at risk when it may still insert: the entries it has counted and those it has yet to count
  are below the limit.
\<close>

fun at_risk :: "nat \<Rightarrow> ('k, 'v) cmap \<Rightarrow> ('k, 'v) cm_pc \<Rightarrow> bool" where
  "at_risk b m CIdle \<longleftrightarrow> False"
| "at_risk b m (CScan k v i tot) \<longleftrightarrow> tot + cm_size (drop i m) < b"
| "at_risk b m (CInsert k v) \<longleftrightarrow> True"

definition risky :: "nat \<Rightarrow> ('k, 'v) cm_sys \<Rightarrow> tid set" where
  "risky b s = {t. t < length (cm_pcs s) \<and> at_risk b (cmap s) (cm_pcs s ! t)}"

definition cap_inv :: "('k \<Rightarrow> nat) \<Rightarrow> nat \<Rightarrow> nat \<Rightarrow> ('k, 'v) cm_sys \<Rightarrow> bool" where
  "cap_inv hash b n s \<longleftrightarrow> cm_inv hash (cmap s) \<and> length (cm_pcs s) = n \<and>
     cm_size (cmap s) + card (risky b s) < b + n"

lemma length_update: "length (AList.update k v xs) = (if k \<in> fst ` set xs then length xs else length xs + 1)"
  by (induction xs) auto

lemma cm_size_update: "i < length m \<Longrightarrow> cm_size (m[i := s]) + length (m ! i) = cm_size m + length s"
  unfolding cm_size_def by (induction m arbitrary: i) (auto split: nat.split)

lemma cm_size_drop: "i < length m \<Longrightarrow> cm_size (drop i m) = length (m ! i) + cm_size (drop (Suc i) m)"
  by (simp add: cm_size_def Cons_nth_drop_Suc [symmetric])

lemma cm_size_drop_mono:
  assumes "j < length m" and "length (m ! j) \<le> length s"
  shows "cm_size (drop i m) \<le> cm_size (drop i (m[j := s]))"
proof (cases "i \<le> j")
  case True
  then have "drop i (m[j := s]) = (drop i m)[j - i := s]" by (simp add: drop_update_swap)
  moreover have "j - i < length (drop i m)" "drop i m ! (j - i) = m ! j" using assms(1) True by auto
  ultimately show ?thesis using cm_size_update [of "j - i" "drop i m" s] assms(2) by simp
qed (simp add: drop_update_cancel)

lemma cm_insert_sizes:
  fixes k :: 'k and v :: 'v
  assumes "cm_inv hash m"
  defines "m' \<equiv> snd (cm_insert hash k v m)"
  shows "cm_inv hash m'" and "cm_size m' \<le> cm_size m + 1" and "cm_size (drop i m) \<le> cm_size (drop i m')"
    and "length m' = length m"
proof -
  let ?j = "stripe_of hash m k" and ?u = "AList.update k v (m ! stripe_of hash m k)"
  have m': "m' = m[?j := ?u]" by (simp add: m'_def cm_insert_def Let_def)
  have j: "?j < length m" using assms(1) by (rule stripe_bound)
  have u: "length (m ! ?j) \<le> length ?u" "length ?u \<le> length (m ! ?j) + 1" by (simp_all add: length_update)
  show "cm_inv hash m'" unfolding m' using assms(1) by (simp add: update_inv)
  show "cm_size m' \<le> cm_size m + 1" unfolding m' using cm_size_update [OF j, of ?u] u by linarith
  show "cm_size (drop i m) \<le> cm_size (drop i m')" unfolding m' using j u(1) by (rule cm_size_drop_mono)
  show "length m' = length m" by (simp add: m')
qed

lemma risky_bound: "card (risky b s) \<le> length (cm_pcs s)"
proof -
  have "card (risky b s) \<le> card {..< length (cm_pcs s)}" by (rule card_mono) (auto simp: risky_def)
  then show ?thesis by simp
qed

lemma risky_local:
  assumes "at_risk b (cmap s) pc \<longrightarrow> at_risk b (cmap s) (cm_pcs s ! t)"
  shows "card (risky b (s\<lparr>cm_pcs := (cm_pcs s)[t := pc]\<rparr>)) \<le> card (risky b s)"
proof (rule card_mono)
  show "finite (risky b s)" by (simp add: risky_def)
  show "risky b (s\<lparr>cm_pcs := (cm_pcs s)[t := pc]\<rparr>) \<subseteq> risky b s"
  proof
    fix x
    assume "x \<in> risky b (s\<lparr>cm_pcs := (cm_pcs s)[t := pc]\<rparr>)"
    with assms show "x \<in> risky b s" by (cases "x = t") (auto simp: risky_def)
  qed
qed

lemma risky_insert:
  assumes "cm_inv hash (cmap s)" and "t < length (cm_pcs s)" and "cm_pcs s ! t = CInsert k v"
  shows "card (risky b (s\<lparr>cmap := snd (cm_insert hash k v (cmap s)), cm_pcs := (cm_pcs s)[t := CIdle]\<rparr>)) + 1
     \<le> card (risky b s)"
proof -
  let ?m = "snd (cm_insert hash k v (cmap s))"
  have mono: "at_risk b (cmap s) pc" if "at_risk b ?m pc" for pc
  proof (cases pc)
    case (CScan k' v' i tot)
    with that cm_insert_sizes(3) [OF assms(1), of i k v] show ?thesis by simp
  qed (use that in auto)
  have "risky b (s\<lparr>cmap := ?m, cm_pcs := (cm_pcs s)[t := CIdle]\<rparr>) \<subseteq> risky b s - {t}"
  proof
    fix x
    assume "x \<in> risky b (s\<lparr>cmap := ?m, cm_pcs := (cm_pcs s)[t := CIdle]\<rparr>)"
    with assms(2) mono show "x \<in> risky b s - {t}" by (cases "x = t") (simp_all add: risky_def)
  qed
  moreover have "t \<in> risky b s" "finite (risky b s)" using assms by (simp_all add: risky_def)
  ultimately show ?thesis
    by (metis (no_types, lifting) Suc_eq_plus1 Suc_leI card_Diff1_less card_mono finite_Diff le_less_trans)
qed

lemma cap_inv_step:
  assumes "cap_inv hash b n s" and "cm_step hash b s l u"
  shows "cap_inv hash b n u"
  using assms(2)
proof cases
  case (cm_begin t k v)
  show ?thesis
  proof (cases "cm_size (cmap s) < b")
    case True
    then show ?thesis using assms(1) cm_begin risky_bound [of b u] by (simp add: cap_inv_def)
  next
    case False
    then show ?thesis using assms(1) cm_begin risky_local [of b s "CScan k v 0 0" t] by (simp add: cap_inv_def)
  qed
next
  case (cm_scan t k v i tot)
  then show ?thesis
    using assms(1) risky_local [of b s "CScan k v (i + 1) (tot + length (cmap s ! i))" t]
    by (simp add: cap_inv_def cm_size_drop)
next
  case (cm_full t k v i tot)
  then show ?thesis using assms(1) risky_local [of b s CIdle t] by (simp add: cap_inv_def)
next
  case (cm_pass t k v i tot)
  then show ?thesis
    using assms(1) risky_local [of b s "CInsert k v" t] by (simp add: cap_inv_def cm_size_def)
next
  case (cm_do_insert t k v)
  then show ?thesis
    using assms(1) cm_insert_sizes(1,2) [of hash "cmap s" k v] risky_insert [of hash s t k v b] by (simp add: cap_inv_def)
qed

interpretation cap: lts_invariant "\<lambda>s. 0 < stripes \<and> length (cm_pcs s) = n \<and> cm_init stripes s" "cm_step hash b" "cap_inv hash b n"
proof
  fix s :: "('a, 'b) cm_sys"
  assume "0 < stripes \<and> length (cm_pcs s) = n \<and> cm_init stripes s"
  then have c: "0 < stripes" "cmap s = cm_new stripes" "length (cm_pcs s) = n" "0 < n" "set (cm_pcs s) = {CIdle}"
    unfolding cm_init_def by auto
  have "cm_pcs s ! t = CIdle" if "t < length (cm_pcs s)" for t using c(5) nth_mem [OF that] by simp
  then have "risky b s = {}" by (simp add: risky_def)
  with c show "cap_inv hash b n s" by (simp add: cap_inv_def cm_inv_new)
qed (rule cap_inv_step)

lemma cmap_laws:
  assumes "cm_inv hash m"
  shows "cm_find hash (snd (cm_insert hash k v m)) = (cm_find hash m)(k \<mapsto> v) \<and>
      (fst (cm_insert hash k v m) \<longleftrightarrow> cm_find hash m k = None) \<and> cm_inv hash (snd (cm_insert hash k v m))"
    and "cm_find hash (snd (cm_erase hash k m)) = (cm_find hash m)(k := None) \<and>
      (fst (cm_erase hash k m) \<longleftrightarrow> cm_find hash m k \<noteq> None) \<and> cm_inv hash (snd (cm_erase hash k m))"
    and "cm_find hash (snd (cm_mutate hash k f m)) = (cm_find hash m)(k := map_option f (cm_find hash m k)) \<and>
      (fst (cm_mutate hash k f m) \<longleftrightarrow> cm_find hash m k \<noteq> None) \<and> cm_inv hash (snd (cm_mutate hash k f m))"
    and "insert_if_under hash k v b m =
      (if b \<le> card (dom (cm_find hash m)) then (False, m) else (True, snd (cm_insert hash k v m)))"
    and "(cm_contains hash k m \<longleftrightarrow> cm_find hash m k \<noteq> None) \<and> cm_size m = card (dom (cm_find hash m)) \<and>
      distinct (cm_keys m) \<and> set (cm_keys m) = dom (cm_find hash m)"
proof -
  show "cm_find hash (snd (cm_insert hash k v m)) = (cm_find hash m)(k \<mapsto> v) \<and>
      (fst (cm_insert hash k v m) \<longleftrightarrow> cm_find hash m k = None) \<and> cm_inv hash (snd (cm_insert hash k v m))"
    using assms by (simp add: cm_insert_def Let_def update_inv) (simp add: cm_find_def)
  show "insert_if_under hash k v b m =
      (if b \<le> card (dom (cm_find hash m)) then (False, m) else (True, snd (cm_insert hash k v m)))"
    using assms by (simp add: insert_if_under_def cm_size_card)
  show "(cm_contains hash k m \<longleftrightarrow> cm_find hash m k \<noteq> None) \<and> cm_size m = card (dom (cm_find hash m)) \<and>
      distinct (cm_keys m) \<and> set (cm_keys m) = dom (cm_find hash m)"
    using assms by (simp only: cm_size_card cm_keys_distinct cm_keys_set cm_contains_find)
qed (use cm.erase_law [OF assms] cm.mutate_law [OF assms] in blast)+

subsection \<open>Properties\<close>

text \<open>
  C26. Every operation of the striped map does to the content what the operation of a finite map does,
  reports correctly whether the key was there, and keeps every key in the one stripe its hash selects;
  \<open>size\<close> is the number of keys and \<open>keys\<close> lists each once.
\<close>

theorem cmap_operations:
  assumes "cm_inv hash m"
  shows "cm_find hash (snd (cm_insert hash k v m)) = (cm_find hash m)(k \<mapsto> v) \<and>
      (fst (cm_insert hash k v m) \<longleftrightarrow> cm_find hash m k = None) \<and> cm_inv hash (snd (cm_insert hash k v m)) \<and>
      cm_find hash (snd (cm_erase hash k m)) = (cm_find hash m)(k := None) \<and>
      (fst (cm_erase hash k m) \<longleftrightarrow> cm_find hash m k \<noteq> None) \<and> cm_inv hash (snd (cm_erase hash k m)) \<and>
      cm_find hash (snd (cm_mutate hash k f m)) = (cm_find hash m)(k := map_option f (cm_find hash m k)) \<and>
      (fst (cm_mutate hash k f m) \<longleftrightarrow> cm_find hash m k \<noteq> None) \<and> cm_inv hash (snd (cm_mutate hash k f m)) \<and>
      insert_if_under hash k v b m =
      (if b \<le> card (dom (cm_find hash m)) then (False, m) else (True, snd (cm_insert hash k v m))) \<and>
      (cm_contains hash k m \<longleftrightarrow> cm_find hash m k \<noteq> None) \<and> cm_size m = card (dom (cm_find hash m)) \<and>
      distinct (cm_keys m) \<and> set (cm_keys m) = dom (cm_find hash m)"
  using cmap_laws [OF assms] by blast

theorem cmap_operations_witness:
  "cm_find id (snd (cm_insert id (1 :: nat) ''a'' [[(0, ''b'')], [(1, ''c'')]])) 0 = Some ''b'' \<and>
   card (dom (cm_find id [[(0 :: nat, ''b'')], [(1, ''c'')]])) = 2"
proof -
  have inv: "cm_inv id [[(0 :: nat, ''b'')], [(1, ''c'')]]"
    by (auto simp: cm_inv_def stripe_of_def less_Suc_eq)
  show ?thesis
    using cmap_operations [OF inv, of 1 "''a''"]
    by (simp add: cm_size_def numeral_2_eq_2) (simp add: cm_find_def stripe_of_def)
qed

text \<open>
  C27. The capacity check of \<open>insert_if_under\<close> is not atomic with the insertion, and this is all that can
  go wrong: when \<open>n\<close> threads insert into a map that starts empty, its size exceeds the limit by at most
  \<open>n - 1\<close>, whatever the interleaving of the scans and the insertions.
\<close>

theorem capacity_overshoot_bounded:
  assumes "cm_init stripes s0" and "0 < stripes" and "trace (cm_step hash max_size) s0 es s"
  shows "cm_size (cmap s) < max_size + length (cm_pcs s0)"
proof -
  have "cap_inv hash max_size (length (cm_pcs s0)) s0" using assms(1,2) by (simp add: cap.inv_init [of stripes])
  from cap.trace_inv [OF assms(3) this] show ?thesis by (simp add: cap_inv_def)
qed

text \<open>The bound is reached: two threads scan the empty map, then both insert into a map limited to one entry.\<close>

definition two_inserters :: "(nat, string) cm_sys" where
  "two_inserters = \<lparr>cmap = [[]], cm_pcs = [CIdle, CIdle]\<rparr>"

definition overfull :: "(nat, string) cm_sys" where
  "overfull = \<lparr>cmap = [[(1, ''a''), (2, ''b'')]], cm_pcs = [CIdle, CIdle]\<rparr>"

lemma overfull_run: "trace (cm_step id 1) two_inserters [Inserted 0 1, Inserted 1 2] overfull"
proof -
  let ?s = "\<lambda>m p q. \<lparr>cmap = m, cm_pcs = [p, q]\<rparr> :: (nat, string) cm_sys"
  let ?e = "[[]] :: (nat, string) cmap" and ?st = "cm_step id 1 :: (nat, string) cm_sys \<Rightarrow> _ \<Rightarrow> _ \<Rightarrow> bool"
  have a1: "?st (?s ?e CIdle q) Tau (?s ?e (CScan 1 ''a'' 0 0) q)" for q
    using cm_begin [of 0 "?s ?e CIdle q" id 1 1 "''a''"] by simp
  have a2: "?st (?s ?e (CScan 1 ''a'' 0 0) q) Tau (?s ?e (CScan 1 ''a'' 1 0) q)" for q
    using cm_scan [of 0 "?s ?e (CScan 1 ''a'' 0 0) q" 1 "''a''" 0 0 id 1] by simp
  have a3: "?st (?s ?e (CScan 1 ''a'' 1 0) q) Tau (?s ?e (CInsert 1 ''a'') q)" for q
    using cm_pass [of 0 "?s ?e (CScan 1 ''a'' 1 0) q" 1 "''a''" 1 0 1 id] by simp
  have b1: "?st (?s ?e p CIdle) Tau (?s ?e p (CScan 2 ''b'' 0 0))" for p
    using cm_begin [of 1 "?s ?e p CIdle" id 1 2 "''b''"] by simp
  have b2: "?st (?s ?e p (CScan 2 ''b'' 0 0)) Tau (?s ?e p (CScan 2 ''b'' 1 0))" for p
    using cm_scan [of 1 "?s ?e p (CScan 2 ''b'' 0 0)" 2 "''b''" 0 0 id 1] by simp
  have b3: "?st (?s ?e p (CScan 2 ''b'' 1 0)) Tau (?s ?e p (CInsert 2 ''b''))" for p
    using cm_pass [of 1 "?s ?e p (CScan 2 ''b'' 1 0)" 2 "''b''" 1 0 1 id] by simp
  have i1: "?st (?s ?e (CInsert 1 ''a'') q) (Act (Inserted 0 1)) (?s [[(1, ''a'')]] CIdle q)" for q
    using cm_do_insert [of 0 "?s ?e (CInsert 1 ''a'') q" 1 "''a''" id 1] by (simp add: cm_insert_def stripe_of_def)
  have i2: "?st (?s [[(1, ''a'')]] CIdle (CInsert 2 ''b'')) (Act (Inserted 1 2)) overfull"
    using cm_do_insert [of 1 "?s [[(1, ''a'')]] CIdle (CInsert 2 ''b'')" 2 "''b''" id 1]
    by (simp add: cm_insert_def stripe_of_def overfull_def)
  have t0: "trace ?st two_inserters [] (?s ?e CIdle CIdle)"
    unfolding two_inserters_def by (rule trace_refl)
  note t3 = trace_tau [OF trace_tau [OF trace_tau [OF t0 a1] a2] a3]
  note t6 = trace_tau [OF trace_tau [OF trace_tau [OF t3 b1] b2] b3]
  from trace_act [OF trace_act [OF t6 i1] i2] show ?thesis by (simp add: id_def)
qed

theorem capacity_overshoot_bounded_witness:
  "cm_size (cmap overfull) < 1 + length (cm_pcs two_inserters) \<and> cm_size (cmap overfull) > 1"
  using capacity_overshoot_bounded [OF _ _ overfull_run, of 1]
  by (simp add: two_inserters_def cm_init_def cm_new_def) (simp add: overfull_def cm_size_def)

end
