(* ===== verification/Thread_Pool.thy ===== *)
theory Thread_Pool
  imports Forge_Prelude MPSC_Queue Work_Stealing_Deque Future_Promise
begin

section \<open>The work-stealing thread pool (src/src/core/thread_pool.h, thread_pool.cpp)\<close>

text \<open>
  The pool owns a submission queue and a deque per worker. Its operations call the queue and the deque
  through their models, and its lemmas use nothing of them but the laws of the interfaces
  \<open>fifo_queue\<close> and \<open>work_deque\<close>, by the interpretations \<open>mpsc_fifo_queue\<close> and \<open>wsd_deque\<close>. A container
  operation is one step of the pool's executions; the theories of the containers justify this by
  linearisation. A task is the (non-null) pointer to its closure. What a task does is left open: between
  being started and anything else happening it may submit further tasks, from the worker that runs it.

  The random choice of steal victims is a parameter (the list of the numbers the generator yields).
\<close>

type_synonym task = nat

record pool =
  num_threads :: nat
  stop :: bool
  next_worker :: "32 word"
  submission_queues :: "task mpsc list"
  deques :: "task wsd list"
  epoch :: "64 word"

subsection \<open>Construction and submission\<close>

text \<open>\<open>hw\<close> is \<open>std::thread::hardware_concurrency()\<close>, which may be 0.\<close>

definition pool_size :: "nat \<Rightarrow> nat \<Rightarrow> nat" where
  "pool_size n hw = (if n = 0 then max 1 hw else n)"

definition pool_new :: "nat \<Rightarrow> nat \<Rightarrow> addr \<Rightarrow> pool" where
  "pool_new n hw a =
     (let k = pool_size n hw
      in \<lparr>num_threads = k, stop = False, next_worker = 0,
         submission_queues = replicate k (mpsc_new a), deques = replicate k (wsd_new 0 a 1024), epoch = 0\<rparr>)"

definition push_deque :: "nat \<Rightarrow> addr \<Rightarrow> task \<Rightarrow> pool \<Rightarrow> pool option" where
  "push_deque i a x p =
     map_option (\<lambda>d. p\<lparr>deques := (deques p)[i := d]\<rparr>) (wsd_push 0 a x (deques p ! i))"

definition push_submission :: "nat \<Rightarrow> addr \<Rightarrow> task \<Rightarrow> pool \<Rightarrow> pool option" where
  "push_submission i a x p =
     map_option (\<lambda>q. p\<lparr>submission_queues := (submission_queues p)[i := q]\<rparr>)
       (mpsc_push a x (submission_queues p ! i))"

definition notify :: "pool \<Rightarrow> pool" where
  "notify p = p\<lparr>epoch := epoch p + 1\<rparr>"

text \<open>\<open>worker\<close> is \<open>t_worker_id\<close> of the calling thread, -1 outside the pool.\<close>

definition submit :: "int \<Rightarrow> addr \<Rightarrow> task \<Rightarrow> pool \<Rightarrow> pool option" where
  "submit worker a x p =
     map_option notify
       (if 0 \<le> worker \<and> worker < int (num_threads p) then push_deque (nat worker) a x p
        else let idx = unat (next_worker p) mod num_threads p
             in push_submission idx a x (p\<lparr>next_worker := next_worker p + 1\<rparr>))"

text \<open>\<open>submit_local\<close> asserts that it runs on a worker, and does not notify.\<close>

definition submit_local :: "int \<Rightarrow> addr \<Rightarrow> task \<Rightarrow> pool \<Rightarrow> pool option" where
  "submit_local worker a x p =
     (if 0 \<le> worker \<and> worker < int (num_threads p) then push_deque (nat worker) a x p else None)"

text \<open>
  The closure that \<open>submit\<close> wraps around the callable: its result or its exception goes into the promise.
\<close>

definition run_closure :: "exn + 'v \<Rightarrow> 'v shared_state \<Rightarrow> 'v list \<times> 'v shared_state" where
  "run_closure result s =
     (case result of Inr v \<Rightarrow> set_value v s | Inl e \<Rightarrow> set_exception e s)"

lemma run_closure_poll: "ss_exception s = None \<Longrightarrow> poll (snd (run_closure r s)) = Some r"
  by (auto simp: run_closure_def set_value_def set_exception_def ss_exchange_def poll_def Let_def
      split: sum.splits slot.splits)

subsection \<open>Looking for work\<close>

text \<open>A source of work returns a task or nothing; the outer \<open>None\<close> is undefined behaviour.\<close>

type_synonym source = "pool \<Rightarrow> (task option \<times> pool) option"

definition no_task :: source where
  "no_task p = Some (None, p)"

definition pop_deque :: "nat \<Rightarrow> source" where
  "pop_deque i p =
     map_option (\<lambda>(r, d). (r, p\<lparr>deques := (deques p)[i := d]\<rparr>)) (wsd_pop (deques p ! i))"

definition steal_deque :: "nat \<Rightarrow> source" where
  "steal_deque i p =
     map_option (\<lambda>(r, d). (r, p\<lparr>deques := (deques p)[i := d]\<rparr>)) (wsd_steal (deques p ! i))"

definition pop_submission :: "nat \<Rightarrow> source" where
  "pop_submission i p =
     map_option (\<lambda>(r, q). (r, p\<lparr>submission_queues := (submission_queues p)[i := q]\<rparr>))
       (mpsc_pop (submission_queues p ! i))"

text \<open>\<open>if (!task_ptr) \<dots>\<close>: the second source is asked when the first had nothing.\<close>

definition or_else :: "source \<Rightarrow> source \<Rightarrow> source" where
  "or_else f g p =
     (case f p of
        None \<Rightarrow> None
      | Some (Some x, p') \<Rightarrow> Some (Some x, p')
      | Some (None, p') \<Rightarrow> g p')"

text \<open>
  A search asks several sources, one after the other, while other threads go on. A source that holds a task now may have yielded nothing to it: a thief loses its
  compare-exchange, the owner loses the last element, a producer is between its exchange and its link, or the task came after the source was asked. \<open>missed\<close> says which sources
  did. With it a search is one step, at the moment it takes its task: by the linearisability of the containers this covers every interleaving of its asks.
\<close>

datatype place = In_deque nat | In_queue nat

definition unless_missed :: "bool \<Rightarrow> source \<Rightarrow> source" where
  "unless_missed m f = (if m then no_task else f)"

text \<open>Steal from the first victim of the list that has something, never from oneself.\<close>

fun steal_any :: "(place \<Rightarrow> bool) \<Rightarrow> nat \<Rightarrow> nat list \<Rightarrow> source" where
  "steal_any missed i [] = no_task"
| "steal_any missed i (v # vs) =
     (if v \<noteq> i then or_else (unless_missed (missed (In_deque v)) (steal_deque v)) (steal_any missed i vs) else steal_any missed i vs)"

text \<open>Steps 0 to 3 of \<open>worker_loop\<close>: \<open>tick\<close> after its increment, and what \<open>dist(rng)\<close> yields.\<close>

definition find_task :: "(place \<Rightarrow> bool) \<Rightarrow> nat \<Rightarrow> 32 word \<Rightarrow> nat list \<Rightarrow> source" where
  "find_task missed i tick victims p =
     or_else (if tick mod 64 = 0 then unless_missed (missed (In_queue i)) (pop_submission i) else no_task)
       (or_else (unless_missed (missed (In_deque i)) (pop_deque i))
         (or_else (unless_missed (missed (In_queue i)) (pop_submission i))
           (steal_any missed i (take (num_threads p * 2) victims)))) p"

text \<open>Steps 1 to 3 of \<open>try_process_one\<close>, which the wait loop of \<open>Future::get\<close> calls.\<close>

definition try_process_one :: "(place \<Rightarrow> bool) \<Rightarrow> nat \<Rightarrow> source" where
  "try_process_one missed i p =
     or_else (unless_missed (missed (In_deque i)) (pop_deque i))
       (or_else (unless_missed (missed (In_queue i)) (pop_submission i)) (steal_any missed i [0 ..< num_threads p])) p"

text \<open>Whether a worker that found nothing sleeps: nothing was signalled and its own queues are empty.\<close>

definition idle_sleeps :: "nat \<Rightarrow> 64 word \<Rightarrow> pool \<Rightarrow> bool option" where
  "idle_sleeps i snapshot p =
     map_option (\<lambda>e. epoch p = snapshot \<and> wsd_empty (deques p ! i) \<and> e) (mpsc_empty (submission_queues p ! i))"

subsection \<open>Concurrent executions\<close>

text \<open>
  A worker is in its loop (or inside a task it runs), draining its deque, draining its queue, or gone.
  The destructor sets the flag, waits until every worker is gone, and drains what is left.
\<close>

datatype worker_pc = WLoop | WDrainDeque | WDrainQueue | WExited
datatype dtor_pc = DNone | DDeques nat | DQueues nat | DDone

record pool_sys =
  pool :: pool
  workers :: "nat \<Rightarrow> worker_pc"
  dtor :: dtor_pc
  late :: bool

text \<open>\<open>late\<close> records a submission during the destructor's final drain.\<close>

datatype pool_event = Submitted task | Started task

definition pool_init :: "nat \<Rightarrow> pool_sys \<Rightarrow> bool" where
  "pool_init n s \<longleftrightarrow> (\<exists>hw k a. n = pool_size k hw \<and> pool s = pool_new k hw a) \<and>
     workers s = (\<lambda>_. WLoop) \<and> dtor s = DNone \<and> \<not> late s"

definition fresh_address :: "addr \<Rightarrow> pool \<Rightarrow> bool" where
  "fresh_address a p \<longleftrightarrow>
     (\<forall>q \<in> set (submission_queues p). heap q a = None) \<and> (\<forall>d \<in> set (deques p). wbufs d a = None)"

definition may_submit :: "pool_sys \<Rightarrow> int \<Rightarrow> bool" where
  "may_submit s w \<longleftrightarrow> (0 \<le> w \<and> w < int (num_threads (pool s)) \<longrightarrow> workers s (nat w) \<noteq> WExited)"

inductive pool_step :: "pool_sys \<Rightarrow> pool_event label \<Rightarrow> pool_sys \<Rightarrow> bool" where
  do_submit: "fresh_address a (pool s) \<Longrightarrow> may_submit s w \<Longrightarrow> submit w a x (pool s) = Some p \<Longrightarrow>
     pool_step s (Act (Submitted x)) (s\<lparr>pool := p, late := late s \<or> dtor s \<noteq> DNone\<rparr>)"
| do_submit_local: "fresh_address a (pool s) \<Longrightarrow> may_submit s w \<Longrightarrow> submit_local w a x (pool s) = Some p \<Longrightarrow>
     pool_step s (Act (Submitted x)) (s\<lparr>pool := p, late := late s \<or> dtor s \<noteq> DNone\<rparr>)"
| loop_start: "i < num_threads (pool s) \<Longrightarrow> workers s i = WLoop \<Longrightarrow> set victims \<subseteq> {..< num_threads (pool s)} \<Longrightarrow>
     find_task missed i tick victims (pool s) = Some (Some x, p) \<Longrightarrow>
     pool_step s (Act (Started x)) (s\<lparr>pool := p\<rparr>)"
| loop_idle: "i < num_threads (pool s) \<Longrightarrow> workers s i = WLoop \<Longrightarrow> set victims \<subseteq> {..< num_threads (pool s)} \<Longrightarrow>
     find_task missed i tick victims (pool s) = Some (None, p) \<Longrightarrow>
     pool_step s Tau (s\<lparr>pool := p, workers := (workers s)(i := if stop p then WDrainDeque else WLoop)\<rparr>)"
| help_start: "i < num_threads (pool s) \<Longrightarrow> workers s i \<noteq> WExited \<Longrightarrow>
     try_process_one missed i (pool s) = Some (Some x, p) \<Longrightarrow>
     pool_step s (Act (Started x)) (s\<lparr>pool := p\<rparr>)"
| help_none: "i < num_threads (pool s) \<Longrightarrow> workers s i \<noteq> WExited \<Longrightarrow>
     try_process_one missed i (pool s) = Some (None, p) \<Longrightarrow>
     pool_step s Tau (s\<lparr>pool := p\<rparr>)"
| drain_deque_start: "i < num_threads (pool s) \<Longrightarrow> workers s i = WDrainDeque \<Longrightarrow>
     pop_deque i (pool s) = Some (Some x, p) \<Longrightarrow>
     pool_step s (Act (Started x)) (s\<lparr>pool := p\<rparr>)"
| drain_deque_end: "i < num_threads (pool s) \<Longrightarrow> workers s i = WDrainDeque \<Longrightarrow>
     unless_missed m (pop_deque i) (pool s) = Some (None, p) \<Longrightarrow>
     pool_step s Tau (s\<lparr>pool := p, workers := (workers s)(i := WDrainQueue)\<rparr>)"
| drain_queue_start: "i < num_threads (pool s) \<Longrightarrow> workers s i = WDrainQueue \<Longrightarrow>
     pop_submission i (pool s) = Some (Some x, p) \<Longrightarrow>
     pool_step s (Act (Started x)) (s\<lparr>pool := p\<rparr>)"
| drain_queue_end: "i < num_threads (pool s) \<Longrightarrow> workers s i = WDrainQueue \<Longrightarrow>
     unless_missed m (pop_submission i) (pool s) = Some (None, p) \<Longrightarrow>
     pool_step s Tau (s\<lparr>pool := p, workers := (workers s)(i := WExited)\<rparr>)"
| dtor_stop: "dtor s = DNone \<Longrightarrow>
     pool_step s Tau (s\<lparr>pool := (pool s)\<lparr>stop := True, epoch := epoch (pool s) + 1\<rparr>\<rparr>)"
| dtor_joined: "dtor s = DNone \<Longrightarrow> stop (pool s) \<Longrightarrow> \<forall>i < num_threads (pool s). workers s i = WExited \<Longrightarrow>
     pool_step s Tau (s\<lparr>dtor := DDeques 0\<rparr>)"
| dtor_deque_start: "dtor s = DDeques i \<Longrightarrow> i < num_threads (pool s) \<Longrightarrow>
     pop_deque i (pool s) = Some (Some x, p) \<Longrightarrow>
     pool_step s (Act (Started x)) (s\<lparr>pool := p\<rparr>)"
| dtor_deque_next: "dtor s = DDeques i \<Longrightarrow> i < num_threads (pool s) \<Longrightarrow>
     pop_deque i (pool s) = Some (None, p) \<Longrightarrow>
     pool_step s Tau (s\<lparr>pool := p, dtor := DDeques (i + 1)\<rparr>)"
| dtor_deques_done: "dtor s = DDeques i \<Longrightarrow> \<not> i < num_threads (pool s) \<Longrightarrow>
     pool_step s Tau (s\<lparr>dtor := DQueues 0\<rparr>)"
| dtor_queue_start: "dtor s = DQueues i \<Longrightarrow> i < num_threads (pool s) \<Longrightarrow>
     pop_submission i (pool s) = Some (Some x, p) \<Longrightarrow>
     pool_step s (Act (Started x)) (s\<lparr>pool := p\<rparr>)"
| dtor_queue_next: "dtor s = DQueues i \<Longrightarrow> i < num_threads (pool s) \<Longrightarrow>
     pop_submission i (pool s) = Some (None, p) \<Longrightarrow>
     pool_step s Tau (s\<lparr>pool := p, dtor := DQueues (i + 1)\<rparr>)"
| dtor_queues_done: "dtor s = DQueues i \<Longrightarrow> \<not> i < num_threads (pool s) \<Longrightarrow>
     pool_step s Tau (s\<lparr>dtor := DDone\<rparr>)"

text \<open>The specification: a bag of the tasks that wait.\<close>

inductive bag_step :: "task multiset \<Rightarrow> pool_event \<Rightarrow> task multiset \<Rightarrow> bool" where
  bag_submit: "bag_step M (Submitted x) (add_mset x M)"
| bag_start: "bag_step (add_mset x M) (Started x) M"

fun submitted :: "pool_event \<Rightarrow> task list" where
  "submitted (Submitted x) = [x]"
| "submitted (Started x) = []"

fun started :: "pool_event \<Rightarrow> task list" where
  "started (Started x) = [x]"
| "started (Submitted x) = []"

lemma bag_trace:
  "spec_trace bag_step M es M' \<Longrightarrow>
     M + mset (concat (map submitted es)) = M' + mset (concat (map started es))"
proof (induction rule: spec_trace.induct)
  case (spec_act M es M' e M'')
  from spec_act.hyps(2) spec_act.IH show ?case by cases auto
qed simp

subsection \<open>The content of the pool\<close>

definition pool_repr :: "nat \<Rightarrow> pool \<Rightarrow> task list list \<Rightarrow> task list list \<Rightarrow> bool" where
  "pool_repr n p ds qs \<longleftrightarrow> num_threads p = n \<and> 0 < n \<and>
     length (deques p) = n \<and> length ds = n \<and> length (submission_queues p) = n \<and> length qs = n \<and>
     (\<forall>i<n. wsd_repr (deques p ! i) (ds ! i)) \<and> (\<forall>i<n. mpsc_repr (submission_queues p ! i) (qs ! i))"

definition contents :: "task list list \<Rightarrow> task list list \<Rightarrow> task multiset" where
  "contents ds qs = mset (concat ds) + mset (concat qs)"

lemma pool_repr_new: "pool_repr (pool_size k hw) (pool_new k hw a)
    (replicate (pool_size k hw) []) (replicate (pool_size k hw) [])"
  by (auto simp: pool_repr_def pool_new_def Let_def wsd_repr_new mpsc_repr_new pool_size_def)

lemma mset_concat_update:
  "i < length xss \<Longrightarrow> mset (concat (xss[i := ys])) + mset (xss ! i) = mset (concat xss) + mset ys"
proof (induction xss arbitrary: i)
  case (Cons xs xss)
  show ?case
  proof (cases i)
    case (Suc j)
    with Cons show ?thesis by (simp add: ac_simps)
  qed simp
qed simp

lemma pool_repr_deque:
  "pool_repr n p ds qs \<Longrightarrow> i < n \<Longrightarrow> wsd_repr d xs \<Longrightarrow>
     pool_repr n (p\<lparr>deques := (deques p)[i := d]\<rparr>) (ds[i := xs]) qs"
  by (auto simp: pool_repr_def nth_list_update)

lemma pool_repr_queue:
  "pool_repr n p ds qs \<Longrightarrow> i < n \<Longrightarrow> mpsc_repr q xs \<Longrightarrow>
     pool_repr n (p\<lparr>submission_queues := (submission_queues p)[i := q]\<rparr>) ds (qs[i := xs])"
  by (auto simp: pool_repr_def nth_list_update)

text \<open>
  What asking a source of work can lead to: nothing, or one task less. \<open>e\<close> tells the two apart.
\<close>

inductive outcome :: "nat \<Rightarrow> task list list \<Rightarrow> task list list \<Rightarrow> bool \<Rightarrow> bool \<Rightarrow> (task option \<times> pool) option \<Rightarrow> bool"
  for n ds qs st where
  out_none: "pool_repr n p ds qs \<Longrightarrow> stop p = st \<Longrightarrow> outcome n ds qs st True (Some (None, p))"
| out_some: "pool_repr n p ds' qs' \<Longrightarrow> stop p = st \<Longrightarrow> contents ds qs = add_mset x (contents ds' qs') \<Longrightarrow>
     \<forall>i<n. ds ! i = [] \<longrightarrow> ds' ! i = [] \<Longrightarrow> \<forall>i<n. qs ! i = [] \<longrightarrow> qs' ! i = [] \<Longrightarrow>
     outcome n ds qs st False (Some (Some x, p))"

inductive_cases outcome_NoneE: "outcome n ds qs st e (Some (None, p))"
inductive_cases outcome_SomeE: "outcome n ds qs st e (Some (Some x, p))"

text \<open>A source that has nothing exactly when \<open>E\<close> holds of the content, and never meets undefined behaviour.\<close>

definition takes :: "nat \<Rightarrow> (task list list \<Rightarrow> task list list \<Rightarrow> bool) \<Rightarrow> source \<Rightarrow> bool" where
  "takes n E f \<longleftrightarrow> (\<forall>p ds qs. pool_repr n p ds qs \<longrightarrow> outcome n ds qs (stop p) (E ds qs) (f p))"

lemma takesI: "(\<And>p ds qs. pool_repr n p ds qs \<Longrightarrow> outcome n ds qs (stop p) (E ds qs) (f p)) \<Longrightarrow> takes n E f"
  by (simp add: takes_def)

lemma takesD: "takes n E f \<Longrightarrow> pool_repr n p ds qs \<Longrightarrow> outcome n ds qs (stop p) (E ds qs) (f p)"
  by (simp add: takes_def)

lemma takes_no_task: "takes n (\<lambda>_ _. True) no_task"
  by (rule takesI) (simp add: no_task_def out_none)

lemma takes_or_else:
  assumes f: "takes n E f" and g: "takes n F g"
  shows "takes n (\<lambda>ds qs. E ds qs \<and> F ds qs) (or_else f g)"
proof (rule takesI)
  fix p ds qs
  assume r: "pool_repr n p ds qs"
  from takesD [OF f r] show "outcome n ds qs (stop p) (E ds qs \<and> F ds qs) (or_else f g p)"
  proof cases
    case (out_none p')
    with takesD [OF g out_none(3)] show ?thesis by (simp add: or_else_def)
  next
    case (out_some p' ds' qs' x)
    then show ?thesis by (auto simp: or_else_def intro: outcome.out_some)
  qed
qed

lemma takes_pop_deque:
  assumes "i < n"
  shows "takes n (\<lambda>ds qs. ds ! i = []) (pop_deque i)"
proof (rule takesI)
  fix p ds qs
  assume r: "pool_repr n p ds qs"
  then have d: "wsd_repr (deques p ! i) (ds ! i)" and len: "i < length ds"
    using assms by (auto simp: pool_repr_def)
  show "outcome n ds qs (stop p) (ds ! i = []) (pop_deque i p)"
  proof (rule wsd_deque.pop_cases [OF d])
    fix d'
    assume a: "ds ! i = []" "wsd_pop (deques p ! i) = Some (None, d')" "wsd_repr d' []"
    from pool_repr_deque [OF r assms a(3)] have "pool_repr n (p\<lparr>deques := (deques p)[i := d']\<rparr>) ds qs"
      using a(1) by (metis list_update_id)
    with a show ?thesis by (simp add: pop_deque_def out_none)
  next
    fix x ys d'
    assume a: "ds ! i = ys @ [x]" "wsd_pop (deques p ! i) = Some (Some x, d')" "wsd_repr d' ys"
    from mset_concat_update [OF len, of ys] a(1)
    have "contents ds qs = add_mset x (contents (ds[i := ys]) qs)" by (simp add: contents_def)
    with out_some [OF pool_repr_deque [OF r assms a(3)], of "stop p" ds qs x] a show ?thesis
      by (auto simp: pop_deque_def nth_list_update len)
  qed
qed

lemma takes_steal_deque:
  assumes "i < n"
  shows "takes n (\<lambda>ds qs. ds ! i = []) (steal_deque i)"
proof (rule takesI)
  fix p ds qs
  assume r: "pool_repr n p ds qs"
  then have d: "wsd_repr (deques p ! i) (ds ! i)" and len: "i < length ds"
    using assms by (auto simp: pool_repr_def)
  show "outcome n ds qs (stop p) (ds ! i = []) (steal_deque i p)"
  proof (rule wsd_deque.steal_cases [OF d])
    assume "ds ! i = []" "wsd_steal (deques p ! i) = Some (None, deques p ! i)"
    with r show ?thesis by (simp add: steal_deque_def out_none)
  next
    fix x ys d'
    assume a: "ds ! i = x # ys" "wsd_steal (deques p ! i) = Some (Some x, d')" "wsd_repr d' ys"
    from mset_concat_update [OF len, of ys] a(1)
    have "contents ds qs = add_mset x (contents (ds[i := ys]) qs)" by (simp add: contents_def)
    with out_some [OF pool_repr_deque [OF r assms a(3)], of "stop p" ds qs x] a show ?thesis
      by (auto simp: steal_deque_def nth_list_update len)
  qed
qed

lemma takes_pop_submission:
  assumes "i < n"
  shows "takes n (\<lambda>ds qs. qs ! i = []) (pop_submission i)"
proof (rule takesI)
  fix p ds qs
  assume r: "pool_repr n p ds qs"
  then have q: "mpsc_repr (submission_queues p ! i) (qs ! i)" and len: "i < length qs"
    using assms by (auto simp: pool_repr_def)
  show "outcome n ds qs (stop p) (qs ! i = []) (pop_submission i p)"
  proof (rule mpsc_fifo_queue.deq_cases [OF q])
    assume "qs ! i = []" "mpsc_pop (submission_queues p ! i) = Some (None, submission_queues p ! i)"
    with r show ?thesis by (simp add: pop_submission_def out_none)
  next
    fix x ys q'
    assume a: "qs ! i = x # ys" "mpsc_pop (submission_queues p ! i) = Some (Some x, q')" "mpsc_repr q' ys"
    from mset_concat_update [OF len, of ys] a(1)
    have "contents ds qs = add_mset x (contents ds (qs[i := ys]))" by (simp add: contents_def)
    with out_some [OF pool_repr_queue [OF r assms a(3)], of "stop p" ds qs x] a show ?thesis
      by (auto simp: pop_submission_def nth_list_update len)
  qed
qed

lemma takes_unless_missed: "takes n E f \<Longrightarrow> takes n (\<lambda>ds qs. m \<or> E ds qs) (unless_missed m f)"
  using takes_no_task by (cases m) (simp_all add: unless_missed_def)

lemma takes_steal_any:
  "set vs \<subseteq> {..<n} \<Longrightarrow> takes n (\<lambda>ds qs. \<forall>v \<in> set vs - {i}. missed (In_deque v) \<or> ds ! v = []) (steal_any missed i vs)"
proof (induction vs)
  case (Cons v vs)
  then have IH: "takes n (\<lambda>ds qs. \<forall>v \<in> set vs - {i}. missed (In_deque v) \<or> ds ! v = []) (steal_any missed i vs)" by simp
  show ?case
  proof (cases "v = i")
    case True
    with IH show ?thesis by (simp add: insert_Diff_if)
  next
    case False
    have eq: "(\<lambda>ds qs. \<forall>v \<in> set (v # vs) - {i}. missed (In_deque v) \<or> ds ! v = []) =
        (\<lambda>(ds :: task list list) (qs :: task list list). (missed (In_deque v) \<or> ds ! v = []) \<and>
          (\<forall>v \<in> set vs - {i}. missed (In_deque v) \<or> ds ! v = []))"
      using False by auto
    from Cons.prems takes_or_else [OF takes_unless_missed [OF takes_steal_deque] IH, of v "missed (In_deque v)"] show ?thesis
      unfolding eq using False by simp
  qed
qed (simp add: takes_no_task)

text \<open>What the two searches share: the own deque, the own queue, the victims.\<close>

lemma takes_search:
  assumes "i < n" and "set vs \<subseteq> {..<n}"
  shows "takes n (\<lambda>ds qs. (missed (In_deque i) \<or> ds ! i = []) \<and> (missed (In_queue i) \<or> qs ! i = []) \<and>
      (\<forall>v \<in> set vs - {i}. missed (In_deque v) \<or> ds ! v = []))
    (or_else (unless_missed (missed (In_deque i)) (pop_deque i))
      (or_else (unless_missed (missed (In_queue i)) (pop_submission i)) (steal_any missed i vs)))"
  by (intro takes_or_else takes_unless_missed takes_pop_deque takes_pop_submission takes_steal_any assms)

lemma takes_try_process_one:
  assumes "i < n"
  shows "takes n (\<lambda>ds qs. (missed (In_deque i) \<or> ds ! i = []) \<and> (missed (In_queue i) \<or> qs ! i = []) \<and>
      (\<forall>v \<in> {..<n} - {i}. missed (In_deque v) \<or> ds ! v = [])) (try_process_one missed i)"
proof (rule takesI)
  fix p ds qs
  assume r: "pool_repr n p ds qs"
  then have "num_threads p = n" by (simp add: pool_repr_def)
  with takesD [OF takes_search [OF assms, of "[0..<n]" missed] r]
  show "outcome n ds qs (stop p) ((missed (In_deque i) \<or> ds ! i = []) \<and> (missed (In_queue i) \<or> qs ! i = []) \<and>
      (\<forall>v \<in> {..<n} - {i}. missed (In_deque v) \<or> ds ! v = [])) (try_process_one missed i p)"
    by (simp add: try_process_one_def atLeast0LessThan)
qed

lemma takes_find_task:
  assumes "i < n" and "set victims \<subseteq> {..<n}"
  shows "takes n (\<lambda>ds qs. (missed (In_deque i) \<or> ds ! i = []) \<and> (missed (In_queue i) \<or> qs ! i = []) \<and>
      (\<forall>v \<in> set (take (n * 2) victims) - {i}. missed (In_deque v) \<or> ds ! v = [])) (find_task missed i tick victims)" (is "takes n ?E _")
proof -
  let ?vs = "take (n * 2) victims"
  let ?rest = "or_else (unless_missed (missed (In_deque i)) (pop_deque i))
      (or_else (unless_missed (missed (In_queue i)) (pop_submission i)) (steal_any missed i ?vs))"
  have rest: "takes n ?E ?rest" using assms(2) by (intro takes_search assms(1)) (auto dest: in_set_takeD)
  have poll: "takes n ?E (or_else (if tick mod 64 = 0 then unless_missed (missed (In_queue i)) (pop_submission i) else no_task) ?rest)"
  proof (cases "tick mod 64 = 0")
    case True
    have "(\<lambda>ds qs. (missed (In_queue i) \<or> qs ! i = []) \<and> ?E ds qs) = ?E" by auto
    with True takes_or_else [OF takes_unless_missed [OF takes_pop_submission [OF assms(1)], of "missed (In_queue i)"] rest] show ?thesis
      by (simp only: if_True simp_thms)
  next
    case False
    with takes_or_else [OF takes_no_task rest] show ?thesis by simp
  qed
  show ?thesis
  proof (rule takesI)
    fix p ds qs
    assume r: "pool_repr n p ds qs"
    then have "num_threads p = n" by (simp add: pool_repr_def)
    with takesD [OF poll r] show "outcome n ds qs (stop p) (?E ds qs) (find_task missed i tick victims p)"
      by (simp add: find_task_def)
  qed
qed

lemma push_deque_repr:
  assumes r: "pool_repr n p ds qs" and "fresh_address a p" and i: "i < n"
  shows "\<exists>p'. push_deque i a x p = Some p' \<and> pool_repr n p' (ds[i := ds ! i @ [x]]) qs"
proof -
  from r i have d: "wsd_repr (deques p ! i) (ds ! i)" and len: "i < length (deques p)" by (auto simp: pool_repr_def)
  have "wbufs (deques p ! i) a = None" using assms(2) nth_mem [OF len] by (simp add: fresh_address_def)
  from wsd_deque.push_law [OF d this] obtain d'
    where "wsd_push 0 a x (deques p ! i) = Some d'" "wsd_repr d' (ds ! i @ [x])" by blast
  with pool_repr_deque [OF r i] show ?thesis by (auto simp: push_deque_def)
qed

lemma push_submission_repr:
  assumes r: "pool_repr n p ds qs" and "fresh_address a p" and i: "i < n"
  shows "\<exists>p'. push_submission i a x p = Some p' \<and> pool_repr n p' ds (qs[i := qs ! i @ [x]])"
proof -
  from r i have q: "mpsc_repr (submission_queues p ! i) (qs ! i)" and len: "i < length (submission_queues p)"
    by (auto simp: pool_repr_def)
  have "heap (submission_queues p ! i) a = None" using assms(2) nth_mem [OF len] by (simp add: fresh_address_def)
  from mpsc_fifo_queue.enq_law [OF q this] obtain q'
    where "mpsc_push a x (submission_queues p ! i) = Some q'" "mpsc_repr q' (qs ! i @ [x])" by blast
  with pool_repr_queue [OF r i] show ?thesis by (auto simp: push_submission_def)
qed

text \<open>A submission succeeds and adds the task at the end of one deque or one queue.\<close>

lemma contents_push:
  "i < length ds \<Longrightarrow> contents (ds[i := ds ! i @ [x]]) qs = add_mset x (contents ds qs)"
  "i < length qs \<Longrightarrow> contents ds (qs[i := qs ! i @ [x]]) = add_mset x (contents ds qs)"
  using mset_concat_update [of i ds "ds ! i @ [x]"] mset_concat_update [of i qs "qs ! i @ [x]"]
  by (auto simp: contents_def)

lemma notify_repr: "pool_repr n p ds qs \<Longrightarrow> pool_repr n (notify p) ds qs"
  by (simp add: notify_def pool_repr_def)

lemma submit_repr:
  assumes r: "pool_repr n p ds qs" and f: "fresh_address a p"
  shows "\<exists>p' ds' qs'. submit w a x p = Some p' \<and> pool_repr n p' ds' qs' \<and>
    contents ds' qs' = add_mset x (contents ds qs)"
proof (cases "0 \<le> w \<and> w < int (num_threads p)")
  case True
  then have w: "nat w < n" using r by (auto simp: pool_repr_def)
  then have len: "nat w < length ds" using r by (simp add: pool_repr_def)
  from push_deque_repr [OF r f w, of x] obtain p'
    where p': "push_deque (nat w) a x p = Some p'" "pool_repr n p' (ds[nat w := ds ! nat w @ [x]]) qs" by blast
  have "submit w a x p = Some (notify p')" using True p'(1) by (simp add: submit_def)
  moreover have "pool_repr n (notify p') (ds[nat w := ds ! nat w @ [x]]) qs" using p'(2) by (rule notify_repr)
  ultimately show ?thesis using contents_push(1) [OF len] by blast
next
  case False
  let ?p = "p\<lparr>next_worker := next_worker p + 1\<rparr>" and ?i = "unat (next_worker p) mod num_threads p"
  have i: "?i < n" and r': "pool_repr n ?p ds qs" and f': "fresh_address a ?p"
    using r f by (auto simp: pool_repr_def fresh_address_def)
  from push_submission_repr [OF r' f' i, of x] obtain p'
    where p': "push_submission ?i a x ?p = Some p'" "pool_repr n p' ds (qs[?i := qs ! ?i @ [x]])" by blast
  then have "submit w a x p = Some (notify p')" using False by (auto simp: submit_def Let_def)
  moreover have "pool_repr n (notify p') ds (qs[?i := qs ! ?i @ [x]])"
    using p'(2) by (rule notify_repr)
  moreover have "?i < length qs" using i r by (simp add: pool_repr_def)
  ultimately show ?thesis using contents_push(2) by blast
qed

lemma submit_local_repr:
  assumes r: "pool_repr n p ds qs" and f: "fresh_address a p" and "submit_local w a x p = Some p'"
  shows "\<exists>ds'. pool_repr n p' ds' qs \<and> contents ds' qs = add_mset x (contents ds qs)"
proof -
  have w: "nat w < n" "push_deque (nat w) a x p = Some p'"
    using assms(3) r by (auto simp: submit_local_def pool_repr_def split: if_splits)
  then have "pool_repr n p' (ds[nat w := ds ! nat w @ [x]]) qs" using push_deque_repr [OF r f w(1), of x] by simp
  moreover have "nat w < length ds" using w(1) r by (simp add: pool_repr_def)
  ultimately show ?thesis using contents_push(1) by blast
qed

subsection \<open>The simulation\<close>

definition dtor_ok :: "nat \<Rightarrow> dtor_pc \<Rightarrow> task list list \<Rightarrow> task list list \<Rightarrow> bool" where
  "dtor_ok n pc ds qs \<longleftrightarrow>
     (case pc of
        DNone \<Rightarrow> True
      | DDeques i \<Rightarrow> (\<forall>j<n. j < i \<longrightarrow> ds ! j = [])
      | DQueues i \<Rightarrow> (\<forall>j<n. ds ! j = []) \<and> (\<forall>j<n. j < i \<longrightarrow> qs ! j = [])
      | DDone \<Rightarrow> (\<forall>j<n. ds ! j = []) \<and> (\<forall>j<n. qs ! j = []))"

definition pool_sim :: "nat \<Rightarrow> pool_sys \<Rightarrow> task multiset \<Rightarrow> bool" where
  "pool_sim n s M \<longleftrightarrow>
     (\<exists>ds qs. pool_repr n (pool s) ds qs \<and> M = contents ds qs \<and> (\<not> late s \<longrightarrow> dtor_ok n (dtor s) ds qs))"

lemma pool_simI:
  "pool_repr n (pool s) ds qs \<Longrightarrow> M = contents ds qs \<Longrightarrow> (\<not> late s \<Longrightarrow> dtor_ok n (dtor s) ds qs) \<Longrightarrow> pool_sim n s M"
  by (auto simp: pool_sim_def)

lemma dtor_ok_shrink:
  "dtor_ok n pc ds qs \<Longrightarrow> \<forall>i<n. ds ! i = [] \<longrightarrow> ds' ! i = [] \<Longrightarrow> \<forall>i<n. qs ! i = [] \<longrightarrow> qs' ! i = [] \<Longrightarrow>
     dtor_ok n pc ds' qs'"
  by (auto simp: dtor_ok_def split: dtor_pc.splits)

lemma pool_sim_init: "pool_init n s \<Longrightarrow> pool_sim n s {#}"
proof -
  assume "pool_init n s"
  then obtain hw k a where i: "n = pool_size k hw" "pool s = pool_new k hw a" "dtor s = DNone"
    by (auto simp: pool_init_def)
  show ?thesis
    by (rule pool_simI [of n s "replicate n []" "replicate n []"])
      (simp_all add: i pool_repr_new contents_def dtor_ok_def)
qed

text \<open>A source that yields a task starts it; one that yields nothing leaves the content alone.\<close>

lemma pool_sim_start:
  assumes "pool_sim n s M" and "takes n E f" and "f (pool s) = Some (Some x, p)"
  shows "\<exists>M'. bag_step M (Started x) M' \<and> pool_sim n (s\<lparr>pool := p\<rparr>) M'"
proof -
  from assms(1) obtain ds qs where r: "pool_repr n (pool s) ds qs" "M = contents ds qs"
    "\<not> late s \<longrightarrow> dtor_ok n (dtor s) ds qs" by (auto simp: pool_sim_def)
  from takesD [OF assms(2) r(1)] have "outcome n ds qs (stop (pool s)) (E ds qs) (Some (Some x, p))"
    by (simp add: assms(3))
  then show ?thesis
  proof (rule outcome_SomeE)
    fix ds' qs'
    assume o: "pool_repr n p ds' qs'" "contents ds qs = add_mset x (contents ds' qs')"
      "\<forall>i<n. ds ! i = [] \<longrightarrow> ds' ! i = []" "\<forall>i<n. qs ! i = [] \<longrightarrow> qs' ! i = []"
    have "bag_step M (Started x) (contents ds' qs')" unfolding r(2) o(2) by (rule bag_start)
    moreover have "pool_sim n (s\<lparr>pool := p\<rparr>) (contents ds' qs')"
      using o r(3) by (intro pool_simI [of n _ ds' qs']) (auto intro: dtor_ok_shrink)
    ultimately show ?thesis by blast
  qed
qed

lemma pool_sim_none:
  assumes "pool_sim n s M" and "takes n E f" and "f (pool s) = Some (None, p)"
  shows "\<exists>ds qs. pool_repr n p ds qs \<and> M = contents ds qs \<and>
    (\<not> late s \<longrightarrow> dtor_ok n (dtor s) ds qs) \<and> E ds qs"
proof -
  from assms(1) obtain ds qs where r: "pool_repr n (pool s) ds qs" "M = contents ds qs"
    "\<not> late s \<longrightarrow> dtor_ok n (dtor s) ds qs" by (auto simp: pool_sim_def)
  from takesD [OF assms(2) r(1)] have "outcome n ds qs (stop (pool s)) (E ds qs) (Some (None, p))"
    by (simp add: assms(3))
  then show ?thesis by (rule outcome_NoneE) (use r in blast)
qed

lemma pool_sim_threads: "pool_sim n s M \<Longrightarrow> num_threads (pool s) = n"
  by (auto simp: pool_sim_def pool_repr_def)

lemma pool_sim_tau:
  assumes sim: "pool_sim n s M" and "pool_step s Tau t"
  shows "pool_sim n t M"
  using assms(2)
proof cases
  case (loop_idle i victims missed tick p)
  then have "i < n" "set victims \<subseteq> {..<n}" using pool_sim_threads [OF sim] by simp_all
  from pool_sim_none [OF sim takes_find_task [OF this] loop_idle(5)] loop_idle(1) show ?thesis
    by (auto intro: pool_simI)
next
  case (help_none i missed p)
  then have "i < n" using pool_sim_threads [OF sim] by simp
  from pool_sim_none [OF sim takes_try_process_one [OF this] help_none(4)] help_none(1) show ?thesis
    by (auto intro: pool_simI)
next
  case (drain_deque_end i m p)
  then have "i < n" using pool_sim_threads [OF sim] by simp
  from pool_sim_none [OF sim takes_unless_missed [OF takes_pop_deque [OF this]] drain_deque_end(4)] drain_deque_end(1) show ?thesis
    by (auto intro: pool_simI)
next
  case (drain_queue_end i m p)
  then have "i < n" using pool_sim_threads [OF sim] by simp
  from pool_sim_none [OF sim takes_unless_missed [OF takes_pop_submission [OF this]] drain_queue_end(4)] drain_queue_end(1) show ?thesis
    by (auto intro: pool_simI)
next
  case dtor_stop
  with sim show ?thesis by (auto simp: pool_sim_def pool_repr_def)
next
  case dtor_joined
  with sim show ?thesis by (auto simp: pool_sim_def dtor_ok_def)
next
  case (dtor_deque_next i p)
  then have "i < n" using pool_sim_threads [OF sim] by simp
  from pool_sim_none [OF sim takes_pop_deque [OF this] dtor_deque_next(4)] dtor_deque_next(1,2) show ?thesis
    by (auto intro!: pool_simI simp: dtor_ok_def less_Suc_eq)
next
  case (dtor_deques_done i)
  with sim pool_sim_threads [OF sim] show ?thesis by (auto simp: pool_sim_def dtor_ok_def)
next
  case (dtor_queue_next i p)
  then have "i < n" using pool_sim_threads [OF sim] by simp
  from pool_sim_none [OF sim takes_pop_submission [OF this] dtor_queue_next(4)] dtor_queue_next(1,2) show ?thesis
    by (auto intro!: pool_simI simp: dtor_ok_def less_Suc_eq)
next
  case (dtor_queues_done i)
  with sim pool_sim_threads [OF sim] show ?thesis by (auto simp: pool_sim_def dtor_ok_def)
qed

lemma pool_sim_act:
  assumes sim: "pool_sim n s M" and "pool_step s (Act e) t"
  shows "\<exists>M'. bag_step M e M' \<and> pool_sim n t M'"
  using assms(2)
proof cases
  case (do_submit a w x p)
  from sim obtain ds qs where r: "pool_repr n (pool s) ds qs" "M = contents ds qs"
    "\<not> late s \<longrightarrow> dtor_ok n (dtor s) ds qs" by (auto simp: pool_sim_def)
  from submit_repr [OF r(1) do_submit(3), of w x] do_submit(5) obtain ds' qs'
    where "pool_repr n p ds' qs'" "contents ds' qs' = add_mset x M" using r(2) by auto
  with do_submit(1,2) show ?thesis
    by (auto intro!: exI [of _ "add_mset x M"] bag_submit pool_simI [of n _ ds' qs'] simp: dtor_ok_def)
next
  case (do_submit_local a w x p)
  from sim obtain ds qs where r: "pool_repr n (pool s) ds qs" "M = contents ds qs"
    "\<not> late s \<longrightarrow> dtor_ok n (dtor s) ds qs" by (auto simp: pool_sim_def)
  from submit_local_repr [OF r(1) do_submit_local(3,5)] obtain ds'
    where "pool_repr n p ds' qs" "contents ds' qs = add_mset x M" using r(2) by auto
  with do_submit_local(1,2) show ?thesis
    by (auto intro!: exI [of _ "add_mset x M"] bag_submit pool_simI [of n _ ds' qs] simp: dtor_ok_def)
next
  case (loop_start i victims missed tick x p)
  then have "i < n" "set victims \<subseteq> {..<n}" using pool_sim_threads [OF sim] by simp_all
  from pool_sim_start [OF sim takes_find_task [OF this] loop_start(6)] loop_start(1,2) show ?thesis by simp
next
  case (help_start i missed x p)
  then have "i < n" using pool_sim_threads [OF sim] by simp
  from pool_sim_start [OF sim takes_try_process_one [OF this] help_start(5)] help_start(1,2) show ?thesis by simp
next
  case (drain_deque_start i x p)
  then have "i < n" using pool_sim_threads [OF sim] by simp
  from pool_sim_start [OF sim takes_pop_deque [OF this] drain_deque_start(5)] drain_deque_start(1,2) show ?thesis by simp
next
  case (drain_queue_start i x p)
  then have "i < n" using pool_sim_threads [OF sim] by simp
  from pool_sim_start [OF sim takes_pop_submission [OF this] drain_queue_start(5)] drain_queue_start(1,2)
  show ?thesis by simp
next
  case (dtor_deque_start i x p)
  then have "i < n" using pool_sim_threads [OF sim] by simp
  from pool_sim_start [OF sim takes_pop_deque [OF this] dtor_deque_start(5)] dtor_deque_start(1,2) show ?thesis by simp
next
  case (dtor_queue_start i x p)
  then have "i < n" using pool_sim_threads [OF sim] by simp
  from pool_sim_start [OF sim takes_pop_submission [OF this] dtor_queue_start(5)] dtor_queue_start(1,2)
  show ?thesis by simp
qed

interpretation tp: lts_simulation "pool_init n" pool_step "pool_sim n" "{#}" bag_step
  by unfold_locales (rule pool_sim_init pool_sim_tau pool_sim_act, assumption+)+

subsection \<open>Properties\<close>

lemma pool_accounts:
  assumes "pool_init n s0" and "trace pool_step s0 es s"
  obtains M where "pool_sim n s M" and "mset (concat (map submitted es)) = M + mset (concat (map started es))"
proof -
  from tp.init_trace [OF assms] obtain M where M: "spec_trace bag_step {#} es M" "pool_sim n s M" by blast
  show thesis using bag_trace [OF M(1)] M(2) by (intro that) simp_all
qed

text \<open>
  C3. No task is lost and none runs twice: under every interleaving of submissions from inside and outside
  the pool, worker loops, helping waits, thefts and the shutdown, what was submitted is what was started
  together with what still waits in some container. When the destructor has finished and nothing was
  submitted during its final drain, every submitted task has been started exactly once.
\<close>

theorem pool_starts_each_task_once:
  assumes "pool_init n s0" and "trace pool_step s0 es s"
  shows "mset (concat (map started es)) \<subseteq># mset (concat (map submitted es)) \<and>
    (dtor s = DDone \<and> \<not> late s \<longrightarrow> mset (concat (map started es)) = mset (concat (map submitted es)))"
proof -
  obtain M where M: "pool_sim n s M" and eq: "mset (concat (map submitted es)) = M + mset (concat (map started es))"
    by (rule pool_accounts [OF assms])
  have "M = {#}" if "dtor s = DDone" "\<not> late s"
    using M that by (auto simp: pool_sim_def dtor_ok_def contents_def pool_repr_def in_set_conv_nth)
  with eq show ?thesis by simp
qed

text \<open>
  C29. Looking for work while waiting for a future meets no undefined behaviour and gives up only for a reason: in every reachable state, whichever sources the search misses because of a lost race,
  \<open>try_process_one\<close> comes back empty-handed exactly when it has missed or found empty the worker's own queue and every deque of the pool. So a helper that misses nothing
  leaves no task where it may take one.
\<close>

theorem try_process_one_complete:
  assumes "reachable (pool_init n) pool_step s" and "i < n"
  shows "\<exists>r p. try_process_one missed i (pool s) = Some (r, p) \<and>
    (r = None \<longleftrightarrow> (\<forall>j<n. missed (In_deque j) \<or> wsd_empty (deques (pool s) ! j)) \<and>
      (missed (In_queue i) \<or> mpsc_empty (submission_queues (pool s) ! i) = Some True))"
proof -
  from assms(1) obtain M where "pool_sim n s M" by (rule tp.reachable_sim)
  then obtain ds qs where r: "pool_repr n (pool s) ds qs" by (auto simp: pool_sim_def)
  have d: "wsd_empty (deques (pool s) ! j) \<longleftrightarrow> ds ! j = []" if "j < n" for j
    by (rule wsd_repr_empty) (use r that in \<open>simp add: pool_repr_def\<close>)
  have q: "mpsc_empty (submission_queues (pool s) ! i) = Some (qs ! i = [])"
    by (rule mpsc_repr_empty) (use r assms(2) in \<open>simp add: pool_repr_def\<close>)
  from takesD [OF takes_try_process_one [OF assms(2), of missed] r] show ?thesis
    by cases (use d q assms(2) in auto)
qed

text \<open>A pool with one worker: a task is submitted from outside and the worker's loop starts it.\<close>

definition pool_one :: pool_sys where
  "pool_one = \<lparr>pool = pool_new 1 1 0, workers = \<lambda>_. WLoop, dtor = DNone, late = False\<rparr>"

definition pool_queued :: pool_sys where
  "pool_queued = pool_one\<lparr>pool := the (submit (-1) 1 5 (pool pool_one))\<rparr>"

definition pool_drained :: pool_sys where
  "pool_drained = pool_one\<lparr>pool := snd (the (find_task (\<lambda>_. False) 0 1 [] (pool pool_queued)))\<rparr>"

lemmas pool_run_defs = pool_one_def pool_queued_def pool_drained_def pool_new_def pool_size_def submit_def
  push_submission_def mpsc_op_defs mpsc_push_def mpsc_pop_def mpsc_new_def notify_def find_task_def or_else_def
  no_task_def unless_missed_def pop_deque_def wsd_pop_def wsd_new_def pop_submission_def

lemma pool_one_init: "pool_init 1 pool_one"
  unfolding pool_init_def pool_one_def
  by (simp add: pool_size_def) (rule exI [of _ 1], rule exI [of _ 1], simp, rule exI [of _ 0], simp)

lemma pool_one_queued: "pool_step pool_one (Act (Submitted 5)) pool_queued"
proof -
  have fresh: "fresh_address 1 (pool pool_one)"
    by (simp add: fresh_address_def pool_one_def pool_new_def pool_size_def mpsc_new_def wsd_new_def)
  have "submit (-1) 1 5 (pool pool_one) = Some (pool pool_queued)" by (simp add: pool_run_defs Let_def)
  from do_submit [OF fresh _ this] show ?thesis by (simp add: may_submit_def pool_queued_def pool_one_def)
qed

lemma pool_one_run: "trace pool_step pool_one [Submitted 5, Started 5] pool_drained"
proof -
  have "find_task (\<lambda>_. False) 0 1 [] (pool pool_queued) = Some (Some 5, pool pool_drained)"
    by (simp add: pool_run_defs Let_def)
  from loop_start [OF _ _ _ this] have b: "pool_step pool_queued (Act (Started 5)) pool_drained"
    by (simp add: pool_drained_def pool_queued_def pool_one_def pool_run_defs Let_def)
  from trace_act [OF trace_single [of pool_step, OF pool_one_queued] b] show ?thesis by simp
qed

theorem pool_starts_each_task_once_witness:
  "mset (concat (map started [Submitted 5, Started 5])) \<subseteq># mset (concat (map submitted [Submitted 5, Started 5]))"
  using pool_starts_each_task_once [OF pool_one_init pool_one_run] by blast

theorem try_process_one_complete_witness:
  "(\<exists>p. try_process_one (\<lambda>_. True) 0 (pool pool_queued) = Some (None, p)) \<and>
   (\<exists>x p. try_process_one (\<lambda>_. False) 0 (pool pool_queued) = Some (Some x, p))"
proof -
  have q: "mpsc_empty (submission_queues (pool pool_queued) ! 0) = Some False" by (simp add: pool_run_defs mpsc_empty_def Let_def)
  have "reachable (pool_init 1) pool_step pool_queued" using pool_one_init pool_one_queued by (blast intro: reach_init reach_step)
  note c = try_process_one_complete [OF this, of 0]
  have "\<exists>p. try_process_one (\<lambda>_. True) 0 (pool pool_queued) = Some (None, p)" using c [of "\<lambda>_. True"] by auto
  moreover have "\<exists>x p. try_process_one (\<lambda>_. False) 0 (pool pool_queued) = Some (Some x, p)" using c [of "\<lambda>_. False"] q by auto
  ultimately show ?thesis by blast
qed

end
