(* ===== verification/Messages.thy ===== *)
theory Messages
  imports Forge_Prelude
begin

section \<open>Messages and their JSON form (src/src/llm/message.h)\<close>

text \<open>
  The JSON library is a parameter: a record \<open>J\<close> of the operations the code calls, and \<open>json_laws J\<close>, the
  documented behaviour of these operations that the round trip relies on. \<open>j_find\<close> is \<open>contains\<close>
  together with \<open>operator[]\<close>; a failing \<open>get<std::string>()\<close> or a \<open>value()\<close> on something that is no object
  throws, which is the left of the sum. \<open>j_dump\<close> is \<open>dump\<close> at an
  indentation and \<open>j_parse\<close> is \<open>Json::parse\<close>.
\<close>

subsection \<open>The JSON operations\<close>

record 'j json_ops =
  j_null :: 'j
  j_string :: "string \<Rightarrow> 'j"
  j_int :: "int \<Rightarrow> 'j"
  j_array :: "'j list \<Rightarrow> 'j"
  j_object :: "(string \<times> 'j) list \<Rightarrow> 'j"
  j_find :: "'j \<Rightarrow> string \<Rightarrow> 'j option"
  j_is_object :: "'j \<Rightarrow> bool"
  j_is_null :: "'j \<Rightarrow> bool"
  j_get_string :: "'j \<Rightarrow> string option"
  j_items :: "'j \<Rightarrow> 'j list"
  j_dump :: "nat \<Rightarrow> 'j \<Rightarrow> string"
  j_get_int :: "'j \<Rightarrow> int option"
  j_parse :: "string \<Rightarrow> exn + 'j"
  j_is_array :: "'j \<Rightarrow> bool"
  j_is_empty :: "'j \<Rightarrow> bool"
  j_bool :: "bool \<Rightarrow> 'j"

definition json_laws :: "('j, 'x) json_ops_scheme \<Rightarrow> bool" where
  "json_laws J \<longleftrightarrow>
     (\<forall>kvs k. distinct (map fst kvs) \<longrightarrow> j_find J (j_object J kvs) k = map_of kvs k) \<and>
     (\<forall>kvs. j_is_object J (j_object J kvs)) \<and>
     (\<forall>s. j_get_string J (j_string J s) = Some s \<and> \<not> j_is_null J (j_string J s)) \<and>
     j_is_null J (j_null J) \<and>
     (\<forall>js. j_items J (j_array J js) = js)"

text \<open>
  \<open>get<std::string>()\<close>, a number of any size, \<open>get<int>()\<close>, which comes round at 32 bits, and \<open>j.value(key, default)\<close> at a string and an integer default.
\<close>

definition get_str :: "('j, 'x) json_ops_scheme \<Rightarrow> 'j \<Rightarrow> exn + string" where
  "get_str J v = (case j_get_string J v of None \<Rightarrow> Inl (Json_exception ''type must be string'') | Some s \<Rightarrow> Inr s)"

definition get_num :: "('j, 'x) json_ops_scheme \<Rightarrow> 'j \<Rightarrow> exn + int" where
  "get_num J v = (case j_get_int J v of None \<Rightarrow> Inl (Json_exception ''type must be number'') | Some i \<Rightarrow> Inr i)"

definition narrow_int :: "int \<Rightarrow> int" where
  "narrow_int i = sint (word_of_int i :: 32 word)"

definition get_int :: "('j, 'x) json_ops_scheme \<Rightarrow> 'j \<Rightarrow> exn + int" where
  "get_int J v = try_bind (get_num J v) (\<lambda>i. Inr (narrow_int i))"

definition value_str :: "('j, 'x) json_ops_scheme \<Rightarrow> 'j \<Rightarrow> string \<Rightarrow> string \<Rightarrow> exn + string" where
  "value_str J j k d =
     (if \<not> j_is_object J j then Inl (Json_exception ''cannot use value()'')
      else case j_find J j k of None \<Rightarrow> Inr d | Some v \<Rightarrow> get_str J v)"

definition value_int :: "('j, 'x) json_ops_scheme \<Rightarrow> 'j \<Rightarrow> string \<Rightarrow> int \<Rightarrow> exn + int" where
  "value_int J j k d =
     (if \<not> j_is_object J j then Inl (Json_exception ''cannot use value()'')
      else case j_find J j k of None \<Rightarrow> Inr d | Some v \<Rightarrow> get_int J v)"

subsection \<open>The message types\<close>

record tool_call =
  tc_id :: string
  tc_name :: string
  arguments_json :: string

record tool_result =
  tr_call_id :: string
  tr_output :: string
  is_error :: bool

record message =
  role :: string
  content :: string
  tool_calls :: "tool_call list"
  tool_call_id :: string

record llm_response =
  resp_message :: message
  prompt_tokens :: "32 word"
  completion_tokens :: "32 word"
  model :: string
  resp_error :: string

definition plain_message :: "string \<Rightarrow> string \<Rightarrow> message" where
  "plain_message r c = \<lparr>role = r, content = c, tool_calls = [], tool_call_id = []\<rparr>"

definition has_tool_calls :: "message \<Rightarrow> bool" where
  "has_tool_calls m \<longleftrightarrow> tool_calls m \<noteq> []"

definition has_content :: "message \<Rightarrow> bool" where
  "has_content m \<longleftrightarrow> content m \<noteq> []"

subsection \<open>Serialisation\<close>

definition tool_call_to_json :: "('j, 'x) json_ops_scheme \<Rightarrow> tool_call \<Rightarrow> 'j" where
  "tool_call_to_json J tc =
     j_object J
       [(''id'', j_string J (tc_id tc)),
        (''type'', j_string J ''function''),
        (''function'', j_object J
           [(''name'', j_string J (tc_name tc)), (''arguments'', j_string J (arguments_json tc))])]"

definition message_to_json :: "('j, 'x) json_ops_scheme \<Rightarrow> message \<Rightarrow> 'j" where
  "message_to_json J m =
     j_object J
       ([(''role'', j_string J (role m))] @
        (if content m \<noteq> [] then [(''content'', j_string J (content m))]
         else if role m \<noteq> ''assistant'' \<or> tool_calls m = [] then [(''content'', j_null J)]
         else []) @
        (if tool_calls m \<noteq> [] then [(''tool_calls'', j_array J (map (tool_call_to_json J) (tool_calls m)))] else []) @
        (if tool_call_id m \<noteq> [] then [(''tool_call_id'', j_string J (tool_call_id m))] else []))"

definition tool_call_from_json :: "('j, 'x) json_ops_scheme \<Rightarrow> 'j \<Rightarrow> exn + tool_call" where
  "tool_call_from_json J tc =
     try_bind (value_str J tc ''id'' []) (\<lambda>i.
       case j_find J tc ''function'' of
         None \<Rightarrow> Inr \<lparr>tc_id = i, tc_name = [], arguments_json = []\<rparr>
       | Some f \<Rightarrow>
           try_bind (value_str J f ''name'' []) (\<lambda>n.
           try_bind (value_str J f ''arguments'' []) (\<lambda>a.
             Inr \<lparr>tc_id = i, tc_name = n, arguments_json = a\<rparr>)))"

fun try_map :: "('a \<Rightarrow> exn + 'b) \<Rightarrow> 'a list \<Rightarrow> exn + 'b list" where
  "try_map f [] = Inr []"
| "try_map f (x # xs) = try_bind (f x) (\<lambda>y. try_bind (try_map f xs) (\<lambda>ys. Inr (y # ys)))"

definition message_from_json :: "('j, 'x) json_ops_scheme \<Rightarrow> 'j \<Rightarrow> exn + message" where
  "message_from_json J j =
     try_bind (value_str J j ''role'' []) (\<lambda>r.
     try_bind (case j_find J j ''content'' of
                 None \<Rightarrow> Inr []
               | Some c \<Rightarrow> if j_is_null J c then Inr [] else get_str J c) (\<lambda>c.
     try_bind (case j_find J j ''tool_calls'' of
                 None \<Rightarrow> Inr []
               | Some tcs \<Rightarrow> try_map (tool_call_from_json J) (j_items J tcs)) (\<lambda>tcs.
     try_bind (case j_find J j ''tool_call_id'' of None \<Rightarrow> Inr [] | Some i \<Rightarrow> get_str J i) (\<lambda>i.
       Inr \<lparr>role = r, content = c, tool_calls = tcs, tool_call_id = i\<rparr>))))"

subsection \<open>The round trip\<close>

lemma try_map_inverse: "(\<And>x. f (g x) = Inr x) \<Longrightarrow> try_map f (map g xs) = Inr xs"
  by (induction xs) auto

lemma json_object_find:
  "json_laws J \<Longrightarrow> distinct (map fst kvs) \<Longrightarrow> j_find J (j_object J kvs) k = map_of kvs k"
  by (simp add: json_laws_def)

lemma json_leaf_laws:
  assumes "json_laws J"
  shows "j_is_object J (j_object J kvs)" and "get_str J (j_string J s) = Inr s"
    and "\<not> j_is_null J (j_string J s)" and "j_is_null J (j_null J)" and "j_items J (j_array J js) = js"
  using assms by (simp_all add: json_laws_def get_str_def)

lemma value_str_object:
  "json_laws J \<Longrightarrow> distinct (map fst kvs) \<Longrightarrow>
     value_str J (j_object J kvs) k d = (case map_of kvs k of None \<Rightarrow> Inr d | Some v \<Rightarrow> get_str J v)"
  by (simp add: value_str_def json_object_find json_leaf_laws)

lemma tool_call_roundtrip: "json_laws J \<Longrightarrow> tool_call_from_json J (tool_call_to_json J tc) = Inr tc"
  by (simp add: tool_call_from_json_def tool_call_to_json_def value_str_object json_object_find json_leaf_laws)

lemma message_roundtrip:
  assumes "json_laws J"
  shows "message_from_json J (message_to_json J m) = Inr m"
proof -
  have tcs: "try_map (tool_call_from_json J) (map (tool_call_to_json J) (tool_calls m)) = Inr (tool_calls m)"
    by (rule try_map_inverse) (rule tool_call_roundtrip [OF assms])
  show ?thesis
    using assms tcs
    by (simp add: message_from_json_def message_to_json_def value_str_object json_object_find json_leaf_laws)
qed

text \<open>
  C31. Reading back a serialised message yields the message, whichever of its fields are empty: the fields
  that \<open>to_json\<close> leaves out or writes as null are the ones \<open>from_json\<close> defaults to empty.
\<close>

theorem message_json_roundtrip:
  assumes "json_laws J"
  shows "message_from_json J (message_to_json J m) = Inr m"
  using assms by (rule message_roundtrip)

text \<open>
  A JSON value type that satisfies the laws. Its \<open>j_parse\<close> reads any text as an object with that text in
  the fields the tools look at.
\<close>

datatype jval = JNull | JBool bool | JString string | JInt int | JArray "jval list" | JObject "(string \<times> jval) list"

definition plain_json :: "jval json_ops" where
  "plain_json =
     \<lparr>j_null = JNull, j_string = JString, j_int = JInt, j_array = JArray, j_object = JObject,
      j_find = (\<lambda>j k. case j of JObject kvs \<Rightarrow> map_of kvs k | _ \<Rightarrow> None),
      j_is_object = (\<lambda>j. case j of JObject kvs \<Rightarrow> True | _ \<Rightarrow> False),
      j_is_null = (\<lambda>j. case j of JNull \<Rightarrow> True | _ \<Rightarrow> False),
      j_get_string = (\<lambda>j. case j of JString s \<Rightarrow> Some s | _ \<Rightarrow> None),
      j_items = (\<lambda>j. case j of JArray js \<Rightarrow> js | _ \<Rightarrow> []),
      j_dump = (\<lambda>_ _. []), j_get_int = (\<lambda>j. case j of JInt i \<Rightarrow> Some i | _ \<Rightarrow> None),
      j_parse = (\<lambda>s. Inr (JObject [(''expression'', JString s), (''command'', JString s), (''path'', JString s)])),
      j_is_array = (\<lambda>j. case j of JArray js \<Rightarrow> True | _ \<Rightarrow> False),
      j_is_empty = (\<lambda>j. case j of JNull \<Rightarrow> True | JArray js \<Rightarrow> js = [] | JObject kvs \<Rightarrow> kvs = [] | _ \<Rightarrow> False),
      j_bool = JBool\<rparr>"

lemma plain_json_laws: "json_laws plain_json"
  by (simp add: json_laws_def plain_json_def)

theorem message_json_roundtrip_witness:
  "message_from_json plain_json (message_to_json plain_json
     \<lparr>role = ''assistant'', content = [], tool_calls = [\<lparr>tc_id = ''c1'', tc_name = ''calculator'', arguments_json = ''{}''\<rparr>],
      tool_call_id = []\<rparr>) =
   Inr \<lparr>role = ''assistant'', content = [], tool_calls = [\<lparr>tc_id = ''c1'', tc_name = ''calculator'', arguments_json = ''{}''\<rparr>],
      tool_call_id = []\<rparr>"
  by (rule message_json_roundtrip [OF plain_json_laws])

end
