(* ===== verification/Conversation.thy ===== *)
theory Conversation
  imports Messages "HOL-Library.AList"
begin

section \<open>Conversation histories (src/src/session/conversation.h, summarizing_conversation.h)\<close>

text \<open>
  A bounded history that keeps the system message and the most recent messages, the variant that replaces
  old messages by a summary the language model writes, and the per-session token counters. The language
  model is a parameter: what the future of a request yields, or the exception that \<open>get\<close> rethrows.
\<close>

subsection \<open>The bounded history\<close>

record conversation =
  max_messages :: nat
  messages :: "message list"

definition conv_new :: "nat \<Rightarrow> conversation" where
  "conv_new n = \<lparr>max_messages = n, messages = []\<rparr>"

function evict_if_needed :: "nat \<Rightarrow> message list \<Rightarrow> message list" where
  "evict_if_needed n ms =
     (if length ms > n then
        (if length ms > 1 \<and> role (hd ms) = ''system'' then evict_if_needed n (hd ms # tl (tl ms))
         else evict_if_needed n (tl ms))
      else ms)"
  by pat_completeness auto
termination
  by (relation "measure (\<lambda>(n, ms). length ms)") auto

declare evict_if_needed.simps [simp del]

definition conv_push :: "message \<Rightarrow> conversation \<Rightarrow> conversation" where
  "conv_push m c = c\<lparr>messages := evict_if_needed (max_messages c) (messages c @ [m])\<rparr>"

text \<open>\<open>None\<close> is the undefined behaviour of \<open>back\<close> on an empty history.\<close>

definition conv_back :: "conversation \<Rightarrow> message option" where
  "conv_back c = (if messages c = [] then None else Some (last (messages c)))"

definition conv_size :: "conversation \<Rightarrow> nat" where
  "conv_size c = length (messages c)"

definition conv_to_json :: "('j, 'x) json_ops_scheme \<Rightarrow> conversation \<Rightarrow> 'j" where
  "conv_to_json J c = j_array J (map (message_to_json J) (messages c))"

definition conv_clear :: "conversation \<Rightarrow> conversation" where
  "conv_clear c = c\<lparr>messages := []\<rparr>"

definition conv_empty :: "conversation \<Rightarrow> bool" where
  "conv_empty c \<longleftrightarrow> messages c = []"

definition conv_capacity :: "conversation \<Rightarrow> nat" where
  "conv_capacity c = max_messages c"

definition conv_inv :: "conversation \<Rightarrow> bool" where
  "conv_inv c \<longleftrightarrow> length (messages c) \<le> max_messages c"

lemma evict_none: "length ms \<le> n \<Longrightarrow> evict_if_needed n ms = ms"
  by (subst evict_if_needed.simps) simp

lemma evict_bound: "length (evict_if_needed n ms) \<le> n"
proof (induction n ms rule: evict_if_needed.induct)
  case (1 n ms)
  then show ?case by (subst evict_if_needed.simps) auto
qed

text \<open>A push removes at most one message.\<close>

lemma evict_one:
  assumes "length ms = n"
  shows "evict_if_needed n (ms @ [m]) =
    (if n = 0 then [] else if role (hd ms) = ''system'' then hd ms # tl (tl ms @ [m]) else tl ms @ [m])"
proof (cases ms)
  case Nil
  with assms show ?thesis by (subst evict_if_needed.simps) (simp add: evict_none)
next
  case (Cons x xs)
  have "evict_if_needed n (x # tl (xs @ [m])) = x # tl (xs @ [m])" "evict_if_needed n (xs @ [m]) = xs @ [m]"
    using assms Cons by (auto intro!: evict_none)
  with Cons assms show ?thesis by (subst evict_if_needed.simps) auto
qed

lemma conv_push_inv: "conv_inv (conv_push m c)"
  by (simp add: conv_inv_def conv_push_def evict_bound)

lemma conv_push_messages:
  assumes "conv_inv c"
  shows "messages (conv_push m c) =
    (if length (messages c) < max_messages c then messages c @ [m]
     else if max_messages c = 0 then []
     else if role (hd (messages c)) = ''system'' then hd (messages c) # tl (tl (messages c) @ [m])
     else tl (messages c) @ [m])"
  using assms evict_one [of "messages c" "max_messages c" m]
  by (auto simp: conv_inv_def conv_push_def evict_none)

definition push_all :: "message list \<Rightarrow> conversation \<Rightarrow> conversation" where
  "push_all ms c = fold conv_push ms c"

lemma push_all_snoc: "push_all (ms @ [m]) c = conv_push m (push_all ms c)"
  by (simp add: push_all_def)

lemma push_all_max [simp]: "max_messages (push_all ms c) = max_messages c"
  unfolding push_all_def by (induction ms arbitrary: c) (simp_all add: conv_push_def)

lemma push_all_inv: "conv_inv c \<Longrightarrow> conv_inv (push_all ms c)"
  by (induction ms rule: rev_induct) (simp_all add: push_all_snoc conv_push_inv, simp add: push_all_def)

lemma push_all_sys:
  assumes "role sys = ''system''" and "0 < n"
  shows "messages (push_all ms (conv_push sys (conv_new n))) = sys # drop (length ms - (n - 1)) ms"
proof (induction ms rule: rev_induct)
  case Nil
  show ?case using assms by (simp add: push_all_def conv_push_def conv_new_def evict_none)
next
  case (snoc m ms)
  let ?c = "push_all ms (conv_push sys (conv_new n))"
  have inv: "conv_inv ?c" by (simp add: push_all_inv conv_push_inv)
  have n: "max_messages ?c = n" by (simp add: conv_push_def conv_new_def)
  define k where "k = length ms - (n - 1)"
  have app: "drop k ms @ [m] = drop k (ms @ [m])" by (simp add: k_def)
  show ?case
  proof (cases "length ms < n - 1")
    case True
    then show ?thesis unfolding push_all_snoc conv_push_messages [OF inv] snoc.IH n by auto
  next
    case False
    then have "length (drop k ms) = n - 1" "length (ms @ [m]) - (n - 1) = Suc k" by (auto simp: k_def)
    moreover have "tl (drop k (ms @ [m])) = drop (Suc k) (ms @ [m])" by (simp only: drop_Suc tl_drop)
    ultimately show ?thesis
      unfolding push_all_snoc conv_push_messages [OF inv] snoc.IH n k_def [symmetric] using assms
      by (simp only: list.sel app) simp
  qed
qed

lemma push_all_small: "length ms \<le> n \<Longrightarrow> messages (push_all ms (conv_new n)) = ms"
proof (induction ms rule: rev_induct)
  case Nil
  show ?case by (simp add: push_all_def conv_new_def)
next
  case (snoc m ms)
  have "conv_inv (push_all ms (conv_new n))" by (rule push_all_inv) (simp add: conv_inv_def conv_new_def)
  with snoc show ?case unfolding push_all_snoc by (subst conv_push_messages) (simp_all add: conv_new_def)
qed

subsection \<open>The summarising history\<close>

record summarizing =
  sconv :: conversation
  summarize_threshold :: nat
  keep_recent :: nat

text \<open>The indices of the messages a summary replaces: \<open>start\<close> up to but excluding \<open>end\<close>.\<close>

definition summary_start :: "message list \<Rightarrow> nat" where
  "summary_start ms = (if ms \<noteq> [] \<and> role (ms ! 0) = ''system'' then 1 else 0)"

definition summary_end :: "nat \<Rightarrow> message list \<Rightarrow> nat" where
  "summary_end keep ms = (if length ms > keep then length ms - keep else summary_start ms)"

definition summary_request :: "('j, 'x) json_ops_scheme \<Rightarrow> message list \<Rightarrow> 'j" where
  "summary_request J old =
     j_array J
       [message_to_json J (plain_message ''system''
          (''Summarize the following conversation concisely, '' @
           ''preserving all key information, decisions, and results. '' @
           ''Respond with a single summary paragraph.'')),
        message_to_json J (plain_message ''user''
          (''Conversation to summarize:'' @ [CHR 0x0A] @
           j_dump J 2 (j_array J (map (message_to_json J) old))))]"

definition kept_system :: "message list \<Rightarrow> message list" where
  "kept_system ms = (if ms \<noteq> [] \<and> role (ms ! 0) = ''system'' then [ms ! 0] else [])"

definition summary_message :: "string \<Rightarrow> message" where
  "summary_message text = plain_message ''assistant'' (''[Summary of prior conversation]'' @ [CHR 0x0A] @ text)"

text \<open>The exception is the one \<open>future.get()\<close> rethrows; the message is in the history already then.\<close>

definition maybe_summarize ::
  "('j, 'x) json_ops_scheme \<Rightarrow> ('j \<Rightarrow> exn + llm_response) \<Rightarrow> summarizing \<Rightarrow> exn option \<times> summarizing" where
  "maybe_summarize J llm sc =
     (let c = sconv sc; ms = messages c; start = summary_start ms; e = summary_end (keep_recent sc) ms in
      if length ms < summarize_threshold sc then (None, sc)
      else if e \<le> start + 1 then (None, sc)
      else case llm (summary_request J (take (e - start) (drop start ms))) of
             Inl ex \<Rightarrow> (Some ex, sc)
           | Inr r \<Rightarrow>
               if resp_error r \<noteq> [] \<or> content (resp_message r) = [] then (None, sc)
               else (None, sc\<lparr>sconv := push_all
                      (kept_system ms @ [summary_message (content (resp_message r))] @ drop e ms)
                      (conv_new (max_messages c))\<rparr>))"

definition summarizing_push ::
  "('j, 'x) json_ops_scheme \<Rightarrow> ('j \<Rightarrow> exn + llm_response) \<Rightarrow> message \<Rightarrow> summarizing \<Rightarrow> exn option \<times> summarizing" where
  "summarizing_push J llm m sc = maybe_summarize J llm (sc\<lparr>sconv := conv_push m (sconv sc)\<rparr>)"

text \<open>The constructor, and the members that hand on to the history inside.\<close>

definition summarizing_new :: "nat \<Rightarrow> nat \<Rightarrow> nat \<Rightarrow> summarizing" where
  "summarizing_new cap threshold keep = \<lparr>sconv = conv_new cap, summarize_threshold = threshold, keep_recent = keep\<rparr>"

definition summarizing_back :: "summarizing \<Rightarrow> message option" where
  "summarizing_back sc = conv_back (sconv sc)"

definition summarizing_size :: "summarizing \<Rightarrow> nat" where
  "summarizing_size sc = conv_size (sconv sc)"

definition summarizing_empty :: "summarizing \<Rightarrow> bool" where
  "summarizing_empty sc \<longleftrightarrow> conv_empty (sconv sc)"

definition summarizing_messages :: "summarizing \<Rightarrow> message list" where
  "summarizing_messages sc = messages (sconv sc)"

definition summarizing_to_json :: "('j, 'x) json_ops_scheme \<Rightarrow> summarizing \<Rightarrow> 'j" where
  "summarizing_to_json J sc = conv_to_json J (sconv sc)"

definition summarizing_clear :: "summarizing \<Rightarrow> summarizing" where
  "summarizing_clear sc = sc\<lparr>sconv := conv_clear (sconv sc)\<rparr>"

definition summarizing_capacity :: "summarizing \<Rightarrow> nat" where
  "summarizing_capacity sc = conv_capacity (sconv sc)"

lemma maybe_summarize_cases:
  fixes sc :: summarizing and llm :: "'j \<Rightarrow> exn + llm_response"
  defines "ms \<equiv> messages (sconv sc)"
  defines "e \<equiv> summary_end (keep_recent sc) ms"
  obtains (same) "sconv (snd (maybe_summarize J llm sc)) = sconv sc"
    | (summary) r where "e > summary_start ms + 1"
      and "sconv (snd (maybe_summarize J llm sc)) =
        push_all (kept_system ms @ [summary_message (content (resp_message (r :: llm_response)))] @ drop e ms)
          (conv_new (max_messages (sconv sc)))"
proof (cases "llm (summary_request J (take (e - summary_start ms) (drop (summary_start ms) ms)))")
  case (Inl ex)
  then show thesis using same by (simp add: maybe_summarize_def Let_def ms_def e_def)
next
  case (Inr r)
  show thesis
  proof (cases "length ms < summarize_threshold sc \<or> e \<le> summary_start ms + 1 \<or>
      resp_error r \<noteq> [] \<or> content (resp_message r) = []")
    case True
    with Inr show thesis using same by (auto simp: maybe_summarize_def Let_def ms_def e_def)
  next
    case False
    with Inr show thesis using summary [of r] by (simp add: maybe_summarize_def Let_def ms_def e_def)
  qed
qed

lemma summarized_messages:
  assumes "conv_inv c" and "keep + 2 \<le> max_messages c" and "keep < length ms"
  shows "messages (push_all (kept_system ms @ [s] @ drop (length ms - keep) ms) (conv_new (max_messages c))) =
    (kept_system ms @ [s]) @ drop (length ms - keep) ms"
  using assms push_all_small [of "kept_system ms @ [s] @ drop (length ms - keep) ms" "max_messages c"]
  by (simp add: kept_system_def)

subsection \<open>Properties\<close>

text \<open>
  C32. A history that starts with a system message keeps it for good, and after it exactly the most recent
  messages that fit: with room for \<open>n\<close> messages, the system message and the last \<open>n - 1\<close> others, in order.
\<close>

theorem conversation_keeps_recent:
  assumes "role sys = ''system''" and "0 < n"
  shows "messages (push_all ms (conv_push sys (conv_new n))) = sys # drop (length ms - (n - 1)) ms"
  using assms by (rule push_all_sys)

theorem conversation_keeps_recent_witness:
  "messages (push_all [plain_message ''user'' ''a'', plain_message ''assistant'' ''b'', plain_message ''user'' ''c'']
     (conv_push (plain_message ''system'' ''s'') (conv_new 2))) =
   [plain_message ''system'' ''s'', plain_message ''user'' ''c'']"
  using conversation_keeps_recent [of "plain_message ''system'' ''s''" 2
      "[plain_message ''user'' ''a'', plain_message ''assistant'' ''b'', plain_message ''user'' ''c'']"]
  by (simp add: plain_message_def)

text \<open>
  C33. A push into a summarising history never loses a recent message: whatever the language model answers
  or throws, the last \<open>keep_recent\<close> messages are still there, at the end and in order, provided that they
  fit together with the system message and the summary; and the bound on the size holds.
\<close>

theorem summarizing_keeps_recent:
  assumes "keep_recent sc + 2 \<le> max_messages (sconv sc)"
  shows "\<exists>old. messages (sconv (snd (summarizing_push J llm m sc))) =
      old @ drop (length (messages (conv_push m (sconv sc))) - keep_recent sc) (messages (conv_push m (sconv sc))) \<and>
    conv_inv (sconv (snd (summarizing_push J llm m sc)))"
proof -
  define c where "c = conv_push m (sconv sc)"
  define ms where "ms = messages c"
  let ?sc = "sc\<lparr>sconv := c\<rparr>" and ?res = "sconv (snd (summarizing_push J llm m sc))"
  have inv: "conv_inv c" by (simp add: c_def conv_push_inv)
  have mx: "max_messages c = max_messages (sconv sc)" by (simp add: c_def conv_push_def)
  have res: "?res = sconv (snd (maybe_summarize J llm ?sc))" by (simp add: summarizing_push_def c_def)
  have "(\<exists>old. messages ?res = old @ drop (length ms - keep_recent sc) ms) \<and> conv_inv ?res"
  proof (cases rule: maybe_summarize_cases [of J llm ?sc])
    case same
    then have "?res = c" by (simp add: res)
    moreover have "ms = take (length ms - keep_recent sc) ms @ drop (length ms - keep_recent sc) ms" by simp
    ultimately show ?thesis using inv unfolding ms_def by metis
  next
    case (summary r)
    have keep: "keep_recent sc < length ms" "summary_end (keep_recent sc) ms = length ms - keep_recent sc"
      using summary(1) by (auto simp: summary_end_def ms_def split: if_splits)
    have eq: "?res = push_all (kept_system ms @ [summary_message (content (resp_message r))] @
        drop (length ms - keep_recent sc) ms) (conv_new (max_messages c))"
      using summary(2) keep(2) by (simp add: res ms_def)
    have "conv_inv ?res" unfolding eq by (rule push_all_inv) (simp add: conv_inv_def conv_new_def)
    moreover have "messages ?res = (kept_system ms @ [summary_message (content (resp_message r))]) @
        drop (length ms - keep_recent sc) ms"
      unfolding eq by (rule summarized_messages [OF inv]) (use assms mx keep(1) in simp_all)
    ultimately show ?thesis by blast
  qed
  then show ?thesis by (simp add: ms_def c_def)
qed

text \<open>Room for four, one recent message kept, a summary at three messages: the answer replaces two of them.\<close>

definition full_history :: summarizing where
  "full_history = \<lparr>sconv = \<lparr>max_messages = 4, messages = [plain_message ''user'' ''a'', plain_message ''user'' ''b'']\<rparr>,
     summarize_threshold = 3, keep_recent = 1\<rparr>"

theorem summarizing_keeps_recent_witness:
  "\<exists>old. messages (sconv (snd (summarizing_push plain_json
        (\<lambda>_. Inr \<lparr>resp_message = plain_message ''assistant'' ''sum'', prompt_tokens = 0, completion_tokens = 0,
           model = [], resp_error = []\<rparr>) (plain_message ''user'' ''c'') full_history))) =
      old @ [plain_message ''user'' ''c'']"
  using summarizing_keeps_recent [of full_history plain_json
      "\<lambda>_. Inr \<lparr>resp_message = plain_message ''assistant'' ''sum'', prompt_tokens = 0, completion_tokens = 0,
           model = [], resp_error = []\<rparr>" "plain_message ''user'' ''c''"]
  by (auto simp: full_history_def conv_push_def evict_none)

end
