(* ===== verification/Calculator.thy ===== *)
theory Calculator
  imports Messages
begin

section \<open>The calculator tool (src/src/tools/builtin/calculator.h)\<close>

text \<open>
  A recursive-descent parser that evaluates while it parses. Floating-point numbers are a parameter: a
  record \<open>F\<close> of the operations the code uses on \<open>double\<close>, with \<open>f_stod\<close> for \<open>std::stod\<close>,
  \<open>f_trunc\<close> for the cast to \<open>long long\<close> and \<open>f_to_string\<close> for \<open>std::to_string(double)\<close>, so the theorems hold for IEEE arithmetic as for any other.

  The parser's state is the rest of the input; its position is the length of what was read. The functions
  call each other with fuel, one unit per call, and \<open>None\<close> means that it ran out: five units per character
  and five more are enough (\<open>parse_returns\<close>), and more fuel never changes a result.
\<close>

subsection \<open>Floating point\<close>

record 'd float_ops =
  f_add :: "'d \<Rightarrow> 'd \<Rightarrow> 'd"
  f_sub :: "'d \<Rightarrow> 'd \<Rightarrow> 'd"
  f_mul :: "'d \<Rightarrow> 'd \<Rightarrow> 'd"
  f_div :: "'d \<Rightarrow> 'd \<Rightarrow> 'd"
  f_pow :: "'d \<Rightarrow> 'd \<Rightarrow> 'd"
  f_neg :: "'d \<Rightarrow> 'd"
  f_zero :: "'d"
  f_1e15 :: "'d"
  f_eq :: "'d \<Rightarrow> 'd \<Rightarrow> bool"
  f_less :: "'d \<Rightarrow> 'd \<Rightarrow> bool"
  f_floor :: "'d \<Rightarrow> 'd"
  f_abs :: "'d \<Rightarrow> 'd"
  f_stod :: "string \<Rightarrow> exn + 'd"
  f_trunc :: "'d \<Rightarrow> int"
  f_to_string :: "'d \<Rightarrow> string"

subsection \<open>The parser\<close>

definition skip_ws :: "string \<Rightarrow> string" where
  "skip_ws s = dropWhile (\<lambda>c. c = CHR '' '') s"

text \<open>\<open>peek() == c\<close> on a text whose blanks are skipped.\<close>

definition next_is :: "char \<Rightarrow> string \<Rightarrow> bool" where
  "next_is c s \<longleftrightarrow> s \<noteq> [] \<and> hd s = c"

definition is_num_char :: "char \<Rightarrow> bool" where
  "is_num_char c \<longleftrightarrow> is_digit c \<or> c = CHR ''.''"

text \<open>The text of a number: sign, digits and points, exponent. The result is the number and the rest.\<close>

definition scan_sign :: "string \<Rightarrow> string \<times> string" where
  "scan_sign s = (if next_is (CHR ''-'') s \<or> next_is (CHR ''+'') s then ([hd s], tl s) else ([], s))"

definition scan_exponent :: "string \<Rightarrow> string \<times> string" where
  "scan_exponent s =
     (if next_is (CHR ''e'') s \<or> next_is (CHR ''E'') s then
        let (sg, s1) = scan_sign (tl s)
        in (hd s # sg @ takeWhile is_digit s1, dropWhile is_digit s1)
      else ([], s))"

definition scan_number :: "string \<Rightarrow> string \<times> string" where
  "scan_number s =
     (let (sg, s1) = scan_sign s;
          (ex, s2) = scan_exponent (dropWhile is_num_char s1)
      in (sg @ takeWhile is_num_char s1 @ ex, s2))"

type_synonym 'd parse_result = "(exn + 'd \<times> string) option"

definition pbind :: "(exn + 'a) option \<Rightarrow> ('a \<Rightarrow> (exn + 'b) option) \<Rightarrow> (exn + 'b) option" where
  "pbind r f = (case r of None \<Rightarrow> None | Some (Inl e) \<Rightarrow> Some (Inl e) | Some (Inr x) \<Rightarrow> f x)"

text \<open>\<open>n\<close> is the length of the whole input.\<close>

definition parse_number :: "('d, 'x) float_ops_scheme \<Rightarrow> nat \<Rightarrow> string \<Rightarrow> exn + 'd \<times> string" where
  "parse_number F n s0 =
     (let s = skip_ws s0; (tok, rest) = scan_number s
      in if tok = [] then Inl (Runtime_error (''Expected number at position '' @ to_string_nat (n - length rest)))
         else try_bind (f_stod F tok) (\<lambda>v. Inr (v, rest)))"

definition div_op :: "('d, 'x) float_ops_scheme \<Rightarrow> 'd \<Rightarrow> 'd \<Rightarrow> exn + 'd" where
  "div_op F l r = (if f_eq F r (f_zero F) then Inl (Runtime_error ''Division by zero'') else Inr (f_div F l r))"

text \<open>
  The functions of the parser, with the calls they make to each other (and the next round of their loops)
  as a parameter.
\<close>

datatype 'd goal = Expr | Expr_loop 'd | Term | Term_loop 'd | Power | Unary | Atom

type_synonym 'd callee = "'d goal \<Rightarrow> string \<Rightarrow> 'd parse_result"

definition parse_expr :: "'d callee \<Rightarrow> string \<Rightarrow> 'd parse_result" where
  "parse_expr call s = pbind (call Term s) (\<lambda>(left, s1). call (Expr_loop left) s1)"

definition expr_loop :: "('d, 'x) float_ops_scheme \<Rightarrow> 'd callee \<Rightarrow> 'd \<Rightarrow> string \<Rightarrow> 'd parse_result" where
  "expr_loop F call left s0 =
     (let s = skip_ws s0 in
      if next_is (CHR ''+'') s then
        pbind (call Term (tl s)) (\<lambda>(right, s2). call (Expr_loop (f_add F left right)) s2)
      else if next_is (CHR ''-'') s then
        pbind (call Term (tl s)) (\<lambda>(right, s2). call (Expr_loop (f_sub F left right)) s2)
      else Some (Inr (left, s)))"

definition parse_term :: "'d callee \<Rightarrow> string \<Rightarrow> 'd parse_result" where
  "parse_term call s = pbind (call Power s) (\<lambda>(left, s1). call (Term_loop left) s1)"

definition term_loop :: "('d, 'x) float_ops_scheme \<Rightarrow> 'd callee \<Rightarrow> 'd \<Rightarrow> string \<Rightarrow> 'd parse_result" where
  "term_loop F call left s0 =
     (let s = skip_ws s0 in
      if next_is (CHR ''*'') s then
        pbind (call Power (tl s)) (\<lambda>(right, s2). call (Term_loop (f_mul F left right)) s2)
      else if next_is (CHR ''/'') s then
        pbind (call Power (tl s)) (\<lambda>(right, s2).
          pbind (Some (div_op F left right)) (\<lambda>v. call (Term_loop v) s2))
      else Some (Inr (left, s)))"

definition parse_power :: "('d, 'x) float_ops_scheme \<Rightarrow> 'd callee \<Rightarrow> string \<Rightarrow> 'd parse_result" where
  "parse_power F call s =
     pbind (call Unary s) (\<lambda>(b, s0).
       let s1 = skip_ws s0 in
       if next_is (CHR ''^'') s1 then
         pbind (call Power (tl s1)) (\<lambda>(e, s2). Some (Inr (f_pow F b e, s2)))
       else Some (Inr (b, s1)))"

definition parse_unary :: "('d, 'x) float_ops_scheme \<Rightarrow> 'd callee \<Rightarrow> string \<Rightarrow> 'd parse_result" where
  "parse_unary F call s0 =
     (let s = skip_ws s0 in
      if next_is (CHR ''-'') s then
        pbind (call Unary (tl s)) (\<lambda>(v, s1). Some (Inr (f_neg F v, s1)))
      else call Atom s)"

definition parse_atom :: "('d, 'x) float_ops_scheme \<Rightarrow> nat \<Rightarrow> 'd callee \<Rightarrow> string \<Rightarrow> 'd parse_result" where
  "parse_atom F n call s0 =
     (let s = skip_ws s0 in
      if next_is (CHR ''('') s then
        pbind (call Expr (tl s)) (\<lambda>(v, s2).
          let s1 = skip_ws s2 in
          if next_is (CHR '')'') s1 then Some (Inr (v, tl s1))
          else Some (Inl (Runtime_error ''Missing closing parenthesis'')))
      else Some (parse_number F n s))"

definition dispatch :: "('d, 'x) float_ops_scheme \<Rightarrow> nat \<Rightarrow> 'd callee \<Rightarrow> 'd callee" where
  "dispatch F n call g s =
     (case g of
        Expr \<Rightarrow> parse_expr call s
      | Expr_loop left \<Rightarrow> expr_loop F call left s
      | Term \<Rightarrow> parse_term call s
      | Term_loop left \<Rightarrow> term_loop F call left s
      | Power \<Rightarrow> parse_power F call s
      | Unary \<Rightarrow> parse_unary F call s
      | Atom \<Rightarrow> parse_atom F n call s)"

primrec run :: "('d, 'x) float_ops_scheme \<Rightarrow> nat \<Rightarrow> nat \<Rightarrow> 'd callee" where
  "run F n 0 = (\<lambda>g s. None)"
| "run F n (Suc f) = dispatch F n (run F n f)"

definition parse_fuel :: "string \<Rightarrow> nat" where
  "parse_fuel s = 5 * length s + 5"

definition calc_parse :: "('d, 'x) float_ops_scheme \<Rightarrow> string \<Rightarrow> (exn + 'd) option" where
  "calc_parse F input =
     pbind (run F (length input) (parse_fuel input) Expr input) (\<lambda>(result, s).
       let s1 = skip_ws s in
       if s1 \<noteq> [] then
         Some (Inl (Runtime_error (''Unexpected character at position '' @ to_string_nat (length input - length s1))))
       else Some (Inr result))"

text \<open>The handler of the tool; a result that is an integer below \<open>1e15\<close> is printed without decimals.\<close>

definition format_result :: "('d, 'x) float_ops_scheme \<Rightarrow> 'd \<Rightarrow> string" where
  "format_result F v =
     (if f_eq F v (f_floor F v) \<and> f_less F (f_abs F v) (f_1e15 F) then to_string_int (f_trunc F v)
      else f_to_string F v)"

definition calculator_handler ::
  "('j, 'x) json_ops_scheme \<Rightarrow> ('d, 'y) float_ops_scheme \<Rightarrow> string \<Rightarrow> (exn + string) option" where
  "calculator_handler J F args_json =
     pbind (Some (j_parse J args_json)) (\<lambda>j.
     pbind (Some (value_str J j ''expression'' [])) (\<lambda>expr.
       if expr = [] then Some (Inl (Runtime_error (''Missing '' @ [CHR 0x27] @ ''expression'' @ [CHR 0x27] @ '' parameter'')))
       else pbind (calc_parse F expr) (\<lambda>result. Some (Inr (format_result F result)))))"

subsection \<open>The parser returns\<close>

lemmas parser_defs = parse_expr_def expr_loop_def parse_term_def term_loop_def parse_power_def parse_unary_def
  parse_atom_def

lemma dispatch_simps [simp]:
  "dispatch F n call Expr = parse_expr call"
  "dispatch F n call (Expr_loop left) = expr_loop F call left"
  "dispatch F n call Term = parse_term call"
  "dispatch F n call (Term_loop left) = term_loop F call left"
  "dispatch F n call Power = parse_power F call"
  "dispatch F n call Unary = parse_unary F call"
  "dispatch F n call Atom = parse_atom F n call"
  by (simp_all add: dispatch_def fun_eq_iff)

lemma pbind_simps [simp]:
  "pbind None f = None"
  "pbind (Some (Inl e)) f = Some (Inl e)"
  "pbind (Some (Inr x)) f = f x"
  by (simp_all add: pbind_def)

lemma skip_ws_length: "length (skip_ws s) \<le> length s"
  by (simp add: skip_ws_def length_dropWhile_le)

lemma skip_ws_idem [simp]: "skip_ws (skip_ws s) = skip_ws s"
  by (simp add: skip_ws_def)

lemma scan_sign_length: "scan_sign s = (a, b) \<Longrightarrow> length b \<le> length s"
  by (auto simp: scan_sign_def split: if_splits)

lemma scan_exponent_length: "scan_exponent s = (a, b) \<Longrightarrow> length b \<le> length s"
  by (auto simp: scan_exponent_def scan_sign_def Let_def split: if_splits prod.splits
      intro!: order_trans [OF length_dropWhile_le])

lemma scan_number_length:
  assumes "scan_number s = (a, b)"
  shows "length b \<le> length s"
proof -
  obtain sg s1 where 1: "scan_sign s = (sg, s1)" by fastforce
  obtain ex s2 where 2: "scan_exponent (dropWhile is_num_char s1) = (ex, s2)" by fastforce
  have "b = s2" using assms 1 2 by (auto simp: scan_number_def Let_def)
  then show ?thesis
    using scan_sign_length [OF 1] scan_exponent_length [OF 2] length_dropWhile_le [of is_num_char s1]
    by (blast intro: order_trans)
qed

lemma parse_number_length: "parse_number F n s = Inr (v, r) \<Longrightarrow> length r \<le> length s"
proof -
  assume a: "parse_number F n s = Inr (v, r)"
  obtain tok rest where s: "scan_number (skip_ws s) = (tok, rest)" by fastforce
  with a have "r = rest" by (auto simp: parse_number_def Let_def split: if_splits)
  with scan_number_length [OF s] skip_ws_length [of s] show ?thesis by simp
qed

text \<open>The fuel that a call needs for a text of a given length.\<close>

fun need :: "'d goal \<Rightarrow> nat" where
  "need Expr = 5"
| "need (Expr_loop l) = 1"
| "need Term = 4"
| "need (Term_loop l) = 1"
| "need Power = 3"
| "need Unary = 2"
| "need Atom = 1"

lemma need_pos [simp]: "need g \<noteq> 0"
  by (cases g) auto

definition returns :: "nat \<Rightarrow> 'd parse_result \<Rightarrow> bool" where
  "returns k r \<longleftrightarrow> (\<exists>e. r = Some (Inl e)) \<or> (\<exists>v t. r = Some (Inr (v, t)) \<and> length t \<le> k)"

lemma returns_simps [simp]:
  "returns k (Some (Inl e))"
  "returns k (Some (Inr (v, t))) \<longleftrightarrow> length t \<le> k"
  "\<not> returns k None"
  by (auto simp: returns_def)

lemma returns_pbind:
  assumes "returns k r" and "\<And>v t. length t \<le> k \<Longrightarrow> returns m (f (v, t))"
  shows "returns m (pbind r f)"
proof (cases r)
  case (Some x)
  with assms show ?thesis by (cases x) auto
qed (use assms in simp)

lemma returns_mono: "returns k r \<Longrightarrow> k \<le> m \<Longrightarrow> returns m r"
  by (auto simp: returns_def)

lemma returns_parse_number: "length s \<le> k \<Longrightarrow> returns k (Some (parse_number F n s))"
  using parse_number_length [of F n s] by (cases "parse_number F n s") (auto simp: returns_def)

text \<open>What is left after an operator is read: at least one character less.\<close>

lemma operator_read: "next_is c (skip_ws t) \<Longrightarrow> length t \<le> k \<Longrightarrow> \<exists>m. k = Suc m \<and> length (tl (skip_ws t)) \<le> m"
  using skip_ws_length [of t] by (cases k; cases "skip_ws t") (auto simp: next_is_def)

lemma run_returns: "length s \<le> k \<Longrightarrow> 5 * k + need g \<le> f \<Longrightarrow> returns k (run F n f g s)"
proof (induction f arbitrary: g s k)
  case (Suc f)
  note IH = Suc.IH and len = Suc.prems(1) and fuel = Suc.prems(2)
  have sk: "length (skip_ws t) \<le> m" if "length t \<le> m" for t m
    using skip_ws_length [of t] that by simp
  have two: "returns k (pbind (run F n f g' (tl (skip_ws t))) h)"
    if a: "next_is c (skip_ws t)" "length t \<le> k" and b: "need g' \<le> need g + 4"
      and h: "\<And>m v t'. k = Suc m \<Longrightarrow> length t' \<le> m \<Longrightarrow> returns m (h (v, t'))" for c g' t h
  proof -
    obtain m where m: "k = Suc m" "length (tl (skip_ws t)) \<le> m" using operator_read [OF a] by blast
    then have "5 * m + need g' \<le> f" using fuel b by simp
    from IH [OF m(2) this] h [OF m(1)] have "returns m (pbind (run F n f g' (tl (skip_ws t))) h)"
      by (rule returns_pbind)
    then show ?thesis using m(1) by (auto intro: returns_mono)
  qed
  show ?case
  proof (cases g)
    case Expr
    with len fuel show ?thesis by (auto simp: parse_expr_def intro!: returns_pbind [of k] IH)
  next
    case (Expr_loop left)
    with len fuel show ?thesis
      by (auto simp: expr_loop_def Let_def sk intro!: two [of _ s] IH)
  next
    case Term
    with len fuel show ?thesis by (auto simp: parse_term_def intro!: returns_pbind [of k] IH)
  next
    case (Term_loop left)
    with len fuel show ?thesis
      by (auto simp: term_loop_def div_op_def Let_def sk intro!: two [of _ s] IH)
  next
    case Power
    have "returns k (run F n f Unary s)" using len fuel Power by (intro IH) auto
    then have "returns k (parse_power F (run F n f) s)"
      unfolding parse_power_def by (rule returns_pbind) (auto simp: Let_def sk Power intro!: two)
    with Power show ?thesis by simp
  next
    case Unary
    with len fuel show ?thesis
      by (auto simp: parse_unary_def Let_def sk intro!: two [of _ s] IH)
  next
    case Atom
    with len fuel show ?thesis
      by (auto simp: parse_atom_def Let_def sk intro!: two [of _ s] returns_parse_number diff_le_mono order_trans [OF diff_le_self])
  qed
qed simp

subsection \<open>More fuel does not change a result\<close>

lemma pbind_mono:
  assumes "pbind a f = Some r" and "\<And>x. a = Some x \<Longrightarrow> a' = Some x" and "\<And>x. f x = Some r \<Longrightarrow> f' x = Some r"
  shows "pbind a' f' = Some r"
proof (cases a)
  case (Some x)
  with assms show ?thesis by (cases x) auto
qed (use assms in simp)

definition extends :: "'d callee \<Rightarrow> 'd callee \<Rightarrow> bool" where
  "extends c c' \<longleftrightarrow> (\<forall>g s r. c g s = Some r \<longrightarrow> c' g s = Some r)"

lemma extendsD: "extends c c' \<Longrightarrow> c g s = Some r \<Longrightarrow> c' g s = Some r"
  by (simp add: extends_def)

lemma extends_bind:
  assumes "extends c c'" and "pbind (c g s) h = Some r" and "\<And>v t. h (v, t) = Some r \<Longrightarrow> h' (v, t) = Some r"
  shows "pbind (c' g s) h' = Some r"
  by (rule pbind_mono [OF assms(2)]) (use assms extendsD in \<open>fastforce+\<close>)

lemma extends_parsers:
  assumes "extends c c'"
  shows "parse_expr c s = Some r \<Longrightarrow> parse_expr c' s = Some r"
    and "expr_loop F c left s = Some r \<Longrightarrow> expr_loop F c' left s = Some r"
    and "parse_term c s = Some r \<Longrightarrow> parse_term c' s = Some r"
    and "term_loop F c left s = Some r \<Longrightarrow> term_loop F c' left s = Some r"
    and "parse_power F c s = Some r \<Longrightarrow> parse_power F c' s = Some r"
    and "parse_unary F c s = Some r \<Longrightarrow> parse_unary F c' s = Some r"
    and "parse_atom F n c s = Some r \<Longrightarrow> parse_atom F n c' s = Some r"
  by (auto simp: parser_defs Let_def div_op_def elim!: extends_bind [OF assms] extendsD [OF assms] split: if_splits)

lemma extends_dispatch: "extends c c' \<Longrightarrow> extends (dispatch F n c) (dispatch F n c')"
proof (unfold extends_def [of "dispatch F n c"], intro allI impI)
  fix g s r
  assume "extends c c'" and "dispatch F n c g s = Some r"
  then show "dispatch F n c' g s = Some r" by (cases g) (auto intro: extends_parsers)
qed

lemma run_Suc: "extends (run F n f) (run F n (Suc f))"
  by (induction f) (simp_all add: extends_dispatch, simp add: extends_def)

lemma run_mono: "f \<le> f' \<Longrightarrow> run F n f g s = Some r \<Longrightarrow> run F n f' g s = Some r"
  by (induction rule: dec_induct) (auto simp del: run.simps intro: extendsD [OF run_Suc])

subsection \<open>The language of expressions\<close>

text \<open>
  The specification of the tool: the syntax trees of the expressions, their value (exceptions of
  \<open>std::stod\<close> and the division by zero included, in the order of evaluation from left to right), and a
  printer with as few parentheses as the grammar of the code allows: \<open>+ -\<close> and \<open>* /\<close> associate to the left,
  \<open>^\<close> to the right, and a minus sign binds tighter than \<open>^\<close>.
\<close>

datatype expr =
  Lit string | Neg expr | Pow expr expr | Mul expr expr | Div expr expr | Add expr expr | Sub expr expr

definition both :: "exn + 'd \<Rightarrow> exn + 'd \<Rightarrow> ('d \<Rightarrow> 'd \<Rightarrow> exn + 'd) \<Rightarrow> exn + 'd" where
  "both a b f = try_bind a (\<lambda>l. try_bind b (f l))"

primrec evaluate :: "('d, 'x) float_ops_scheme \<Rightarrow> expr \<Rightarrow> exn + 'd" where
  "evaluate F (Lit w) = f_stod F w"
| "evaluate F (Neg a) = try_bind (evaluate F a) (\<lambda>v. Inr (f_neg F v))"
| "evaluate F (Pow a b) = both (evaluate F a) (evaluate F b) (\<lambda>l r. Inr (f_pow F l r))"
| "evaluate F (Mul a b) = both (evaluate F a) (evaluate F b) (\<lambda>l r. Inr (f_mul F l r))"
| "evaluate F (Div a b) = both (evaluate F a) (evaluate F b) (div_op F)"
| "evaluate F (Add a b) = both (evaluate F a) (evaluate F b) (\<lambda>l r. Inr (f_add F l r))"
| "evaluate F (Sub a b) = both (evaluate F a) (evaluate F b) (\<lambda>l r. Inr (f_sub F l r))"

primrec level :: "expr \<Rightarrow> nat" where
  "level (Lit w) = 4"
| "level (Neg a) = 3"
| "level (Pow a b) = 2"
| "level (Mul a b) = 1"
| "level (Div a b) = 1"
| "level (Add a b) = 0"
| "level (Sub a b) = 0"

primrec literals_ok :: "expr \<Rightarrow> bool" where
  "literals_ok (Lit w) \<longleftrightarrow> w \<noteq> [] \<and> list_all is_num_char w"
| "literals_ok (Neg a) \<longleftrightarrow> literals_ok a"
| "literals_ok (Pow a b) \<longleftrightarrow> literals_ok a \<and> literals_ok b"
| "literals_ok (Mul a b) \<longleftrightarrow> literals_ok a \<and> literals_ok b"
| "literals_ok (Div a b) \<longleftrightarrow> literals_ok a \<and> literals_ok b"
| "literals_ok (Add a b) \<longleftrightarrow> literals_ok a \<and> literals_ok b"
| "literals_ok (Sub a b) \<longleftrightarrow> literals_ok a \<and> literals_ok b"

definition bracket :: "bool \<Rightarrow> string \<Rightarrow> string" where
  "bracket b x = (if b then ''('' @ x @ '')'' else x)"

primrec print :: "nat \<Rightarrow> expr \<Rightarrow> string" where
  "print p (Lit w) = bracket (4 < p) w"
| "print p (Neg a) = bracket (3 < p) (''-'' @ print 3 a)"
| "print p (Pow a b) = bracket (2 < p) (print 3 a @ ''^'' @ print 2 b)"
| "print p (Mul a b) = bracket (1 < p) (print 1 a @ ''*'' @ print 2 b)"
| "print p (Div a b) = bracket (1 < p) (print 1 a @ ''/'' @ print 2 b)"
| "print p (Add a b) = bracket (0 < p) (print 0 a @ ''+'' @ print 1 b)"
| "print p (Sub a b) = bracket (0 < p) (print 0 a @ ''-'' @ print 1 b)"

subsection \<open>Parsing a printed expression\<close>

definition yields :: "('d, 'x) float_ops_scheme \<Rightarrow> nat \<Rightarrow> 'd goal \<Rightarrow> string \<Rightarrow> exn + 'd \<times> string \<Rightarrow> bool" where
  "yields F n g s r \<longleftrightarrow> (\<exists>f. run F n f g s = Some r)"

lemma yieldsI: "dispatch F n (run F n f) g s = Some r \<Longrightarrow> yields F n g s r"
  unfolding yields_def by (rule exI [of _ "Suc f"]) simp

lemma yields_zeroI: "dispatch F n (\<lambda>g s. None) g s = Some r \<Longrightarrow> yields F n g s r"
  by (rule yieldsI [of F n 0]) simp

text \<open>
  A call followed by more work: an exception ends it, a value is passed on. \<open>after v K r\<close> says that \<open>r\<close> is
  what comes out when the first call gave \<open>v\<close> and \<open>K\<close> is the rest.
\<close>

definition after :: "exn + 'a \<Rightarrow> ('a \<Rightarrow> exn + 'b \<Rightarrow> bool) \<Rightarrow> exn + 'b \<Rightarrow> bool" where
  "after v K r \<longleftrightarrow> (case v of Inl e \<Rightarrow> r = Inl e | Inr x \<Rightarrow> K x r)"

lemma after_simps [simp]:
  "after (Inl e) K = (\<lambda>r. r = Inl e)"
  "after (Inr x) K = K x"
  by (simp_all add: after_def fun_eq_iff)

lemma extends_run: "f \<le> f' \<Longrightarrow> extends (run F n f) (run F n f')"
  unfolding extends_def by (blast intro: run_mono)

lemma yields_bind:
  assumes "yields F n g s v" and "after v (\<lambda>p r. \<exists>f. K (run F n f) p = Some r) r"
    and mono: "\<And>c c' p. extends c c' \<Longrightarrow> K c p = Some r \<Longrightarrow> K c' p = Some r"
    and "\<And>call. dispatch F n call g0 s0 = pbind (call g s) (K call)"
  shows "yields F n g0 s0 r"
proof -
  obtain f where f: "run F n f g s = Some v" using assms(1) by (auto simp: yields_def)
  show ?thesis
  proof (cases v)
    case (Inl e)
    with f assms(2,4) show ?thesis by (auto intro!: yieldsI [of F n f])
  next
    case (Inr p)
    with assms(2) obtain f' where f': "K (run F n f') p = Some r" by auto
    have "run F n (max f f') g s = Some v" using run_mono [OF _ f, of "max f f'"] by simp
    moreover have "K (run F n (max f f')) p = Some r" by (rule mono [OF extends_run f']) simp
    ultimately show ?thesis using Inr assms(4) by (auto intro!: yieldsI [of F n "max f f'"])
  qed
qed

text \<open>The result of a call whose value is \<open>v\<close> and that leaves the text \<open>t\<close>.\<close>

definition leaves :: "exn + 'd \<Rightarrow> string \<Rightarrow> exn + 'd \<times> string" where
  "leaves v t = try_bind v (\<lambda>d. Inr (d, t))"

lemma leaves_simps [simp]: "leaves (Inl e) t = Inl e" "leaves (Inr d) t = Inr (d, t)"
  by (simp_all add: leaves_def)

lemma after_leaves: "after (leaves v t) K r \<longleftrightarrow> after v (\<lambda>d. K (d, t)) r"
  by (cases v) simp_all

lemma yields_chain:
  assumes "yields F n g s (leaves v t)" and "after v (\<lambda>d. after (h d) (\<lambda>y. yields F n (g' y) t)) r"
    and "\<And>call. dispatch F n call g0 s0 = pbind (call g s) (\<lambda>(x, t). pbind (Some (h x)) (\<lambda>y. call (g' y) t))"
  shows "yields F n g0 s0 r"
proof (rule yields_bind [OF assms(1) _ _ assms(3)])
  show "after (leaves v t) (\<lambda>p r. \<exists>f. (case p of (x, t) \<Rightarrow> pbind (Some (h x)) (\<lambda>y. run F n f (g' y) t)) = Some r) r"
    unfolding after_leaves
  proof (cases v)
    case (Inr d)
    with assms(2) show "after v (\<lambda>d r. \<exists>f. (case (d, t) of (x, t) \<Rightarrow> pbind (Some (h x)) (\<lambda>y. run F n f (g' y) t)) = Some r) r"
      by (cases "h d") (auto simp: yields_def)
  qed (use assms(2) in simp)
next
  fix c c' :: "'a callee" and p
  assume "extends c c'" and "(case p of (x, t) \<Rightarrow> pbind (Some (h x)) (\<lambda>y. c (g' y) t)) = Some r"
  then show "(case p of (x, t) \<Rightarrow> pbind (Some (h x)) (\<lambda>y. c' (g' y) t)) = Some r"
    by (cases p; cases "h (fst p)") (auto intro: extendsD)
qed

lemma yields_last:
  assumes "yields F n g s (leaves v t)" and "r = try_bind v (\<lambda>d. k (d, t))"
    and "\<And>call. dispatch F n call g0 s0 = pbind (call g s) (\<lambda>p. Some (k p))"
  shows "yields F n g0 s0 r"
  by (rule yields_bind [OF assms(1) _ _ assms(3)]) (use assms(2) in \<open>cases v; simp\<close>)

text \<open>What may follow an atom, a power, a term and an expression in a printed text.\<close>

definition follows :: "string \<Rightarrow> string \<Rightarrow> bool" where
  "follows cs t \<longleftrightarrow> t = [] \<or> hd t \<in> set cs"

text \<open>
  \<open>reads F n p x v\<close>: the parser function of level \<open>p\<close> reads the text \<open>x\<close>, whose value is \<open>v\<close>. The loops of
  levels 0 and 1 go on after \<open>x\<close>.
\<close>

definition reads :: "('d, 'x) float_ops_scheme \<Rightarrow> nat \<Rightarrow> nat \<Rightarrow> string \<Rightarrow> exn + 'd \<Rightarrow> bool" where
  "reads F n p x v \<longleftrightarrow>
     (if p = 0 then \<forall>t r. follows ''+-)'' t \<longrightarrow> after v (\<lambda>d. yields F n (Expr_loop d) t) r \<longrightarrow> yields F n Expr (x @ t) r
      else if p = 1 then \<forall>t r. follows ''+-)*/'' t \<longrightarrow> after v (\<lambda>d. yields F n (Term_loop d) t) r \<longrightarrow> yields F n Term (x @ t) r
      else if p = 2 then \<forall>t. follows ''+-)*/'' t \<longrightarrow> yields F n Power (x @ t) (leaves v t)
      else if p = 3 then \<forall>t. follows ''+-)*/^'' t \<longrightarrow> yields F n Unary (x @ t) (leaves v t)
      else x \<noteq> [] \<and> hd x \<noteq> CHR '' '' \<and> hd x \<noteq> CHR ''-'' \<and>
        (\<forall>t. follows ''+-)*/^'' t \<longrightarrow> yields F n Atom (x @ t) (leaves v t)))"

lemma skip_ws_id: "s = [] \<or> hd s \<noteq> CHR '' '' \<Longrightarrow> skip_ws s = s"
  by (cases s) (auto simp: skip_ws_def)

lemma follows_skip: "follows cs t \<Longrightarrow> CHR '' '' \<notin> set cs \<Longrightarrow> skip_ws t = t"
  by (rule skip_ws_id) (auto simp: follows_def)

lemma follows_next: "follows cs t \<Longrightarrow> c \<notin> set cs \<Longrightarrow> \<not> next_is c t"
  by (auto simp: follows_def next_is_def)

lemma follows_mono: "follows cs t \<Longrightarrow> set cs \<subseteq> set ds \<Longrightarrow> follows ds t"
  by (auto simp: follows_def)

lemma reads_exprI:
  "(\<And>t r. follows ''+-)'' t \<Longrightarrow> after v (\<lambda>d. yields F n (Expr_loop d) t) r \<Longrightarrow> yields F n Expr (x @ t) r) \<Longrightarrow> reads F n 0 x v"
  by (simp add: reads_def)

lemma reads_termI:
  "(\<And>t r. follows ''+-)*/'' t \<Longrightarrow> after v (\<lambda>d. yields F n (Term_loop d) t) r \<Longrightarrow> yields F n Term (x @ t) r) \<Longrightarrow> reads F n 1 x v"
  by (simp add: reads_def)

lemma reads_powerI: "(\<And>t. follows ''+-)*/'' t \<Longrightarrow> yields F n Power (x @ t) (leaves v t)) \<Longrightarrow> reads F n 2 x v"
  by (simp add: reads_def)

lemma reads_unaryI: "(\<And>t. follows ''+-)*/^'' t \<Longrightarrow> yields F n Unary (x @ t) (leaves v t)) \<Longrightarrow> reads F n 3 x v"
  by (simp add: reads_def)

lemma reads_atomI:
  "(\<And>t. follows ''+-)*/^'' t \<Longrightarrow> yields F n Atom (x @ t) (leaves v t)) \<Longrightarrow> x \<noteq> [] \<Longrightarrow> hd x \<noteq> CHR '' '' \<Longrightarrow> hd x \<noteq> CHR ''-''
     \<Longrightarrow> reads F n 4 x v"
  by (simp add: reads_def)

lemma reads_exprD:
  "reads F n 0 x v \<Longrightarrow> follows ''+-)'' t \<Longrightarrow> after v (\<lambda>d. yields F n (Expr_loop d) t) r \<Longrightarrow> yields F n Expr (x @ t) r"
  by (simp add: reads_def)

lemma reads_termD:
  "reads F n 1 x v \<Longrightarrow> follows ''+-)*/'' t \<Longrightarrow> after v (\<lambda>d. yields F n (Term_loop d) t) r \<Longrightarrow> yields F n Term (x @ t) r"
  by (simp add: reads_def)

lemma reads_powerD: "reads F n 2 x v \<Longrightarrow> follows ''+-)*/'' t \<Longrightarrow> yields F n Power (x @ t) (leaves v t)"
  by (simp add: reads_def)

lemma reads_unaryD: "reads F n 3 x v \<Longrightarrow> follows ''+-)*/^'' t \<Longrightarrow> yields F n Unary (x @ t) (leaves v t)"
  by (simp add: reads_def)

lemma reads_atomD:
  assumes "reads F n 4 x v"
  shows "follows ''+-)*/^'' t \<Longrightarrow> yields F n Atom (x @ t) (leaves v t)" and "x \<noteq> []" "hd x \<noteq> CHR '' ''" "hd x \<noteq> CHR ''-''"
  using assms by (simp_all add: reads_def)

lemma atom_unary:
  assumes "reads F n 4 x v"
  shows "reads F n 3 x v"
proof (rule reads_unaryI)
  fix t
  assume "follows ''+-)*/^'' t"
  with assms have "yields F n Atom (x @ t) (leaves v t)" by (rule reads_atomD)
  then obtain f where f: "run F n f Atom (x @ t) = Some (leaves v t)" by (auto simp: yields_def)
  have "skip_ws (x @ t) = x @ t" "\<not> next_is (CHR ''-'') (x @ t)"
    using reads_atomD(2-4) [OF assms] by (simp_all add: skip_ws_id next_is_def)
  with f show "yields F n Unary (x @ t) (leaves v t)" by (auto simp: parse_unary_def intro!: yieldsI [of F n f])
qed

lemma unary_power:
  assumes "reads F n 3 x v"
  shows "reads F n 2 x v"
proof (rule reads_powerI)
  fix t
  assume t: "follows ''+-)*/'' t"
  then have "follows ''+-)*/^'' t" by (rule follows_mono) simp
  with assms have "yields F n Unary (x @ t) (leaves v t)" by (rule reads_unaryD)
  then obtain f where f: "run F n f Unary (x @ t) = Some (leaves v t)" by (auto simp: yields_def)
  have "skip_ws t = t" "\<not> next_is (CHR ''^'') t" using follows_skip [OF t] follows_next [OF t] by simp_all
  with f show "yields F n Power (x @ t) (leaves v t)"
    by (cases v) (auto simp: parse_power_def leaves_def intro!: yieldsI [of F n f])
qed

lemma power_term:
  assumes "reads F n 2 x v"
  shows "reads F n 1 x v"
proof (rule reads_termI)
  fix t r
  assume "follows ''+-)*/'' t" and r: "after v (\<lambda>d. yields F n (Term_loop d) t) r"
  with assms have "yields F n Power (x @ t) (leaves v t)" by (simp add: reads_powerD)
  then show "yields F n Term (x @ t) r"
    by (rule yields_chain [where h = Inr and g' = Term_loop]) (use r in \<open>simp_all add: parse_term_def\<close>)
qed

lemma term_alone:
  assumes "reads F n 1 x v" and t: "follows ''+-)'' t"
  shows "yields F n Term (x @ t) (leaves v t)"
proof -
  have "skip_ws t = t" "\<not> next_is (CHR ''*'') t" "\<not> next_is (CHR ''/'') t"
    using follows_skip [OF t] follows_next [OF t] by simp_all
  then have "yields F n (Term_loop d) t (Inr (d, t))" for d by (auto simp: term_loop_def intro!: yields_zeroI)
  then have "after v (\<lambda>d. yields F n (Term_loop d) t) (leaves v t)" by (cases v) simp_all
  moreover have "follows ''+-)*/'' t" using t by (rule follows_mono) simp
  ultimately show ?thesis using reads_termD [OF assms(1)] by blast
qed

lemma term_expr:
  assumes "reads F n 1 x v"
  shows "reads F n 0 x v"
proof (rule reads_exprI)
  fix t r
  assume "follows ''+-)'' t" and r: "after v (\<lambda>d. yields F n (Expr_loop d) t) r"
  then show "yields F n Expr (x @ t) r"
    by (intro yields_chain [OF term_alone [OF assms], where h = Inr and g' = Expr_loop]) (simp_all add: parse_expr_def)
qed

lemma expr_bracket:
  assumes "reads F n 0 x v"
  shows "reads F n 4 (''('' @ x @ '')'') v"
proof (rule reads_atomI)
  fix t
  have "yields F n (Expr_loop d) ('')'' @ t) (Inr (d, '')'' @ t))" for d
    by (rule yields_zeroI) (simp add: expr_loop_def skip_ws_id next_is_def)
  then have "after v (\<lambda>d. yields F n (Expr_loop d) ('')'' @ t)) (leaves v ('')'' @ t))"
    by (cases v) (simp_all add: leaves_def)
  then have "yields F n Expr (x @ '')'' @ t) (leaves v ('')'' @ t))"
    by (intro reads_exprD [OF assms]) (simp_all add: follows_def)
  then show "yields F n Atom ((''('' @ x @ '')'') @ t) (leaves v t)"
    by (rule yields_last [where k = "\<lambda>(v, s2). let s1 = skip_ws s2 in
          if next_is (CHR '')'') s1 then Inr (v, tl s1) else Inl (Runtime_error ''Missing closing parenthesis'')"])
      (auto simp: parse_atom_def skip_ws_id next_is_def leaves_def Let_def if_distrib split_def)
qed simp_all

lemma reads_down:
  assumes "reads F n q x v" and "p \<le> q" and "q \<le> 4"
  shows "reads F n p x v"
  using assms(2,1,3)
proof (induction rule: inc_induct)
  case (step m)
  then have "reads F n (Suc m) x v" "m = 0 \<or> m = 1 \<or> m = 2 \<or> m = 3" by auto
  then show ?case using atom_unary unary_power power_term term_expr by (auto simp: eval_nat_numeral)
qed

lemma reads_bracket:
  assumes "reads F n l x v" and "l \<le> 4" and "p \<le> 4"
  shows "reads F n p (bracket (l < p) x) v"
proof (cases "l < p")
  case True
  have "reads F n 0 x v" using reads_down [OF assms(1) _ assms(2)] by blast
  then have "reads F n 4 (''('' @ x @ '')'') v" by (rule expr_bracket)
  from reads_down [OF this assms(3)] True show ?thesis by (simp add: bracket_def)
next
  case False
  with reads_down [OF assms(1) _ assms(2), of p] show ?thesis by (simp add: bracket_def)
qed

lemma num_char_facts: "is_num_char c \<Longrightarrow> c \<notin> set '' -+('' \<and> c \<noteq> CHR ''e'' \<and> c \<noteq> CHR ''E''"
  by (auto simp: is_num_char_def is_digit_def)

lemma reads_literal:
  assumes "w \<noteq> []" and "list_all is_num_char w"
  shows "reads F n 4 w (f_stod F w)"
proof (rule reads_atomI)
  have hd: "is_num_char (hd w)" using assms by (cases w) auto
  show "hd w \<noteq> CHR '' ''" "hd w \<noteq> CHR ''-''" using num_char_facts [OF hd] by auto
  fix t
  assume t: "follows ''+-)*/^'' t"
  have ws: "skip_ws (w @ t) = w @ t" using assms(1) num_char_facts [OF hd] by (intro skip_ws_id) auto
  have "takeWhile is_num_char (w @ t) = w" "dropWhile is_num_char (w @ t) = t"
    using assms(2) t by (auto simp: list_all_iff follows_def is_num_char_def is_digit_def takeWhile_append dropWhile_append
        takeWhile_eq_Nil_iff dropWhile_eq_self_iff)
  moreover have "scan_sign (w @ t) = ([], w @ t)"
    using assms(1) num_char_facts [OF hd] by (auto simp: scan_sign_def next_is_def)
  moreover have "scan_exponent t = ([], t)" using follows_next [OF t] by (simp add: scan_exponent_def)
  ultimately have "scan_number (w @ t) = (w, t)" by (simp add: scan_number_def)
  with assms(1) have "parse_number F n (w @ t) = leaves (f_stod F w) t"
    by (simp add: parse_number_def ws leaves_def)
  moreover have "\<not> next_is (CHR ''('') (w @ t)" using assms(1) num_char_facts [OF hd] by (auto simp: next_is_def)
  ultimately show "yields F n Atom (w @ t) (leaves (f_stod F w) t)"
    by (intro yields_zeroI) (simp add: parse_atom_def ws)
qed (fact assms(1))

lemma after_bind [simp]: "after (try_bind v k) K r \<longleftrightarrow> after v (\<lambda>d. after (k d) K) r"
  by (cases v) simp_all

lemma after_mono: "after v K r \<Longrightarrow> (\<And>d. K d r \<Longrightarrow> K' d r) \<Longrightarrow> after v K' r"
  by (cases v) simp_all

lemma reads_neg:
  assumes "reads F n 3 x v"
  shows "reads F n 3 (''-'' @ x) (try_bind v (\<lambda>d. Inr (f_neg F d)))"
proof (rule reads_unaryI)
  fix t
  assume "follows ''+-)*/^'' t"
  with assms have "yields F n Unary (x @ t) (leaves v t)" by (rule reads_unaryD)
  then show "yields F n Unary ((''-'' @ x) @ t) (leaves (try_bind v (\<lambda>d. Inr (f_neg F d))) t)"
    by (rule yields_last [where k = "\<lambda>(v, s1). Inr (f_neg F v, s1)"])
      (cases v; simp add: parse_unary_def skip_ws_id next_is_def split_def)+
qed

lemma reads_pow:
  assumes "reads F n 3 x v" and "reads F n 2 y w"
  shows "reads F n 2 (x @ ''^'' @ y) (both v w (\<lambda>l r. Inr (f_pow F l r)))"
proof (rule reads_powerI)
  fix t
  assume "follows ''+-)*/'' t"
  with assms(2) have "yields F n Power (y @ t) (leaves w t)" by (rule reads_powerD)
  then obtain f where f: "run F n f Power (y @ t) = Some (leaves w t)" by (auto simp: yields_def)
  define K where "K = (\<lambda>(call :: 'a callee) (b, s0). let s1 = skip_ws s0 in
      if next_is (CHR ''^'') s1 then pbind (call Power (tl s1)) (\<lambda>(e, s2). Some (Inr (f_pow F b e, s2)))
      else Some (Inr (b, s1 :: string)) :: 'a parse_result)"
  have K: "K (run F n f) (d, ''^'' @ y @ t) = Some (leaves (try_bind w (\<lambda>e. Inr (f_pow F d e))) t)" for d
    using f by (cases w) (simp_all add: K_def skip_ws_id next_is_def)
  have "yields F n Unary (x @ ''^'' @ y @ t) (leaves v (''^'' @ y @ t))"
    by (intro reads_unaryD [OF assms(1)]) (simp add: follows_def)
  then show "yields F n Power ((x @ ''^'' @ y) @ t) (leaves (both v w (\<lambda>l r. Inr (f_pow F l r))) t)"
  proof (rule yields_bind [where K = K])
    show "after (leaves v (''^'' @ y @ t)) (\<lambda>p r. \<exists>f. K (run F n f) p = Some r) (leaves (both v w (\<lambda>l r. Inr (f_pow F l r))) t)"
      using K by (cases v) (auto simp: after_leaves both_def)
  next
    fix c c' :: "'a callee" and p r
    assume "extends c c'" and "K c p = Some r"
    then show "K c' p = Some r" by (auto simp: K_def Let_def split: prod.splits if_splits elim!: extends_bind [OF \<open>extends c c'\<close>])
  qed (simp add: parse_power_def K_def)
qed

lemma reads_multiplicative:
  assumes "reads F n 1 x v" and "reads F n 2 y w" and c: "c = CHR ''*'' \<or> c = CHR ''/''"
    and h: "h = (if c = CHR ''*'' then \<lambda>l r. Inr (f_mul F l r) else div_op F)"
  shows "reads F n 1 (x @ [c] @ y) (both v w h)"
proof (rule reads_termI)
  fix t r
  assume t: "follows ''+-)*/'' t" and r: "after (both v w h) (\<lambda>d. yields F n (Term_loop d) t) r"
  have "yields F n (Term_loop d) ([c] @ y @ t) r" if "after w (\<lambda>e. after (h d e) (\<lambda>u. yields F n (Term_loop u) t)) r" for d
    using reads_powerD [OF assms(2) t] that
    by (rule yields_chain) (use c h in \<open>auto simp: term_loop_def skip_ws_id next_is_def\<close>)
  with r have "after v (\<lambda>d. yields F n (Term_loop d) ([c] @ y @ t)) r" by (auto simp: both_def elim!: after_mono)
  with c have "yields F n Term (x @ [c] @ y @ t) r" by (intro reads_termD [OF assms(1)]) (auto simp: follows_def)
  then show "yields F n Term ((x @ [c] @ y) @ t) r" by simp
qed

lemma reads_additive:
  assumes "reads F n 0 x v" and "reads F n 1 y w" and c: "c = CHR ''+'' \<or> c = CHR ''-''"
    and h: "h = (\<lambda>l r. Inr (if c = CHR ''+'' then f_add F l r else f_sub F l r))"
  shows "reads F n 0 (x @ [c] @ y) (both v w h)"
proof (rule reads_exprI)
  fix t r
  assume t: "follows ''+-)'' t" and r: "after (both v w h) (\<lambda>d. yields F n (Expr_loop d) t) r"
  have "yields F n (Expr_loop d) ([c] @ y @ t) r" if "after w (\<lambda>e. after (h d e) (\<lambda>u. yields F n (Expr_loop u) t)) r" for d
    using term_alone [OF assms(2) t] that
    by (rule yields_chain) (use c h in \<open>auto simp: expr_loop_def skip_ws_id next_is_def\<close>)
  with r have "after v (\<lambda>d. yields F n (Expr_loop d) ([c] @ y @ t)) r" by (auto simp: both_def elim!: after_mono)
  with c have "yields F n Expr (x @ [c] @ y @ t) r" by (intro reads_exprD [OF assms(1)]) (auto simp: follows_def)
  then show "yields F n Expr ((x @ [c] @ y) @ t) r" by simp
qed

lemma reads_ops:
  "reads F n 1 x v \<Longrightarrow> reads F n 2 y w \<Longrightarrow> reads F n 1 (x @ ''*'' @ y) (both v w (\<lambda>l r. Inr (f_mul F l r)))"
  "reads F n 1 x v \<Longrightarrow> reads F n 2 y w \<Longrightarrow> reads F n 1 (x @ ''/'' @ y) (both v w (div_op F))"
  "reads F n 0 x v \<Longrightarrow> reads F n 1 y w \<Longrightarrow> reads F n 0 (x @ ''+'' @ y) (both v w (\<lambda>l r. Inr (f_add F l r)))"
  "reads F n 0 x v \<Longrightarrow> reads F n 1 y w \<Longrightarrow> reads F n 0 (x @ ''-'' @ y) (both v w (\<lambda>l r. Inr (f_sub F l r)))"
  by (rule reads_multiplicative reads_additive; simp)+

lemma reads_print: "literals_ok e \<Longrightarrow> p \<le> 4 \<Longrightarrow> reads F n p (print p e) (evaluate F e)"
proof (induction e arbitrary: p)
  case (Lit w)
  then show ?case using reads_bracket [OF reads_literal, of w p F n] by simp
next
  case (Neg a)
  then have "reads F n 3 (''-'' @ print 3 a) (evaluate F (Neg a))" using reads_neg [OF Neg.IH] by simp
  from reads_bracket [OF this _ Neg.prems(2)] show ?case by simp
next
  case (Pow a b)
  then have "reads F n 2 (print 3 a @ ''^'' @ print 2 b) (evaluate F (Pow a b))"
    using reads_pow [OF Pow.IH] by simp
  from reads_bracket [OF this _ Pow.prems(2)] show ?case by simp
next
  case (Mul a b)
  then have "reads F n 1 (print 1 a @ ''*'' @ print 2 b) (evaluate F (Mul a b))"
    using reads_ops(1) [OF Mul.IH] by simp
  from reads_bracket [OF this _ Mul.prems(2)] show ?case by simp
next
  case (Div a b)
  then have "reads F n 1 (print 1 a @ ''/'' @ print 2 b) (evaluate F (Div a b))"
    using reads_ops(2) [OF Div.IH] by simp
  from reads_bracket [OF this _ Div.prems(2)] show ?case by simp
next
  case (Add a b)
  then have "reads F n 0 (print 0 a @ ''+'' @ print 1 b) (evaluate F (Add a b))"
    using reads_ops(3) [OF Add.IH] by simp
  from reads_bracket [OF this _ Add.prems(2)] show ?case by simp
next
  case (Sub a b)
  then have "reads F n 0 (print 0 a @ ''-'' @ print 1 b) (evaluate F (Sub a b))"
    using reads_ops(4) [OF Sub.IH] by simp
  from reads_bracket [OF this _ Sub.prems(2)] show ?case by simp
qed

lemma run_parse_fuel:
  assumes "yields F (length s) Expr s r"
  shows "run F (length s) (parse_fuel s) Expr s = Some r"
proof -
  obtain f where f: "run F (length s) f Expr s = Some r" using assms by (auto simp: yields_def)
  have "returns (length s) (run F (length s) (parse_fuel s) Expr s)" by (rule run_returns) (simp_all add: parse_fuel_def)
  then obtain r' where r': "run F (length s) (parse_fuel s) Expr s = Some r'" by (auto simp: returns_def)
  from run_mono [OF max.cobounded1 f] run_mono [OF max.cobounded2 r'] have "r' = r"
    by (metis option.inject)
  with r' show ?thesis by simp
qed

text \<open>
  C36. The parser returns on every input: for every text and every arithmetic, \<open>ExprParser::parse\<close> gives a value or throws.
\<close>

theorem parse_returns: "\<exists>r. calc_parse F s = Some r"
proof -
  have "returns (length s) (run F (length s) (parse_fuel s) Expr s)" by (rule run_returns) (simp_all add: parse_fuel_def)
  then show ?thesis by (auto simp: returns_def calc_parse_def Let_def)
qed

text \<open>
  C13. The parser implements the grammar of its comments: on the text of an expression, printed with only the parentheses
  that precedence and associativity require, the result is the value of the expression, with the same exception when its
  evaluation throws (a division by zero, a number that \<open>std::stod\<close> rejects).
\<close>

theorem parse_print_roundtrip:
  assumes "literals_ok e"
  shows "calc_parse F (print 0 e) = Some (evaluate F e)"
proof -
  let ?n = "length (print 0 e)"
  have "yields F ?n (Expr_loop d) [] (Inr (d, []))" for d
    by (rule yields_zeroI) (simp add: expr_loop_def skip_ws_def next_is_def)
  then have "after (evaluate F e) (\<lambda>d. yields F ?n (Expr_loop d) []) (leaves (evaluate F e) [])"
    by (cases "evaluate F e") simp_all
  with reads_exprD [OF reads_print [OF assms, of 0 F ?n], of "[]"]
  have "yields F ?n Expr (print 0 e) (leaves (evaluate F e) [])" by (simp add: follows_def)
  from run_parse_fuel [OF this] show ?thesis
    by (cases "evaluate F e") (simp_all add: calc_parse_def skip_ws_def)
qed

text \<open>The arithmetic of integers, as one that can be computed with.\<close>

definition int_floats :: "int float_ops" where
  "int_floats = \<lparr>f_add = (+), f_sub = (-), f_mul = (*), f_div = (div), f_pow = (\<lambda>a b. a ^ nat b), f_neg = uminus,
     f_zero = 0, f_1e15 = 10 ^ 15, f_eq = (=), f_less = (<), f_floor = (\<lambda>x. x), f_abs = abs,
     f_stod = (\<lambda>w. if list_all is_digit w then Inr (foldl (\<lambda>n c. 10 * n + (of_char c - 48)) 0 w) else Inl (Runtime_error ''stod'')),
     f_trunc = (\<lambda>x. x), f_to_string = to_string_int\<rparr>"

theorem parse_print_roundtrip_witness:
  "let e = Sub (Sub (Lit ''20'') (Pow (Lit ''2'') (Pow (Neg (Lit ''3'')) (Lit ''2'')))) (Mul (Add (Lit ''1'') (Lit ''4'')) (Lit ''6''))
   in print 0 e = ''20-2^-3^2-(1+4)*6'' \<and> calc_parse int_floats (print 0 e) = Some (Inr (- 522))"
proof -
  let ?e = "Sub (Sub (Lit ''20'') (Pow (Lit ''2'') (Pow (Neg (Lit ''3'')) (Lit ''2'')))) (Mul (Add (Lit ''1'') (Lit ''4'')) (Lit ''6''))"
  have "calc_parse int_floats (print 0 ?e) = Some (evaluate int_floats ?e)"
    by (rule parse_print_roundtrip) (simp add: is_num_char_def is_digit_def)
  also have "evaluate int_floats ?e = Inr (- 522)" by (simp add: both_def int_floats_def is_digit_def)
  finally show ?thesis by (simp add: bracket_def)
qed

end
