(* ===== verification/Cost_Tracker.thy ===== *)
theory Cost_Tracker
  imports Conversation Calculator
begin

section \<open>Token and cost counters (src/src/session/cost_tracker.h)\<close>

text \<open>
  The totals are atomic 32-bit integers and wrap; the counters per model and the prices are kept under the mutex. Costs are floating point: the arithmetic
  is the parameter \<open>F\<close> of the calculator, with the conversion of an integer. The order of the list of counters stands for the order in which
  the hash table is traversed.
\<close>

record 'd cost_ops = "'d float_ops" +
  f_of_int :: "int \<Rightarrow> 'd"

record 'd model_pricing =
  prompt_cost_per_1k :: 'd
  completion_cost_per_1k :: 'd

record 'd cost_tracker =
  prompt_total :: "32 word"
  completion_total :: "32 word"
  pricing :: "(string \<times> 'd model_pricing) list"
  per_model_tokens :: "(string \<times> (32 word \<times> 32 word)) list"

definition cost_new :: "'d cost_tracker" where
  "cost_new = \<lparr>prompt_total = 0, completion_total = 0, pricing = [], per_model_tokens = []\<rparr>"

definition set_pricing :: "string \<Rightarrow> 'd model_pricing \<Rightarrow> 'd cost_tracker \<Rightarrow> 'd cost_tracker" where
  "set_pricing mdl p c = c\<lparr>pricing := AList.update mdl p (pricing c)\<rparr>"

definition model_tokens :: "string \<Rightarrow> 'd cost_tracker \<Rightarrow> 32 word \<times> 32 word" where
  "model_tokens mdl c = (case map_of (per_model_tokens c) mdl of None \<Rightarrow> (0, 0) | Some t \<Rightarrow> t)"

definition cost_record :: "string \<Rightarrow> 32 word \<Rightarrow> 32 word \<Rightarrow> 'd cost_tracker \<Rightarrow> 'd cost_tracker" where
  "cost_record mdl p q c =
     c\<lparr>prompt_total := prompt_total c + p, completion_total := completion_total c + q,
       per_model_tokens := AList.update mdl (fst (model_tokens mdl c) + p, snd (model_tokens mdl c) + q)
         (per_model_tokens c)\<rparr>"

definition total_prompt :: "'d cost_tracker \<Rightarrow> int" where
  "total_prompt c = sint (prompt_total c)"

definition total_completion :: "'d cost_tracker \<Rightarrow> int" where
  "total_completion c = sint (completion_total c)"

definition token_cost :: "('d, 'x) cost_ops_scheme \<Rightarrow> 32 word \<Rightarrow> 'd \<Rightarrow> 'd" where
  "token_cost F n per_1k = f_mul F (f_div F (f_of_int F (sint n)) (f_of_int F 1000)) per_1k"

definition total_cost :: "('d, 'x) cost_ops_scheme \<Rightarrow> 'd cost_tracker \<Rightarrow> 'd" where
  "total_cost F c =
     fold (\<lambda>(mdl, p, q) cost.
         case map_of (pricing c) mdl of
           None \<Rightarrow> cost
         | Some pr \<Rightarrow>
             f_add F (f_add F cost (token_cost F p (prompt_cost_per_1k pr))) (token_cost F q (completion_cost_per_1k pr)))
       (per_model_tokens c) (f_zero F)"

text \<open>The copy of the loop for a caller that holds the mutex.\<close>

definition total_cost_locked :: "('d, 'x) cost_ops_scheme \<Rightarrow> 'd cost_tracker \<Rightarrow> 'd" where
  "total_cost_locked F c =
     fold (\<lambda>(mdl, p, q) cost.
         case map_of (pricing c) mdl of
           None \<Rightarrow> cost
         | Some pr \<Rightarrow>
             f_add F (f_add F cost (token_cost F p (prompt_cost_per_1k pr))) (token_cost F q (completion_cost_per_1k pr)))
       (per_model_tokens c) (f_zero F)"

text \<open>\<open>dbl\<close> turns a floating-point number into a JSON value.\<close>

definition cost_to_json :: "('j, 'x) json_ops_scheme \<Rightarrow> ('d, 'y) cost_ops_scheme \<Rightarrow> ('d \<Rightarrow> 'j) \<Rightarrow> 'd cost_tracker \<Rightarrow> 'j" where
  "cost_to_json J F dbl c =
     j_object J [(''prompt_tokens'', j_int J (total_prompt c)), (''completion_tokens'', j_int J (total_completion c)),
       (''total_cost'', dbl (total_cost_locked F c))]"

subsection \<open>The totals are the sums over the models\<close>

definition cost_inv :: "'d cost_tracker \<Rightarrow> bool" where
  "cost_inv c \<longleftrightarrow> distinct (map fst (per_model_tokens c)) \<and>
     prompt_total c = sum_list (map (\<lambda>e. fst (snd e)) (per_model_tokens c)) \<and>
     completion_total c = sum_list (map (\<lambda>e. snd (snd e)) (per_model_tokens c))"

lemma sum_list_alist_update:
  fixes f :: "'b \<Rightarrow> 'c :: ab_group_add"
  assumes "distinct (map fst xs)"
  shows "sum_list (map (\<lambda>e. f (snd e)) (AList.update k v xs)) =
    sum_list (map (\<lambda>e. f (snd e)) xs) - (case map_of xs k of None \<Rightarrow> 0 | Some u \<Rightarrow> f u) + f v"
  using assms by (induction xs) (auto simp: algebra_simps)

lemma cost_inv_new: "cost_inv cost_new"
  by (simp add: cost_inv_def cost_new_def)

lemma cost_inv_record:
  assumes "cost_inv c"
  shows "cost_inv (cost_record mdl p q c)"
proof -
  have d: "distinct (map fst (per_model_tokens c))" using assms by (simp add: cost_inv_def)
  show ?thesis
    using assms sum_list_alist_update [OF d, of fst mdl] sum_list_alist_update [OF d, of snd mdl]
    by (auto simp: cost_inv_def cost_record_def model_tokens_def distinct_update split: option.splits)
qed

lemma cost_inv_pricing: "cost_inv c \<Longrightarrow> cost_inv (set_pricing mdl p c)"
  by (simp add: cost_inv_def set_pricing_def)

lemma total_cost_locked: "total_cost_locked F c = total_cost F c"
  by (simp add: total_cost_locked_def total_cost_def)

text \<open>A model without a price adds nothing.\<close>

lemma total_cost_unpriced:
  "(\<And>e. e \<in> set (per_model_tokens c) \<Longrightarrow> map_of (pricing c) (fst e) = None) \<Longrightarrow> total_cost F c = f_zero F"
proof -
  have "fold (\<lambda>(mdl, p, q) cost. case map_of (pricing c) mdl of None \<Rightarrow> cost
      | Some pr \<Rightarrow> f_add F (f_add F cost (token_cost F p (prompt_cost_per_1k pr))) (token_cost F q (completion_cost_per_1k pr))) ts z = z"
    if "\<And>e. e \<in> set ts \<Longrightarrow> map_of (pricing c) (fst e) = None" for ts z
    using that by (induction ts) (auto simp: split_def)
  then show "(\<And>e. e \<in> set (per_model_tokens c) \<Longrightarrow> map_of (pricing c) (fst e) = None) \<Longrightarrow> total_cost F c = f_zero F"
    by (simp add: total_cost_def)
qed

end
