(* ===== verification/Tools.thy ===== *)
theory Tools
  imports Messages Thread_Pool
begin

section \<open>The tool registry and executor (src/src/tools/tool_spec.h, tool_registry.h, tool_executor.h)\<close>

text \<open>
  A tool handler is a parameter of the model: the output it returns for an argument string, or the
  exception it throws. Whether a future is ready when its timeout is up depends on the scheduling and is
  the parameter \<open>timely\<close>. The executor runs a handler through the closure of the pool's \<open>submit\<close> and
  reads its result through the future's \<open>wait_for\<close>, both from their own models. The order of the registry
  stands for the unspecified iteration order of the \<open>unordered_map\<close>.
\<close>

subsection \<open>The registry\<close>

record 'j tool_spec =
  spec_name :: string
  spec_description :: string
  spec_parameters :: 'j
  spec_timeout :: int
  allow_parallel :: bool
  idempotent :: bool

type_synonym handler = "string \<Rightarrow> exn + string"

record 'j registered_tool =
  rt_spec :: "'j tool_spec"
  rt_handler :: handler

type_synonym 'j registry = "(string \<times> 'j registered_tool) list"

fun assoc_update :: "'k \<Rightarrow> 'v \<Rightarrow> ('k \<times> 'v) list \<Rightarrow> ('k \<times> 'v) list" where
  "assoc_update k v [] = [(k, v)]"
| "assoc_update k v ((k', v') # r) = (if k = k' then (k, v) # r else (k', v') # assoc_update k v r)"

definition register_tool :: "'j tool_spec \<Rightarrow> handler \<Rightarrow> 'j registry \<Rightarrow> 'j registry" where
  "register_tool spec h reg = assoc_update (spec_name spec) \<lparr>rt_spec = spec, rt_handler = h\<rparr> reg"

definition registry_get :: "'j registry \<Rightarrow> string \<Rightarrow> exn + 'j registered_tool" where
  "registry_get reg name =
     (case map_of reg name of None \<Rightarrow> Inl (Runtime_error (''Unknown tool: '' @ name)) | Some t \<Rightarrow> Inr t)"

definition registry_has :: "'j registry \<Rightarrow> string \<Rightarrow> bool" where
  "registry_has reg name \<longleftrightarrow> map_of reg name \<noteq> None"

definition to_openai_tools_json :: "('j, 'x) json_ops_scheme \<Rightarrow> 'j registry \<Rightarrow> 'j" where
  "to_openai_tools_json J reg =
     j_array J (map (\<lambda>(name, t).
       j_object J
         [(''type'', j_string J ''function''),
          (''function'', j_object J
             [(''name'', j_string J (spec_name (rt_spec t))),
              (''description'', j_string J (spec_description (rt_spec t))),
              (''parameters'', spec_parameters (rt_spec t))])]) reg)"

definition registry_names :: "'j registry \<Rightarrow> string list" where
  "registry_names reg = map fst reg"

definition registry_size :: "'j registry \<Rightarrow> nat" where
  "registry_size reg = length reg"

definition registry_empty :: "'j registry \<Rightarrow> bool" where
  "registry_empty reg \<longleftrightarrow> reg = []"

text \<open>
  \<open>load_selection\<close> on the parsed file: the names under \<open>"tools"\<close>, each of which must be registered.
\<close>

definition load_selection ::
  "('j, 'x) json_ops_scheme \<Rightarrow> 'j registry \<Rightarrow> string \<Rightarrow> 'j \<Rightarrow> exn + string list" where
  "load_selection J reg path j =
     (case j_find J j ''tools'' of
        None \<Rightarrow> Inr []
      | Some ts \<Rightarrow>
          if j_is_array J ts then
            try_map (\<lambda>v. try_bind (get_str J v) (\<lambda>n.
              if registry_has reg n then Inr n
              else Inl (Runtime_error (''Tool '' @ [CHR 0x27] @ n @ [CHR 0x27] @ '' listed in '' @ path @ '' is not registered''))))
              (j_items J ts)
          else Inr [])"

lemma map_of_assoc_update: "map_of (assoc_update k v r) = (map_of r)(k \<mapsto> v)"
  by (induction k v r rule: assoc_update.induct) auto

lemma registry_get_register:
  "registry_get (register_tool spec h reg) name =
     (if name = spec_name spec then Inr \<lparr>rt_spec = spec, rt_handler = h\<rparr> else registry_get reg name)"
  by (simp add: registry_get_def register_tool_def map_of_assoc_update)

lemma registry_has_get: "registry_has reg n \<longleftrightarrow> (\<exists>t. registry_get reg n = Inr t)"
  by (auto simp: registry_has_def registry_get_def split: option.splits)

subsection \<open>Execution\<close>

text \<open>
  A future of a submitted handler, and what \<open>wait_for\<close> makes of it: the closure has run in time or not.
\<close>

definition launch :: "handler \<Rightarrow> string \<Rightarrow> string shared_state" where
  "launch h args = snd (run_closure (h args) ss_new)"

definition await :: "bool \<Rightarrow> string shared_state \<Rightarrow> (exn + string) option option" where
  "await timely fut = wait_for 0 [(if timely then fut else ss_new, 0)]"

text \<open>The \<open>try\<close> block: only exceptions derived from \<open>std::exception\<close> are caught.\<close>

definition tool_outcome :: "string \<Rightarrow> (exn + string) option \<Rightarrow> exn + tool_result" where
  "tool_outcome call_id r =
     (case r of
        None \<Rightarrow> Inr \<lparr>tr_call_id = call_id, tr_output = ''Tool timed out'', is_error = True\<rparr>
      | Some (Inr out) \<Rightarrow> Inr \<lparr>tr_call_id = call_id, tr_output = out, is_error = False\<rparr>
      | Some (Inl e) \<Rightarrow>
          if is_std_exception e
          then Inr \<lparr>tr_call_id = call_id, tr_output = ''Tool error: '' @ what e, is_error = True\<rparr>
          else Inl e)"

definition unknown_tool :: "string \<Rightarrow> string \<Rightarrow> tool_result" where
  "unknown_tool call_id name = \<lparr>tr_call_id = call_id, tr_output = ''Unknown tool: '' @ name, is_error = True\<rparr>"

definition execute :: "'j registry \<Rightarrow> bool \<Rightarrow> tool_call \<Rightarrow> exn + tool_result" where
  "execute reg timely call =
     (if \<not> registry_has reg (tc_name call) then Inr (unknown_tool (tc_id call) (tc_name call))
      else try_bind (registry_get reg (tc_name call)) (\<lambda>t.
             tool_outcome (tc_id call)
               (the (await timely (launch (rt_handler t) (arguments_json call))))))"

text \<open>A launched call; an invalid future marks an unknown tool.\<close>

record pending_call =
  pc_id :: string
  pc_name :: string
  pc_future :: "string shared_state option"
  pc_timeout :: int

definition launch_call :: "'j registry \<Rightarrow> tool_call \<Rightarrow> pending_call" where
  "launch_call reg call =
     (case map_of reg (tc_name call) of
        None \<Rightarrow> \<lparr>pc_id = tc_id call, pc_name = tc_name call, pc_future = None, pc_timeout = 0\<rparr>
      | Some t \<Rightarrow> \<lparr>pc_id = tc_id call, pc_name = tc_name call,
          pc_future = Some (launch (rt_handler t) (arguments_json call)), pc_timeout = spec_timeout (rt_spec t)\<rparr>)"

definition collect_call :: "bool \<Rightarrow> pending_call \<Rightarrow> exn + tool_result" where
  "collect_call timely p =
     (case pc_future p of
        None \<Rightarrow> Inr (unknown_tool (pc_id p) (pc_name p))
      | Some fut \<Rightarrow> tool_outcome (pc_id p) (the (await timely fut)))"

definition execute_batch :: "'j registry \<Rightarrow> (nat \<Rightarrow> bool) \<Rightarrow> tool_call list \<Rightarrow> exn + tool_result list" where
  "execute_batch reg timely calls =
     (let pending = map (launch_call reg) calls
      in try_map (\<lambda>(i, p). collect_call (timely i) p) (enumerate 0 pending))"

lemma await_launch: "await timely (launch h args) = Some (if timely then Some (h args) else None)"
proof -
  have "ss_ready (launch h args)" "\<not> ss_ready (ss_new :: string shared_state)"
    by (auto simp: launch_def run_closure_def set_value_def set_exception_def ss_exchange_def ss_new_def
        split: sum.splits)
  moreover have "poll (launch h args) = Some (h args)"
    by (simp add: launch_def run_closure_poll ss_new_def)
  ultimately show ?thesis by (simp add: await_def)
qed

lemma collect_launch: "collect_call timely (launch_call reg call) = execute reg timely call"
  by (auto simp: collect_call_def launch_call_def execute_def registry_has_def registry_get_def split: option.splits)

lemma try_map_cong: "(\<And>x. x \<in> set xs \<Longrightarrow> f x = g x) \<Longrightarrow> try_map f xs = try_map g xs"
  by (induction xs) auto

lemma try_map_map: "try_map f (map g xs) = try_map (\<lambda>x. f (g x)) xs"
  by (induction xs) auto

lemma try_map_length: "try_map f xs = Inr ys \<Longrightarrow> length ys = length xs"
  by (induction xs arbitrary: ys) auto

lemma try_map_nth: "try_map f xs = Inr ys \<Longrightarrow> i < length xs \<Longrightarrow> f (xs ! i) = Inr (ys ! i)"
  by (induction xs arbitrary: ys i) (auto simp: nth_Cons split: nat.split)

lemma try_map_total: "(\<And>x. x \<in> set xs \<Longrightarrow> \<exists>y. f x = Inr y) \<Longrightarrow> \<exists>ys. try_map f xs = Inr ys"
proof (induction xs)
  case (Cons x xs)
  obtain y where "f x = Inr y" using Cons.prems [of x] by auto
  moreover obtain ys where "try_map f xs = Inr ys" using Cons by auto
  ultimately show ?case by simp
qed simp

text \<open>Handlers that only throw standard exceptions.\<close>

definition std_handlers :: "'j registry \<Rightarrow> bool" where
  "std_handlers reg \<longleftrightarrow> (\<forall>(n, t) \<in> set reg. \<forall>args e. rt_handler t args = Inl e \<longrightarrow> is_std_exception e)"

lemma execute_batch_execute:
  "execute_batch reg timely calls = try_map (\<lambda>(i, call). execute reg (timely i) call) (enumerate 0 calls)"
proof -
  have "enumerate 0 (map (launch_call reg) calls) = map (\<lambda>(i, c). (i, launch_call reg c)) (enumerate 0 calls)"
    by (rule nth_equalityI) (simp_all add: nth_enumerate_eq)
  then show ?thesis
    by (simp add: execute_batch_def Let_def try_map_map case_prod_beta' collect_launch)
qed

lemma execute_result:
  assumes "std_handlers reg"
  shows "\<exists>r. execute reg timely call = Inr r \<and> tr_call_id r = tc_id call \<and>
    (\<not> is_error r \<longleftrightarrow> timely \<and> (\<exists>t. map_of reg (tc_name call) = Some t \<and>
        rt_handler t (arguments_json call) = Inr (tr_output r)))"
proof (cases "map_of reg (tc_name call)")
  case None
  then show ?thesis by (simp add: execute_def registry_has_def unknown_tool_def)
next
  case (Some t)
  then have "is_std_exception e" if "rt_handler t (arguments_json call) = Inl e" for e
    using assms that map_of_SomeD [OF Some] unfolding std_handlers_def by fastforce
  with Some show ?thesis
    by (cases "rt_handler t (arguments_json call)")
      (auto simp: execute_def registry_has_def registry_get_def await_launch tool_outcome_def)
qed

lemma execute_batch_results:
  assumes "std_handlers reg"
  obtains rs where "execute_batch reg timely calls = Inr rs" and "map tr_call_id rs = map tc_id calls"
    and "\<And>i. i < length calls \<Longrightarrow> execute reg (timely i) (calls ! i) = Inr (rs ! i)"
proof -
  let ?f = "\<lambda>(i, call). execute reg (timely i) call"
  have "\<exists>rs. try_map ?f (enumerate 0 calls) = Inr rs"
  proof (rule try_map_total)
    fix x
    assume "x \<in> set (enumerate 0 calls)"
    show "\<exists>y. ?f x = Inr y" using execute_result [OF assms, of "timely (fst x)" "snd x"] by (auto simp: case_prod_beta)
  qed
  then obtain rs where rs: "try_map ?f (enumerate 0 calls) = Inr rs" by blast
  have len: "length rs = length calls" using try_map_length [OF rs] by simp
  have nth: "execute reg (timely i) (calls ! i) = Inr (rs ! i)" if "i < length calls" for i
    using try_map_nth [OF rs, of i] that by (simp add: nth_enumerate_eq)
  have "map tr_call_id rs = map tc_id calls"
  proof (rule nth_equalityI)
    fix i
    assume "i < length (map tr_call_id rs)"
    with len nth execute_result [OF assms, of "timely i" "calls ! i"]
    show "map tr_call_id rs ! i = map tc_id calls ! i" by auto
  qed (simp add: len)
  with rs nth show thesis by (intro that) (simp_all add: execute_batch_execute)
qed

subsection \<open>Properties\<close>

text \<open>
  A batch is the calls one by one: launching all handlers first and collecting afterwards gives the
  results that executing each call alone gives, in the order of the calls, and stops at the same call
  when a handler throws something that is no \<open>std::exception\<close>.
\<close>

lemma batch_is_pointwise:
  "execute_batch reg timely calls = try_map (\<lambda>(i, call). execute reg (timely i) call) (enumerate 0 calls)"
  by (rule execute_batch_execute)

text \<open>
  C35. With handlers that throw only standard exceptions no call is dropped and none is answered twice:
  the results carry the identifiers of the calls, in order, and a result is marked as no error exactly
  when the tool is registered, was in time and returned that output.
\<close>

theorem batch_answers_every_call:
  assumes "std_handlers reg"
  shows "\<exists>rs. execute_batch reg timely calls = Inr rs \<and> map tr_call_id rs = map tc_id calls \<and>
    (\<forall>i < length calls. \<not> is_error (rs ! i) \<longleftrightarrow> timely i \<and>
       (\<exists>t. map_of reg (tc_name (calls ! i)) = Some t \<and>
          rt_handler t (arguments_json (calls ! i)) = Inr (tr_output (rs ! i))))"
proof -
  from assms obtain rs where rs: "execute_batch reg timely calls = Inr rs" "map tr_call_id rs = map tc_id calls"
    and nth: "\<And>i. i < length calls \<Longrightarrow> execute reg (timely i) (calls ! i) = Inr (rs ! i)"
    by (rule execute_batch_results [where timely = timely and calls = calls]) blast
  have "\<not> is_error (rs ! i) \<longleftrightarrow> timely i \<and> (\<exists>t. map_of reg (tc_name (calls ! i)) = Some t \<and>
      rt_handler t (arguments_json (calls ! i)) = Inr (tr_output (rs ! i)))" if "i < length calls" for i
    using execute_result [OF assms, of "timely i" "calls ! i"] nth [OF that] by auto
  with rs show ?thesis by blast
qed

definition echo_registry :: "jval registry" where
  "echo_registry = register_tool \<lparr>spec_name = ''echo'', spec_description = [], spec_parameters = JNull,
     spec_timeout = 30000, allow_parallel = True, idempotent = False\<rparr> (\<lambda>args. Inr args) []"

theorem batch_answers_every_call_witness:
  "\<exists>rs. execute_batch echo_registry (\<lambda>_. True)
      [\<lparr>tc_id = ''1'', tc_name = ''echo'', arguments_json = ''hi''\<rparr>, \<lparr>tc_id = ''2'', tc_name = ''nope'', arguments_json = []\<rparr>] =
      Inr rs \<and> map tr_call_id rs = [''1'', ''2'']"
proof -
  have "std_handlers echo_registry" by (simp add: std_handlers_def echo_registry_def register_tool_def)
  from batch_answers_every_call [OF this, of "\<lambda>_. True"
      "[\<lparr>tc_id = ''1'', tc_name = ''echo'', arguments_json = ''hi''\<rparr>, \<lparr>tc_id = ''2'', tc_name = ''nope'', arguments_json = []\<rparr>]"]
  show ?thesis by auto
qed

end
