(* ===== verification/Task_DAG.thy ===== *)
theory Task_DAG
  imports Tools
begin

section \<open>The task graph (src/src/workflow/task_dag.h)\<close>

text \<open>
  Tool calls with dependencies on earlier nodes, sorted into levels by Kahn's algorithm and executed level
  by level, with the results of earlier levels substituted into the arguments. The arrays of the sort are
  lists updated by index and its queue is a list. The outer loop has fuel: the number of nodes plus one is
  enough, because every round that runs takes at least one node off the queue and no node enters twice;
  \<open>topological_sort_correct\<close> includes that the sort returns.
\<close>

subsection \<open>Building the graph\<close>

record dag_node =
  node_call :: tool_call
  dependencies :: "nat list"

type_synonym dag = "dag_node list"

definition add_node :: "tool_call \<Rightarrow> nat list \<Rightarrow> dag \<Rightarrow> exn + (nat \<times> dag)" where
  "add_node call deps nodes =
     (let i = length nodes
      in if \<exists>d \<in> set deps. d \<ge> i then Inl (Invalid_argument ''Dependency on future node'')
         else Inr (i, nodes @ [\<lparr>node_call = call, dependencies = deps\<rparr>]))"

definition dag_size :: "dag \<Rightarrow> nat" where
  "dag_size nodes = length nodes"

subsection \<open>Kahn's algorithm\<close>

text \<open>The first loop: the in-degree of every node and the nodes that depend on it.\<close>

fun count_deps :: "nat \<Rightarrow> nat list \<Rightarrow> int list \<times> nat list list \<Rightarrow> int list \<times> nat list list" where
  "count_deps i [] s = s"
| "count_deps i (d # ds) (deg, dep) = count_deps i ds (deg[i := deg ! i + 1], dep[d := dep ! d @ [i]])"

definition degrees :: "dag \<Rightarrow> int list \<times> nat list list" where
  "degrees nodes =
     fold (\<lambda>i. count_deps i (dependencies (nodes ! i))) [0 ..< length nodes]
       (replicate (length nodes) 0, replicate (length nodes) [])"

text \<open>The inner loop over the dependents of a node that is done.\<close>

fun relax :: "nat list \<Rightarrow> int list \<Rightarrow> nat list \<Rightarrow> int list \<times> nat list" where
  "relax [] deg ready = (deg, ready)"
| "relax (d # ds) deg ready =
     (let deg' = deg[d := deg ! d - 1]
      in relax ds deg' (if deg' ! d = 0 then ready @ [d] else ready))"

text \<open>One level: the first \<open>k\<close> nodes of the queue are taken off, what they enable is appended.\<close>

fun run_level :: "nat list list \<Rightarrow> nat \<Rightarrow> int list \<Rightarrow> nat list \<Rightarrow> nat list \<Rightarrow> int list \<times> nat list \<times> nat list" where
  "run_level dep 0 deg ready level = (deg, ready, level)"
| "run_level dep (Suc k) deg [] level = (deg, [], level)"
| "run_level dep (Suc k) deg (v # ready) level =
     (let (deg', ready') = relax (dep ! v) deg ready
      in run_level dep k deg' ready' (level @ [v]))"

text \<open>The outer loop; the result is the levels and the number of nodes processed.\<close>

fun run_levels :: "nat \<Rightarrow> nat list list \<Rightarrow> int list \<Rightarrow> nat list \<Rightarrow> nat list list \<Rightarrow> nat list list option" where
  "run_levels 0 dep deg ready levels = None"
| "run_levels (Suc fuel) dep deg ready levels =
     (if ready = [] then Some levels
      else let (deg', ready', level) = run_level dep (length ready) deg ready []
           in run_levels fuel dep deg' ready' (levels @ [level]))"

definition topological_sort :: "dag \<Rightarrow> (exn + nat list list) option" where
  "topological_sort nodes =
     (let n = length nodes; (deg, dep) = degrees nodes; ready = filter (\<lambda>i. deg ! i = 0) [0 ..< n]
      in case run_levels (n + 1) dep deg ready [] of
           None \<Rightarrow> None
         | Some levels \<Rightarrow>
             if length (concat levels) \<noteq> n then Some (Inl (Runtime_error ''Cycle detected in task DAG''))
             else Some (Inr levels))"

subsection \<open>Placeholders\<close>

fun strip_prefix :: "string \<Rightarrow> string \<Rightarrow> string option" where
  "strip_prefix [] s = Some s"
| "strip_prefix (p # ps) [] = None"
| "strip_prefix (p # ps) (c # cs) = (if p = c then strip_prefix ps cs else None)"

definition digits_value :: "string \<Rightarrow> nat" where
  "digits_value ds = foldl (\<lambda>n d. 10 * n + (of_char d - 48)) 0 ds"

text \<open>The regular expression \<open>{{node_(\d+)_result}}\<close> at the start of the text: the digits and the rest.\<close>

definition match_placeholder :: "string \<Rightarrow> (string \<times> string) option" where
  "match_placeholder s =
     (case strip_prefix ''{{node_'' s of
        None \<Rightarrow> None
      | Some r \<Rightarrow>
          let ds = takeWhile is_digit r in
          if ds = [] then None
          else map_option (\<lambda>rest. (ds, rest)) (strip_prefix ''_result}}'' (dropWhile is_digit r)))"

lemma strip_prefix_append: "strip_prefix p s = Some r \<Longrightarrow> s = p @ r"
  by (induction p s rule: strip_prefix.induct) (auto split: if_splits)

lemma strip_prefix_self [simp]: "strip_prefix p (p @ s) = Some s"
  by (induction p) auto

lemma match_placeholder_append:
  "match_placeholder s = Some (ds, rest) \<Longrightarrow> s = ''{{node_'' @ ds @ ''_result}}'' @ rest \<and> ds \<noteq> [] \<and> list_all is_digit ds"
  by (auto simp: match_placeholder_def Let_def list_all_iff takeWhile_dropWhile_id dest!: strip_prefix_append
      split: option.splits if_splits dest: set_takeWhileD)
    (metis append_assoc takeWhile_dropWhile_id)

lemma match_placeholder_shorter: "match_placeholder s = Some (ds, rest) \<Longrightarrow> length rest < length s"
  by (drule match_placeholder_append) auto

text \<open>
  \<open>std::stoull\<close> throws when the number does not fit into 64 bits. Unknown numbers keep their placeholder.
\<close>

function substitute :: "(nat \<rightharpoonup> string) \<Rightarrow> string \<Rightarrow> exn + string" where
  "substitute results [] = Inr []"
| "substitute results (c # cs) =
     (case match_placeholder (c # cs) of
        None \<Rightarrow> try_bind (substitute results cs) (\<lambda>out. Inr (c # out))
      | Some (ds, rest) \<Rightarrow>
          if digits_value ds \<ge> 2 ^ 64 then Inl (Out_of_range ''stoull'')
          else try_bind (substitute results rest) (\<lambda>out.
                 Inr ((case results (digits_value ds) of
                         Some r \<Rightarrow> r
                       | None \<Rightarrow> ''{{node_'' @ ds @ ''_result}}'') @ out)))"
  by pat_completeness auto
termination
  by (relation "measure (\<lambda>(results, s). length s)") (auto dest: match_placeholder_shorter)

subsection \<open>Execution\<close>

text \<open>
  One level: substitute, execute as a batch, record the outputs. \<open>timely\<close> is the timing of the calls, by the
  identifier of the node.
\<close>

definition run_batch ::
  "'j registry \<Rightarrow> (nat \<Rightarrow> bool) \<Rightarrow> dag \<Rightarrow> nat list \<Rightarrow> (nat \<rightharpoonup> string) \<times> tool_result list \<Rightarrow>
     exn + ((nat \<rightharpoonup> string) \<times> tool_result list)" where
  "run_batch reg timely nodes level st =
     try_bind (try_map (\<lambda>i. try_bind (substitute (fst st) (arguments_json (node_call (nodes ! i)))) (\<lambda>a.
                 Inr ((node_call (nodes ! i))\<lparr>arguments_json := a\<rparr>))) level) (\<lambda>calls.
     try_bind (execute_batch reg (\<lambda>k. timely (level ! k)) calls) (\<lambda>rs.
       Inr (fold (\<lambda>(i, r) m. m(i \<mapsto> tr_output r)) (zip level rs) (fst st), snd st @ rs)))"

fun run_batches ::
  "'j registry \<Rightarrow> (nat \<Rightarrow> bool) \<Rightarrow> dag \<Rightarrow> nat list list \<Rightarrow> (nat \<rightharpoonup> string) \<times> tool_result list \<Rightarrow>
     exn + ((nat \<rightharpoonup> string) \<times> tool_result list)" where
  "run_batches reg timely nodes [] st = Inr st"
| "run_batches reg timely nodes (level # levels) st =
     try_bind (run_batch reg timely nodes level st) (run_batches reg timely nodes levels)"

definition dag_execute :: "'j registry \<Rightarrow> (nat \<Rightarrow> bool) \<Rightarrow> dag \<Rightarrow> (exn + tool_result list) option" where
  "dag_execute reg timely nodes =
     map_option (\<lambda>r. try_bind r (\<lambda>levels.
       try_bind (run_batches reg timely nodes levels (Map.empty, [])) (\<lambda>st. Inr (snd st)))) (topological_sort nodes)"

subsection \<open>The graph is acyclic\<close>

abbreviation deps_of :: "dag \<Rightarrow> nat \<Rightarrow> nat list" where
  "deps_of nodes i \<equiv> dependencies (nodes ! i)"

definition dag_ok :: "dag \<Rightarrow> bool" where
  "dag_ok nodes \<longleftrightarrow> (\<forall>i < length nodes. \<forall>d \<in> set (deps_of nodes i). d < i)"

lemma dag_ok_empty: "dag_ok []"
  by (simp add: dag_ok_def)

lemma dag_ok_add_node: "dag_ok nodes \<Longrightarrow> add_node call deps nodes = Inr (i, nodes') \<Longrightarrow> dag_ok nodes' \<and> i = length nodes"
  by (auto simp: dag_ok_def add_node_def Let_def nth_append not_le less_Suc_eq split: if_splits)

subsection \<open>The first loop\<close>

lemma count_deps_correct:
  assumes "i < length deg" and "\<forall>d \<in> set ds. d < length dep" and "count_deps i ds (deg, dep) = (deg', dep')"
  shows "length deg' = length deg \<and> length dep' = length dep \<and>
    (\<forall>j < length deg. deg' ! j = deg ! j + (if j = i then int (length ds) else 0)) \<and>
    (\<forall>v < length dep. \<forall>j. count_list (dep' ! v) j = count_list (dep ! v) j + (if j = i then count_list ds v else 0))"
  using assms
proof (induction ds arbitrary: deg dep)
  case (Cons d ds)
  have "count_deps i ds (deg[i := deg ! i + 1], dep[d := dep ! d @ [i]]) = (deg', dep')" using Cons.prems by simp
  from Cons.IH [OF _ _ this] Cons.prems(1,2) show ?case
    by (auto simp: nth_list_update)
qed simp

definition degrees_ok :: "nat \<Rightarrow> dag \<Rightarrow> int list \<times> nat list list \<Rightarrow> bool" where
  "degrees_ok k nodes s \<longleftrightarrow> length (fst s) = length nodes \<and> length (snd s) = length nodes \<and>
     (\<forall>j < length nodes. fst s ! j = (if j < k then int (length (deps_of nodes j)) else 0)) \<and>
     (\<forall>v < length nodes. \<forall>j. count_list (snd s ! v) j = (if j < k then count_list (deps_of nodes j) v else 0))"

lemma degrees_ok: "dag_ok nodes \<Longrightarrow> degrees_ok (length nodes) nodes (degrees nodes)"
proof -
  assume ok: "dag_ok nodes"
  let ?init = "(replicate (length nodes) 0, replicate (length nodes) []) :: int list \<times> nat list list"
  have "k \<le> length nodes \<Longrightarrow>
      degrees_ok k nodes (fold (\<lambda>i. count_deps i (deps_of nodes i)) [0 ..< k] ?init)" for k
  proof (induction k)
    case (Suc k)
    let ?f = "fold (\<lambda>i. count_deps i (deps_of nodes i)) [0 ..< k] ?init"
    obtain deg dep where f: "?f = (deg, dep)" by fastforce
    obtain deg' dep' where g: "count_deps k (deps_of nodes k) (deg, dep) = (deg', dep')" by fastforce
    have IH: "degrees_ok k nodes (deg, dep)" using Suc f by simp
    have "k < length deg" "length dep = length nodes" using IH Suc.prems by (auto simp: degrees_ok_def)
    moreover have "\<forall>d \<in> set (deps_of nodes k). d < k" using ok Suc.prems by (simp add: dag_ok_def)
    ultimately have "k < length deg" "\<forall>d \<in> set (deps_of nodes k). d < length dep" using Suc.prems by auto
    from count_deps_correct [OF this g] IH have "degrees_ok (Suc k) nodes (deg', dep')"
      by (auto simp: degrees_ok_def less_Suc_eq)
    then show ?case by (simp add: f g)
  qed (simp add: degrees_ok_def)
  from this [of "length nodes"] show ?thesis by (simp add: degrees_def)
qed

subsection \<open>The inner loop\<close>

lemma relax_correct:
  assumes "\<forall>d \<in> set ds. d < length deg" and "\<forall>i < length deg. int (count_list ds i) \<le> deg ! i"
  shows "\<exists>deg' new. relax ds deg ready = (deg', ready @ new) \<and> length deg' = length deg \<and>
    (\<forall>i < length deg. deg' ! i = deg ! i - int (count_list ds i)) \<and>
    distinct new \<and> set new = {i \<in> set ds. deg ! i = int (count_list ds i)}"
  using assms
proof (induction ds arbitrary: deg ready)
  case (Cons d ds)
  define deg1 where "deg1 = deg[d := deg ! d - 1]"
  define r1 where "r1 = (if deg1 ! d = 0 then ready @ [d] else ready)"
  have d: "d < length deg" and len: "length deg1 = length deg" using Cons.prems(1) by (simp_all add: deg1_def)
  have nth: "deg1 ! i = (if i = d then deg ! i - 1 else deg ! i)" if "i < length deg" for i
    using that by (auto simp: deg1_def)
  have le: "\<forall>i < length deg1. int (count_list ds i) \<le> deg1 ! i"
  proof (intro allI impI)
    fix i
    assume "i < length deg1"
    with Cons.prems(2) [rule_format, of i] nth [of i] len show "int (count_list ds i) \<le> deg1 ! i"
      by (auto split: if_splits)
  qed
  have "\<forall>x \<in> set ds. x < length deg1" using Cons.prems(1) by (simp add: len)
  from Cons.IH [OF this le, of r1] obtain deg' new where IH:
    "relax ds deg1 r1 = (deg', r1 @ new)" "length deg' = length deg"
    "\<And>i. i < length deg \<Longrightarrow> deg' ! i = deg1 ! i - int (count_list ds i)"
    "distinct new" "set new = {i \<in> set ds. deg1 ! i = int (count_list ds i)}" by (auto simp: len)
  have step: "relax (d # ds) deg ready = relax ds deg1 r1" by (simp add: deg1_def r1_def Let_def)
  have zero: "count_list ds d = 0" if "deg1 ! d = 0" using le d len that by (metis le_zero_eq of_nat_0_eq_iff of_nat_le_0_iff)
  have bound: "x < length deg" if "x \<in> set (d # ds)" for x using Cons.prems(1) that by auto
  define new1 where "new1 = (if deg1 ! d = 0 then d # new else new)"
  have "set new1 = {i \<in> set (d # ds). deg ! i = int (count_list (d # ds) i)}"
  proof (rule set_eqI)
    fix x
    show "x \<in> set new1 \<longleftrightarrow> x \<in> {i \<in> set (d # ds). deg ! i = int (count_list (d # ds) i)}"
    proof (cases "x = d")
      case True
      have d1: "deg1 ! d = deg ! d - 1" using nth [OF d] by simp
      show ?thesis
      proof (cases "deg1 ! d = 0")
        case z: True
        then show ?thesis using True zero [OF z] d1 by (simp add: new1_def)
      next
        case False
        then have "d \<in> set new1 \<longleftrightarrow> d \<in> set ds \<and> deg1 ! d = int (count_list ds d)" using IH(5) by (simp add: new1_def)
        also have "\<dots> \<longleftrightarrow> deg1 ! d = int (count_list ds d)" using False count_list_0_iff [of ds d] by linarith
        finally show ?thesis using True d1 by (simp add: algebra_simps)
      qed
    next
      case False
      then have "x \<in> set new1 \<longleftrightarrow> x \<in> set new" by (simp add: new1_def)
      also have "\<dots> \<longleftrightarrow> x \<in> set ds \<and> deg1 ! x = int (count_list ds x)" unfolding IH(5) by simp
      also have "\<dots> \<longleftrightarrow> x \<in> set ds \<and> deg ! x = int (count_list ds x)"
        using nth [OF bound, of x] False by (metis list.set_intros(2))
      finally show ?thesis using False by simp
    qed
  qed
  moreover have "distinct new1" using IH(4,5) zero by (auto simp: new1_def count_list_0_iff)
  moreover have "deg' ! i = deg ! i - int (count_list (d # ds) i)" if "i < length deg" for i
    using IH(3) [OF that] nth [OF that] by auto
  moreover have "relax (d # ds) deg ready = (deg', ready @ new1)" using IH(1) step by (simp add: r1_def new1_def)
  ultimately show ?case using IH(2) by blast
qed simp

subsection \<open>The invariant of the sort\<close>

text \<open>
  \<open>D\<close> are the nodes taken off the queue so far: it is closed under dependencies, the in-degree of a node
  counts the dependencies outside \<open>D\<close>, and the queue holds the nodes that wait for nothing else.
\<close>

definition missing :: "dag \<Rightarrow> nat set \<Rightarrow> nat \<Rightarrow> nat" where
  "missing nodes D i = length (filter (\<lambda>d. d \<notin> D) (deps_of nodes i))"

definition kahn_inv :: "dag \<Rightarrow> nat list list \<Rightarrow> nat set \<Rightarrow> int list \<Rightarrow> nat list \<Rightarrow> bool" where
  "kahn_inv nodes dep D deg ready \<longleftrightarrow> dag_ok nodes \<and> length deg = length nodes \<and> D \<subseteq> {..< length nodes} \<and>
     (\<forall>v < length nodes. \<forall>j. count_list (dep ! v) j = (if j < length nodes then count_list (deps_of nodes j) v else 0)) \<and>
     (\<forall>i \<in> D. set (deps_of nodes i) \<subseteq> D) \<and>
     (\<forall>i < length nodes. deg ! i = int (missing nodes D i)) \<and>
     distinct ready \<and> set ready = {i. i < length nodes \<and> i \<notin> D \<and> set (deps_of nodes i) \<subseteq> D}"

lemma missing_insert:
  "v \<notin> D \<Longrightarrow> missing nodes (insert v D) i + count_list (deps_of nodes i) v = missing nodes D i"
proof -
  assume v: "v \<notin> D"
  have "length (filter (\<lambda>d. d \<notin> insert v D) xs) + count_list xs v = length (filter (\<lambda>d. d \<notin> D) xs)" for xs
    using v by (induction xs) auto
  then show ?thesis by (simp add: missing_def)
qed

lemma missing_0: "missing nodes D i = 0 \<longleftrightarrow> set (deps_of nodes i) \<subseteq> D"
  by (auto simp: missing_def filter_empty_conv)

lemma dependents_iff:
  assumes "kahn_inv nodes dep D deg ready" and "v < length nodes"
  shows "i \<in> set (dep ! v) \<longleftrightarrow> i < length nodes \<and> v \<in> set (deps_of nodes i)"
proof -
  have "count_list (dep ! v) i = (if i < length nodes then count_list (deps_of nodes i) v else 0)"
    using assms by (simp add: kahn_inv_def)
  then show ?thesis using count_list_0_iff [of "dep ! v" i] count_list_0_iff [of "deps_of nodes i" v] by (auto split: if_splits)
qed

lemma kahn_step:
  assumes inv: "kahn_inv nodes dep D deg (v # ready)"
  shows "\<exists>deg' new. relax (dep ! v) deg ready = (deg', ready @ new) \<and>
    kahn_inv nodes dep (insert v D) deg' (ready @ new)"
proof -
  let ?n = "length nodes"
  have v: "v < ?n" "v \<notin> D" "set (deps_of nodes v) \<subseteq> D" and dv: "v \<notin> set ready" "distinct ready"
    using inv by (auto simp: kahn_inv_def)
  have ready: "set ready = {i. i < ?n \<and> i \<notin> D \<and> set (deps_of nodes i) \<subseteq> D} - {v}"
    using inv dv unfolding kahn_inv_def by auto
  have cnt: "count_list (dep ! v) i = count_list (deps_of nodes i) v" if "i < ?n" for i
    using inv v(1) that by (simp add: kahn_inv_def)
  have deg: "deg ! i = int (missing nodes D i)" if "i < ?n" for i using inv that by (simp add: kahn_inv_def)
  have len: "length deg = ?n" using inv by (simp add: kahn_inv_def)
  have mem: "i \<in> set (dep ! v) \<longleftrightarrow> i < ?n \<and> v \<in> set (deps_of nodes i)" for i
    by (rule dependents_iff [OF inv v(1)])
  have "\<forall>d \<in> set (dep ! v). d < length deg" using mem len by auto
  moreover have "\<forall>i < length deg. int (count_list (dep ! v) i) \<le> deg ! i"
    using cnt deg len missing_insert [OF v(2), of nodes] by (metis le_add2 of_nat_le_iff)
  ultimately obtain deg' new where rel: "relax (dep ! v) deg ready = (deg', ready @ new)" "length deg' = length deg"
    "\<forall>i < length deg. deg' ! i = deg ! i - int (count_list (dep ! v) i)"
    "distinct new" "set new = {i \<in> set (dep ! v). deg ! i = int (count_list (dep ! v) i)}"
    using relax_correct by blast
  have deg': "deg' ! i = int (missing nodes (insert v D) i)" if "i < ?n" for i
    using rel(3) that cnt [OF that] deg [OF that] missing_insert [OF v(2), of nodes i] len by auto
  have new: "set new = {i. i < ?n \<and> v \<in> set (deps_of nodes i) \<and> set (deps_of nodes i) \<subseteq> insert v D}"
  proof (rule set_eqI)
    fix i
    have "deg ! i = int (count_list (dep ! v) i) \<longleftrightarrow> set (deps_of nodes i) \<subseteq> insert v D" if "i < ?n"
      using deg [OF that] cnt [OF that] missing_insert [OF v(2), of nodes i] missing_0 [of nodes "insert v D" i] by auto
    then show "i \<in> set new \<longleftrightarrow> i \<in> {i. i < ?n \<and> v \<in> set (deps_of nodes i) \<and> set (deps_of nodes i) \<subseteq> insert v D}"
      using rel(5) mem [of i] by auto
  qed
  have closed: "\<forall>i \<in> D. set (deps_of nodes i) \<subseteq> D" using inv by (simp add: kahn_inv_def)
  have self: "v \<notin> set (deps_of nodes v)" using v(2,3) by auto
  have "set (ready @ new) = {i. i < ?n \<and> i \<notin> insert v D \<and> set (deps_of nodes i) \<subseteq> insert v D}"
    unfolding set_append ready new using v closed self by auto
  moreover have "distinct (ready @ new)"
    using rel(4) dv(2) ready new v(2) by auto
  moreover have "\<forall>i \<in> insert v D. set (deps_of nodes i) \<subseteq> insert v D" using closed v(3) by auto
  ultimately have "kahn_inv nodes dep (insert v D) deg' (ready @ new)"
    using inv v(1) deg' rel(2) len unfolding kahn_inv_def by auto
  with rel(1) show ?thesis by blast
qed

lemma kahn_level:
  "kahn_inv nodes dep D deg ready \<Longrightarrow> k \<le> length ready \<Longrightarrow>
   \<exists>deg' ready'. run_level dep k deg ready level = (deg', ready', level @ take k ready) \<and>
     kahn_inv nodes dep (D \<union> set (take k ready)) deg' ready'"
proof (induction k arbitrary: D deg ready level)
  case (Suc k)
  then obtain v rest where r: "ready = v # rest" by (cases ready) auto
  from kahn_step [OF Suc.prems(1) [unfolded r]] obtain deg1 new
    where s: "relax (dep ! v) deg rest = (deg1, rest @ new)" "kahn_inv nodes dep (insert v D) deg1 (rest @ new)" by blast
  have "k \<le> length rest" using Suc.prems(2) r by simp
  with Suc.IH [OF s(2), of "level @ [v]"] s(1) r show ?case by auto
qed simp

lemma kahn_complete:
  assumes "kahn_inv nodes dep D deg []"
  shows "D = {..< length nodes}"
proof (rule ccontr)
  assume "D \<noteq> {..< length nodes}"
  then have "\<exists>i. i < length nodes \<and> i \<notin> D" using assms by (auto simp: kahn_inv_def)
  then obtain i where i: "i < length nodes" "i \<notin> D" and least: "\<And>j. j < i \<Longrightarrow> \<not> (j < length nodes \<and> j \<notin> D)"
    using exists_least_iff [of "\<lambda>i. i < length nodes \<and> i \<notin> D"] by blast
  have "set (deps_of nodes i) \<subseteq> D" using assms i least unfolding kahn_inv_def dag_ok_def by (meson less_trans subsetI)
  with i assms show False by (auto simp: kahn_inv_def)
qed

text \<open>The levels: every dependency of a node is in \<open>D\<close> or in an earlier level.\<close>

fun levels_ok :: "dag \<Rightarrow> nat set \<Rightarrow> nat list list \<Rightarrow> bool" where
  "levels_ok nodes D [] \<longleftrightarrow> True"
| "levels_ok nodes D (l # ls) \<longleftrightarrow> l \<noteq> [] \<and> (\<forall>i \<in> set l. set (deps_of nodes i) \<subseteq> D) \<and> levels_ok nodes (D \<union> set l) ls"

lemma kahn_levels:
  "kahn_inv nodes dep D deg ready \<Longrightarrow> length nodes - card D < fuel \<Longrightarrow>
   \<exists>ls. run_levels fuel dep deg ready levels = Some (levels @ ls) \<and> levels_ok nodes D ls \<and>
     distinct (concat ls) \<and> set (concat ls) = {..< length nodes} - D"
proof (induction fuel arbitrary: D deg ready levels)
  case (Suc fuel)
  show ?case
  proof (cases "ready = []")
    case True
    with kahn_complete Suc.prems(1) show ?thesis by (auto intro!: exI [of _ "[]"])
  next
    case False
    have r: "distinct ready" "set ready = {i. i < length nodes \<and> i \<notin> D \<and> set (deps_of nodes i) \<subseteq> D}"
      "D \<subseteq> {..< length nodes}" using Suc.prems(1) by (simp_all add: kahn_inv_def)
    from kahn_level [OF Suc.prems(1) order_refl, of "[]"] obtain deg' ready'
      where l: "run_level dep (length ready) deg ready [] = (deg', ready', ready)"
        "kahn_inv nodes dep (D \<union> set ready) deg' ready'" by auto
    have "card D < card (D \<union> set ready)"
    proof (rule psubset_card_mono)
      show "finite (D \<union> set ready)" using r(3) finite_subset by auto
      have "hd ready \<in> set ready" using False by simp
      moreover from this have "hd ready \<notin> D" unfolding r(2) by simp
      ultimately have "D \<noteq> D \<union> set ready" by (metis UnI2)
      then show "D \<subset> D \<union> set ready" by (simp only: psubset_eq Un_upper1 simp_thms)
    qed
    moreover have "card (D \<union> set ready) \<le> length nodes"
      using card_mono [of "{..< length nodes}" "D \<union> set ready"] r by auto
    ultimately have "length nodes - card (D \<union> set ready) < fuel" using Suc.prems(2) by linarith
    from Suc.IH [OF l(2) this, of "levels @ [ready]"] obtain ls where ls:
      "run_levels fuel dep deg' ready' (levels @ [ready]) = Some ((levels @ [ready]) @ ls)"
      "levels_ok nodes (D \<union> set ready) ls" "distinct (concat ls)"
      "set (concat ls) = {..< length nodes} - (D \<union> set ready)" by blast
    have "run_levels (Suc fuel) dep deg ready levels = Some (levels @ ready # ls)" using False l(1) ls(1) by simp
    moreover have "levels_ok nodes D (ready # ls)" using False r ls(2) by auto
    moreover have "distinct (concat (ready # ls))" "set (concat (ready # ls)) = {..< length nodes} - D"
      using r ls(3,4) by auto
    ultimately show ?thesis by blast
  qed
qed simp

lemma kahn_start:
  assumes "dag_ok nodes" and "degrees nodes = (deg, dep)"
  shows "kahn_inv nodes dep {} deg (filter (\<lambda>i. deg ! i = 0) [0 ..< length nodes])"
  using degrees_ok [OF assms(1)] assms unfolding kahn_inv_def degrees_ok_def missing_def by (auto split: if_splits)

lemma topological_sort_levels:
  assumes "dag_ok nodes"
  shows "\<exists>levels. topological_sort nodes = Some (Inr levels) \<and> levels_ok nodes {} levels \<and>
    distinct (concat levels) \<and> set (concat levels) = {..< length nodes}"
proof -
  obtain deg dep where d: "degrees nodes = (deg, dep)" by fastforce
  from kahn_levels [OF kahn_start [OF assms d], of "length nodes + 1" "[]"] obtain levels where
    l: "run_levels (length nodes + 1) dep deg (filter (\<lambda>i. deg ! i = 0) [0 ..< length nodes]) [] = Some levels"
      "levels_ok nodes {} levels" "distinct (concat levels)" "set (concat levels) = {..< length nodes}" by auto
  have "length (concat levels) = length nodes" using distinct_card [OF l(3)] l(4) by simp
  with l d show ?thesis by (simp add: topological_sort_def Let_def)
qed

lemma levels_ok_nth:
  "levels_ok nodes D ls \<Longrightarrow> k < length ls \<Longrightarrow> i \<in> set (ls ! k) \<Longrightarrow> d \<in> set (deps_of nodes i) \<Longrightarrow>
     d \<in> D \<union> set (concat (take k ls))"
proof (induction ls arbitrary: D k)
  case (Cons l ls)
  show ?case
  proof (cases k)
    case 0
    with Cons.prems show ?thesis by auto
  next
    case (Suc j)
    with Cons.prems have "d \<in> (D \<union> set l) \<union> set (concat (take j ls))" by (intro Cons.IH) auto
    with Suc show ?thesis by auto
  qed
qed simp

subsection \<open>Execution of the levels\<close>

text \<open>The numbers of the placeholders in a text, from left to right, and whether all of a node's fit into 64 bits.\<close>

function placeholders :: "string \<Rightarrow> nat list" where
  "placeholders [] = []"
| "placeholders (c # cs) =
     (case match_placeholder (c # cs) of
        None \<Rightarrow> placeholders cs
      | Some (ds, rest) \<Rightarrow> digits_value ds # placeholders rest)"
  by pat_completeness auto
termination
  by (relation "measure length") (auto dest: match_placeholder_shorter)

definition numbers_fit :: "dag_node \<Rightarrow> bool" where
  "numbers_fit nd \<longleftrightarrow> list_all (\<lambda>n. n < 2 ^ 64) (placeholders (arguments_json (node_call nd)))"

lemma substitute_cases:
  "case substitute results s of
     Inl e \<Rightarrow> e = Out_of_range ''stoull'' \<and> \<not> list_all (\<lambda>n. n < 2 ^ 64) (placeholders s)
   | Inr out \<Rightarrow> list_all (\<lambda>n. n < 2 ^ 64) (placeholders s)"
proof (induction results s rule: substitute.induct)
  case (2 results c cs)
  show ?case
  proof (cases "match_placeholder (c # cs)")
    case None
    with 2(1) show ?thesis by (cases "substitute results cs") auto
  next
    case (Some m)
    then obtain ds rest where m: "match_placeholder (c # cs) = Some (ds, rest)" by (cases m) simp
    show ?thesis
    proof (cases "digits_value ds \<ge> 2 ^ 64")
      case True
      with m show ?thesis by simp
    next
      case False
      with m 2(2) [OF m refl] show ?thesis by (cases "substitute results rest") auto
    qed
  qed
qed simp

lemma try_map_Inl: "try_map f xs = Inl e \<Longrightarrow> \<exists>x \<in> set xs. f x = Inl e"
  by (induction xs) (auto simp: try_bind_def split: sum.splits)

lemma run_batch_result:
  assumes "std_handlers reg"
  shows "case run_batch reg timely nodes level st of
      Inl e \<Rightarrow> e = Out_of_range ''stoull'' \<and> \<not> list_all (\<lambda>i. numbers_fit (nodes ! i)) level
    | Inr st' \<Rightarrow> list_all (\<lambda>i. numbers_fit (nodes ! i)) level \<and>
        (\<exists>rs. snd st' = snd st @ rs \<and> map tr_call_id rs = map (\<lambda>i. tc_id (node_call (nodes ! i))) level)"
proof -
  let ?f = "\<lambda>i. try_bind (substitute (fst st) (arguments_json (node_call (nodes ! i)))) (\<lambda>a.
      Inr ((node_call (nodes ! i))\<lparr>arguments_json := a\<rparr>)) :: exn + tool_call"
  show ?thesis
  proof (cases "try_map ?f level")
    case (Inl e)
    from try_map_Inl [OF Inl] obtain i where i: "i \<in> set level" "?f i = Inl e" by blast
    then have "substitute (fst st) (arguments_json (node_call (nodes ! i))) = Inl e" by (auto simp: try_bind_def split: sum.splits)
    with substitute_cases [where results = "fst st" and s = "arguments_json (node_call (nodes ! i))"]
    have "e = Out_of_range ''stoull''" "\<not> numbers_fit (nodes ! i)" by (simp_all add: numbers_fit_def)
    with i(1) have "e = Out_of_range ''stoull'' \<and> \<not> list_all (\<lambda>i. numbers_fit (nodes ! i)) level" by (auto simp: list_all_iff)
    with Inl show ?thesis by (simp add: run_batch_def)
  next
    case (Inr calls)
    obtain rs where rs: "execute_batch reg (\<lambda>k. timely (level ! k)) calls = Inr rs" "map tr_call_id rs = map tc_id calls"
      by (rule execute_batch_results [OF assms, of "\<lambda>k. timely (level ! k)" calls])
    have "map tc_id calls = map (\<lambda>i. tc_id (node_call (nodes ! i))) level"
    proof (rule nth_equalityI)
      show "length (map tc_id calls) = length (map (\<lambda>i. tc_id (node_call (nodes ! i))) level)"
        using try_map_length [OF Inr] by simp
      fix k
      assume "k < length (map tc_id calls)"
      then have k: "k < length level" using try_map_length [OF Inr] by simp
      from try_map_nth [OF Inr k] try_map_length [OF Inr] k
      show "map tc_id calls ! k = map (\<lambda>i. tc_id (node_call (nodes ! i))) level ! k"
        by (auto simp: try_bind_def dest!: arg_cong [of _ _ tc_id] split: sum.splits)
    qed
    moreover have "numbers_fit (nodes ! i)" if mem: "i \<in> set level" for i
    proof -
      obtain k where k: "k < length level" "level ! k = i" using mem by (auto simp: in_set_conv_nth)
      from try_map_nth [OF Inr k(1)] obtain a where "substitute (fst st) (arguments_json (node_call (nodes ! i))) = Inr a"
        by (cases "substitute (fst st) (arguments_json (node_call (nodes ! i)))") (simp_all add: k(2))
      with substitute_cases [where results = "fst st" and s = "arguments_json (node_call (nodes ! i))"] show ?thesis by (simp add: numbers_fit_def)
    qed
    ultimately show ?thesis using Inr rs by (simp add: run_batch_def list_all_iff)
  qed
qed

lemma run_batches_result:
  assumes "std_handlers reg"
  shows "case run_batches reg timely nodes levels st of
      Inl e \<Rightarrow> e = Out_of_range ''stoull'' \<and> \<not> list_all (\<lambda>i. numbers_fit (nodes ! i)) (concat levels)
    | Inr st' \<Rightarrow> list_all (\<lambda>i. numbers_fit (nodes ! i)) (concat levels) \<and>
        (\<exists>rs. snd st' = snd st @ rs \<and> map tr_call_id rs = map (\<lambda>i. tc_id (node_call (nodes ! i))) (concat levels))"
proof (induction levels arbitrary: st)
  case (Cons level levels)
  show ?case
  proof (cases "run_batch reg timely nodes level st")
    case (Inl e)
    with run_batch_result [OF assms, where timely = timely and nodes = nodes and level = level and st = st] show ?thesis by simp
  next
    case (Inr st1)
    with run_batch_result [OF assms, where timely = timely and nodes = nodes and level = level and st = st] obtain rs1 where rs1: "snd st1 = snd st @ rs1"
      "map tr_call_id rs1 = map (\<lambda>i. tc_id (node_call (nodes ! i))) level" "list_all (\<lambda>i. numbers_fit (nodes ! i)) level" by auto
    show ?thesis
    proof (cases "run_batches reg timely nodes levels st1")
      case Inl': (Inl e)
      with Inr Cons.IH [of st1] show ?thesis by simp
    next
      case Inr': (Inr st2)
      with Cons.IH [of st1] obtain rs2 where "snd st2 = snd st1 @ rs2" "list_all (\<lambda>i. numbers_fit (nodes ! i)) (concat levels)"
        "map tr_call_id rs2 = map (\<lambda>i. tc_id (node_call (nodes ! i))) (concat levels)" by auto
      with Inr Inr' rs1 show ?thesis by (auto intro!: exI [of _ "rs1 @ rs2"])
    qed
  qed
qed simp

subsection \<open>Properties\<close>

text \<open>
  C12. The sort of an acyclic graph returns, never reports a cycle, puts every node into exactly one level
  and every dependency of a node into an earlier level. The graphs that \<open>add_node\<close> builds are acyclic.
\<close>

theorem topological_sort_correct:
  assumes "dag_ok nodes"
  shows "\<exists>levels. topological_sort nodes = Some (Inr levels) \<and>
    distinct (concat levels) \<and> set (concat levels) = {..< length nodes} \<and>
    (\<forall>k < length levels. \<forall>i \<in> set (levels ! k). \<forall>d \<in> set (dependencies (nodes ! i)).
       d \<in> set (concat (take k levels)))"
  using topological_sort_levels [OF assms] levels_ok_nth [of nodes "{}"] by fastforce

definition diamond :: dag where
  "diamond =
     (let c = \<lparr>tc_id = ''c'', tc_name = ''t'', arguments_json = []\<rparr>
      in [\<lparr>node_call = c, dependencies = []\<rparr>, \<lparr>node_call = c, dependencies = [0]\<rparr>,
          \<lparr>node_call = c, dependencies = [0, 0]\<rparr>, \<lparr>node_call = c\<lparr>arguments_json := ''{{node_1_result}}''\<rparr>, dependencies = [1, 2]\<rparr>])"

lemma diamond_ok: "dag_ok diamond"
  by (auto simp: dag_ok_def diamond_def Let_def less_Suc_eq)

theorem topological_sort_correct_witness:
  "\<exists>levels. topological_sort diamond = Some (Inr levels) \<and> distinct (concat levels) \<and> set (concat levels) = {..< 4}"
  using topological_sort_correct [OF diamond_ok] by (auto simp: diamond_def Let_def)

text \<open>
  C34. Executing an acyclic graph answers every node exactly once, in the order of the levels, so after all
  its dependencies, exactly when (with handlers that throw standard exceptions) the number of every placeholder in the arguments
  fits into 64 bits; when one does not, the execution throws the exception of its conversion.
\<close>

theorem dag_execute_answers_every_node:
  assumes "dag_ok nodes" and "std_handlers reg"
  shows "\<exists>levels. topological_sort nodes = Some (Inr levels) \<and>
    (if list_all numbers_fit nodes
     then \<exists>rs. dag_execute reg timely nodes = Some (Inr rs) \<and> length rs = length nodes \<and>
        map tr_call_id rs = map (\<lambda>i. tc_id (node_call (nodes ! i))) (concat levels)
     else dag_execute reg timely nodes = Some (Inl (Out_of_range ''stoull'')))"
proof -
  obtain levels where l: "topological_sort nodes = Some (Inr levels)" "distinct (concat levels)" "set (concat levels) = {..< length nodes}"
    using topological_sort_levels [OF assms(1)] by blast
  have fit: "list_all (\<lambda>i. numbers_fit (nodes ! i)) (concat levels) \<longleftrightarrow> list_all numbers_fit nodes"
    unfolding list_all_iff l(3) by (metis in_set_conv_nth lessThan_iff)
  have len: "length (concat levels) = length nodes" using distinct_card [OF l(2), unfolded l(3)] by simp
  note run = run_batches_result [OF assms(2), where timely = timely and nodes = nodes and levels = levels and st = "(Map.empty, [])", unfolded fit]
  show ?thesis
  proof (cases "run_batches reg timely nodes levels (Map.empty, [])")
    case (Inl e)
    with run l(1) show ?thesis by (simp add: dag_execute_def)
  next
    case (Inr st)
    with run obtain rs where "list_all numbers_fit nodes" "snd st = rs" "map tr_call_id rs = map (\<lambda>i. tc_id (node_call (nodes ! i))) (concat levels)"
      by auto
    moreover from this(3) have "length rs = length nodes" using len by (metis length_map)
    ultimately show ?thesis using Inr l(1) by (simp add: dag_execute_def)
  qed
qed

theorem dag_execute_answers_every_node_witness:
  "\<exists>rs. dag_execute echo_registry (\<lambda>_. True) diamond = Some (Inr rs) \<and> length rs = 4"
proof -
  have "std_handlers echo_registry" by (simp add: std_handlers_def echo_registry_def register_tool_def)
  moreover have "map (placeholders \<circ> arguments_json \<circ> node_call) diamond = [[], [], [], [1]]" by code_simp
  then have "list_all numbers_fit diamond" "length diamond = 4" by (simp_all add: numbers_fit_def diamond_def Let_def)
  ultimately show ?thesis using dag_execute_answers_every_node [OF diamond_ok, of echo_registry "\<lambda>_. True"] by auto
qed

end
