(* ===== verification/Builtin_Tools.thy ===== *)
theory Builtin_Tools
  imports Tools Calculator "HOL-Library.Sublist"
begin

section \<open>The other built-in tools (src/src/tools/builtin/shell.h, file_read.h, web_search.h)\<close>

text \<open>
  The operating system is a parameter: what \<open>canonical\<close> and opening a file give (\<open>fs_ops\<close>), whether
  \<open>pipe\<close> and \<open>fork\<close> succeed and what the reads from the child's pipe return (\<open>shell_sys\<close>). The
  validation of the arguments, the tokenisation, the loop over the lines and the truncation are the code's.
\<close>

abbreviation quoted :: "string \<Rightarrow> string" where
  "quoted s \<equiv> [CHR 0x27] @ s @ [CHR 0x27]"

text \<open>The JSON schema of a tool's parameters: the fields with their types, and the required ones.\<close>

definition tool_schema :: "('j, 'x) json_ops_scheme \<Rightarrow> (string \<times> string \<times> string) list \<Rightarrow> string list \<Rightarrow> 'j" where
  "tool_schema J props req =
     j_object J
       [(''type'', j_string J ''object''),
        (''properties'', j_object J (map (\<lambda>(f, ty, d).
           (f, j_object J [(''type'', j_string J ty), (''description'', j_string J d)])) props)),
        (''required'', j_array J (map (j_string J) req))]"

definition builtin_spec :: "string \<Rightarrow> string \<Rightarrow> 'j \<Rightarrow> int \<Rightarrow> 'j tool_spec" where
  "builtin_spec name descr params timeout =
     \<lparr>spec_name = name, spec_description = descr, spec_parameters = params, spec_timeout = timeout,
      allow_parallel = True, idempotent = False\<rparr>"

subsection \<open>The shell tool\<close>

record shell_sys =
  sh_pipe :: bool
  sh_fork :: bool
  sh_reads :: "string list \<Rightarrow> string list"

text \<open>The white space that ends a token of an \<open>istringstream\<close>.\<close>

definition is_space :: "char \<Rightarrow> bool" where
  "is_space c \<longleftrightarrow> c \<in> {CHR '' '', CHR 0x09, CHR 0x0A, CHR 0x0B, CHR 0x0C, CHR 0x0D}"

definition is_metachar :: "char \<Rightarrow> bool" where
  "is_metachar c \<longleftrightarrow>
     c \<in> {CHR '';'', CHR ''&'', CHR ''|'', CHR 0x60, CHR ''$'', CHR 0x0A, CHR 0x0D, CHR ''>'', CHR ''<'', CHR ''('',
          CHR '')'', CHR ''{'', CHR ''}'', CHR ''!'', CHR 0x5C, CHR 0x27, CHR 0x22}"

definition command_allowed :: "string list \<Rightarrow> string \<Rightarrow> bool" where
  "command_allowed allowed command \<longleftrightarrow>
     list_ex (\<lambda>p. take (length p) command = p \<and>
       (length command = length p \<or> command ! length p = CHR '' '' \<or> command ! length p = CHR 0x09)) allowed"

fun join_comma :: "string list \<Rightarrow> string" where
  "join_comma [] = []"
| "join_comma [s] = s"
| "join_comma (s # r) = s @ '', '' @ join_comma r"

definition check_metachars :: "string \<Rightarrow> exn + unit" where
  "check_metachars command =
     (case find is_metachar command of
        Some c \<Rightarrow> Inl (Runtime_error (''Shell metacharacter '' @ quoted [c] @ '' not allowed in commands''))
      | None \<Rightarrow> Inr ())"

function tokenize :: "string \<Rightarrow> string list" where
  "tokenize s =
     (let s1 = dropWhile is_space s
      in if s1 = [] then []
         else takeWhile (\<lambda>c. \<not> is_space c) s1 # tokenize (dropWhile (\<lambda>c. \<not> is_space c) s1))"
  by pat_completeness auto
termination
proof (relation "measure length", simp, goal_cases)
  case (1 s s1)
  then have "s1 \<noteq> []" "\<not> is_space (hd s1)" using hd_dropWhile [of is_space s] by auto
  then have "length (dropWhile (\<lambda>c. \<not> is_space c) s1) < length s1"
    by (cases s1) (auto simp: le_imp_less_Suc length_dropWhile_le)
  with 1 show ?case using length_dropWhile_le [of is_space s] by simp
qed

declare tokenize.simps [simp del]

definition shell_argv :: "string list \<Rightarrow> string \<Rightarrow> exn + string list" where
  "shell_argv allowed command =
     (if command = [] then Inl (Runtime_error (''Missing '' @ quoted ''command'' @ '' parameter''))
      else if allowed \<noteq> [] \<and> \<not> command_allowed allowed command then
        Inl (Runtime_error (''Command not allowed. Permitted: '' @ join_comma allowed))
      else try_bind (check_metachars command) (\<lambda>_.
        let tokens = tokenize command
        in if tokens = [] then Inl (Runtime_error ''Empty command after parsing'') else Inr tokens))"

text \<open>The reads of the parent until one returns nothing, and the truncation of the output.\<close>

definition shell_output :: "shell_sys \<Rightarrow> string list \<Rightarrow> exn + string" where
  "shell_output S argv =
     (if \<not> sh_pipe S then Inl (Runtime_error ''Failed to create pipe'')
      else if \<not> sh_fork S then Inl (Runtime_error ''Failed to fork'')
      else Inr (concat (takeWhile (\<lambda>chunk. chunk \<noteq> []) (sh_reads S argv))))"

definition truncate_output :: "string \<Rightarrow> string" where
  "truncate_output out =
     (if 50000 < length out then take 50000 out @ nl @ ''... (output truncated at 50KB)'' @ nl else out)"

definition shell_handler :: "('j, 'x) json_ops_scheme \<Rightarrow> shell_sys \<Rightarrow> string list \<Rightarrow> handler" where
  "shell_handler J S allowed args_json =
     try_bind (j_parse J args_json) (\<lambda>j.
     try_bind (value_str J j ''command'' []) (\<lambda>command.
     try_bind (shell_argv allowed command) (\<lambda>argv.
     try_bind (shell_output S argv) (\<lambda>out. Inr (truncate_output out)))))"

definition default_allowed :: "string list" where
  "default_allowed =
     [''ls'', ''cat'', ''head'', ''tail'', ''wc'', ''grep'', ''find'', ''date'', ''echo'', ''pwd'', ''whoami'']"

definition register_shell :: "('j, 'x) json_ops_scheme \<Rightarrow> shell_sys \<Rightarrow> string list \<Rightarrow> 'j registry \<Rightarrow> 'j registry" where
  "register_shell J S allowed =
     register_tool
       (builtin_spec ''shell''
         ''Run a shell command and return stdout/stderr. Only allowlisted commands are permitted.''
         (tool_schema J [(''command'', ''string'', ''The shell command to execute'')] [''command'']) 10000)
       (shell_handler J S allowed)"

subsection \<open>The file reading tool\<close>

record fs_ops =
  fs_canonical :: "string \<Rightarrow> string option"
  fs_open :: "string \<Rightarrow> string option"

text \<open>\<open>operator/\<close> of \<open>std::filesystem::path\<close> with a relative right-hand side.\<close>

definition path_join :: "string \<Rightarrow> string \<Rightarrow> string" where
  "path_join a b = (if a = [] \<or> last a = CHR ''/'' then a @ b else a @ ''/'' @ b)"

definition under_sandbox :: "string \<Rightarrow> string \<Rightarrow> bool" where
  "under_sandbox root p \<longleftrightarrow>
     \<not> (p \<noteq> root \<and> (length p \<le> length root \<or> take (length root) p \<noteq> root \<or> p ! length root \<noteq> CHR ''/''))"

definition resolve_path :: "fs_ops \<Rightarrow> string \<Rightarrow> string \<Rightarrow> exn + string" where
  "resolve_path fs sandbox path =
     (case (if sandbox = [] then Some [] else fs_canonical fs sandbox) of
        None \<Rightarrow> Inl (Runtime_error (''Invalid sandbox directory: '' @ sandbox))
      | Some root \<Rightarrow>
          let requested = (if sandbox \<noteq> [] \<and> hd path \<noteq> CHR ''/'' then path_join root path else path)
          in case fs_canonical fs requested of
               None \<Rightarrow> Inl (Runtime_error (''Cannot resolve path: '' @ path))
             | Some p \<Rightarrow>
                 if sandbox \<noteq> [] \<and> \<not> under_sandbox root p then Inl (Runtime_error (''Path escapes sandbox: '' @ path))
                 else Inr p)"

text \<open>
  \<open>std::getline\<close> on a text with something left: the line, what is left, and whether the end of the file
  was met.
\<close>

definition getline :: "string \<Rightarrow> string \<times> string \<times> bool" where
  "getline s =
     (let rest = dropWhile (\<lambda>c. c \<noteq> CHR 0x0A) s
      in (takeWhile (\<lambda>c. c \<noteq> CHR 0x0A) s, drop 1 rest, rest = []))"

text \<open>
  The loop \<open>while (std::getline(ifs, line) && count < max_lines)\<close>: what it appends, the final count and the
  stream's \<open>eof()\<close>. The line is read before the count is tested.
\<close>

function read_lines :: "int \<Rightarrow> int \<Rightarrow> string \<Rightarrow> string \<times> int \<times> bool" where
  "read_lines max_lines n s =
     (if s = [] then ([], n, True)
      else let (line, rest, eof) = getline s
        in if n < max_lines then
             let (out, c, e) = read_lines max_lines (n + 1) rest in (line @ nl @ out, c, e)
           else ([], n, eof))"
  by pat_completeness auto
termination
proof (relation "measure (\<lambda>(m, c, s). length s)", simp, goal_cases)
  case (1 m c s x line y rest eof)
  then have "rest = drop 1 (dropWhile (\<lambda>c. c \<noteq> CHR 0x0A) s)" by (simp add: getline_def Let_def)
  with 1(1) show ?case using length_dropWhile_le [of "\<lambda>c. c \<noteq> CHR 0x0A" s] by (cases s) (auto simp: le_imp_less_Suc)
qed

declare read_lines.simps [simp del]

definition read_limited :: "int \<Rightarrow> string \<Rightarrow> string" where
  "read_limited max_lines text =
     (let (out, n, eof) = read_lines max_lines 0 text
      in if n = max_lines \<and> \<not> eof
         then out @ nl @ ''... (truncated at '' @ to_string_int max_lines @ '' lines)'' @ nl
         else out)"

definition file_read_handler :: "('j, 'x) json_ops_scheme \<Rightarrow> fs_ops \<Rightarrow> string \<Rightarrow> handler" where
  "file_read_handler J fs sandbox args_json =
     try_bind (j_parse J args_json) (\<lambda>j.
     try_bind (value_str J j ''path'' []) (\<lambda>path.
     try_bind (value_int J j ''max_lines'' 200) (\<lambda>max_lines.
       if path = [] then Inl (Runtime_error (''Missing '' @ quoted ''path'' @ '' parameter''))
       else try_bind (resolve_path fs sandbox path) (\<lambda>full_path.
         case fs_open fs full_path of
           None \<Rightarrow> Inl (Runtime_error (''Cannot open file: '' @ full_path))
         | Some text \<Rightarrow> Inr (read_limited max_lines text)))))"

definition register_file_read :: "('j, 'x) json_ops_scheme \<Rightarrow> fs_ops \<Rightarrow> string \<Rightarrow> 'j registry \<Rightarrow> 'j registry" where
  "register_file_read J fs sandbox =
     register_tool
       (builtin_spec ''file_read''
         ''Read the contents of a text file. Paths are relative to the working directory.''
         (tool_schema J
            [(''path'', ''string'', ''File path to read (relative to working directory)''),
             (''max_lines'', ''integer'', ''Maximum number of lines to read (default: 200)'')] [''path'']) 5000)
       (file_read_handler J fs sandbox)"

subsection \<open>The search placeholder and the calculator\<close>

definition web_search_handler :: "('j, 'x) json_ops_scheme \<Rightarrow> handler" where
  "web_search_handler J args_json =
     try_bind (j_parse J args_json) (\<lambda>j.
     try_bind (value_str J j ''query'' []) (\<lambda>query.
       if query = [] then Inl (Runtime_error (''Missing '' @ quoted ''query'' @ '' parameter''))
       else Inr (''[web_search] No search API configured. Query was: '' @ [CHR 0x22] @ query @ [CHR 0x22] @
         ''. To enable real search, configure a SerpAPI or Brave Search API key. For now, try using other tools to answer the question.'')))"

definition register_web_search :: "('j, 'x) json_ops_scheme \<Rightarrow> 'j registry \<Rightarrow> 'j registry" where
  "register_web_search J =
     register_tool
       (builtin_spec ''web_search'' ''Search the web for information. Returns a summary of top results.''
         (tool_schema J [(''query'', ''string'', ''The search query'')] [''query'']) 15000)
       (web_search_handler J)"

text \<open>The parser always returns (\<open>Calculator\<close>), so the result of the handler is there.\<close>

definition register_calculator :: "('j, 'x) json_ops_scheme \<Rightarrow> ('d, 'y) float_ops_scheme \<Rightarrow> 'j registry \<Rightarrow> 'j registry" where
  "register_calculator J F =
     register_tool
       (builtin_spec ''calculator''
         ''Evaluate a mathematical expression. Supports +, -, *, /, ^ (power), parentheses.''
         (tool_schema J
            [(''expression'', ''string'', ''The math expression to evaluate, e.g. '' @ quoted ''2^10 + 3*17'')] [''expression'']) 1000)
       (\<lambda>args. the (calculator_handler J F args))"

subsection \<open>Which commands run\<close>

lemma check_metachars_ok: "check_metachars command = Inr u \<longleftrightarrow> (\<forall>c \<in> set command. \<not> is_metachar c)"
  by (auto simp: check_metachars_def find_None_iff find_Some_iff split: option.splits)

lemma tokenize_set: "t \<in> set (tokenize s) \<Longrightarrow> t \<noteq> [] \<and> set t \<subseteq> set s \<and> (\<forall>c \<in> set t. \<not> is_space c)"
proof (induction s rule: tokenize.induct)
  case (1 s)
  let ?s1 = "dropWhile is_space s"
  let ?rest = "dropWhile (\<lambda>c. \<not> is_space c) ?s1"
  have sub: "set ?s1 \<subseteq> set s" "set ?rest \<subseteq> set s" "set (takeWhile (\<lambda>c. \<not> is_space c) ?s1) \<subseteq> set s"
    by (auto dest: set_dropWhileD set_takeWhileD)
  from 1(2) have "?s1 \<noteq> []" and t: "t = takeWhile (\<lambda>c. \<not> is_space c) ?s1 \<or> t \<in> set (tokenize ?rest)"
    by (auto simp: tokenize.simps [of s] Let_def split: if_splits)
  have ne: "takeWhile (\<lambda>c. \<not> is_space c) ?s1 \<noteq> []"
    using \<open>?s1 \<noteq> []\<close> hd_dropWhile [of is_space s] by (cases ?s1) auto
  from t show ?case
  proof
    assume "t = takeWhile (\<lambda>c. \<not> is_space c) ?s1"
    moreover have "\<forall>c \<in> set (takeWhile (\<lambda>c. \<not> is_space c) ?s1). \<not> is_space c" using set_takeWhileD by fast
    ultimately show ?thesis using ne sub(3) by (simp only: simp_thms)
  next
    assume "t \<in> set (tokenize ?rest)"
    from 1(1) [OF refl \<open>?s1 \<noteq> []\<close> this] sub(2) show ?thesis by blast
  qed
qed

lemma hd_tokenize_prefix:
  assumes "p \<noteq> []" and "\<forall>c \<in> set p. \<not> is_space c" and "r = [] \<or> is_space (hd r)"
  shows "tokenize (p @ r) = p # tokenize r"
proof -
  have "dropWhile is_space (p @ r) = p @ r" using assms by (cases p) auto
  moreover have "takeWhile (\<lambda>c. \<not> is_space c) (p @ r) = p" "dropWhile (\<lambda>c. \<not> is_space c) (p @ r) = r"
    using assms(2,3) by (auto simp: takeWhile_append dropWhile_append takeWhile_eq_Nil_iff dropWhile_eq_self_iff)
  ultimately show ?thesis using assms(1) by (simp add: tokenize.simps [of "p @ r"])
qed

lemma command_allowed_tokens:
  assumes "command_allowed allowed command" and "\<forall>p \<in> set allowed. p \<noteq> [] \<and> (\<forall>c \<in> set p. \<not> is_space c)"
  shows "tokenize command \<noteq> [] \<and> hd (tokenize command) \<in> set allowed"
proof -
  obtain p where p: "p \<in> set allowed" "take (length p) command = p"
    and f: "length command = length p \<or> command ! length p = CHR '' '' \<or> command ! length p = CHR 0x09"
    using assms(1) by (auto simp: command_allowed_def list_ex_iff)
  let ?r = "drop (length p) command"
  have c: "command = p @ ?r" using p(2) by (metis append_take_drop_id)
  have "?r = [] \<or> is_space (hd ?r)"
  proof (cases "length p < length command")
    case True
    with f show ?thesis by (auto simp: hd_drop_conv_nth is_space_def)
  qed simp
  with assms(2) p(1) have "tokenize (p @ ?r) = p # tokenize ?r" by (intro hd_tokenize_prefix) auto
  with c p(1) show ?thesis by simp
qed

lemma shell_argv_ok:
  assumes "shell_argv allowed command = Inr argv" and "allowed \<noteq> []"
    and "\<forall>p \<in> set allowed. p \<noteq> [] \<and> (\<forall>c \<in> set p. \<not> is_space c)"
  shows "argv \<noteq> [] \<and> hd argv \<in> set allowed \<and>
    (\<forall>t \<in> set argv. t \<noteq> [] \<and> (\<forall>c \<in> set t. \<not> is_space c \<and> \<not> is_metachar c))"
proof -
  have a: "command_allowed allowed command" "\<forall>c \<in> set command. \<not> is_metachar c" "argv = tokenize command"
    using assms(1,2) check_metachars_ok by (auto simp: shell_argv_def Let_def split: if_splits)
  have "t \<noteq> [] \<and> (\<forall>c \<in> set t. \<not> is_space c \<and> \<not> is_metachar c)" if "t \<in> set argv" for t
    using tokenize_set [of t command] that a(2,3) by auto
  then show ?thesis using command_allowed_tokens [OF a(1) assms(3)] a(3) by simp
qed

lemma truncate_output_length: "length (truncate_output out) \<le> 50000 + 32"
  by (simp add: truncate_output_def)

text \<open>
  C21. With an allowlist of plain words the shell tool starts only listed programs: when the handler returns, the program that
  was executed is on the list, no argument holds white space or a shell metacharacter, and the output is what
  the program wrote, cut at 50000 bytes.
\<close>

theorem shell_runs_allowed_only:
  assumes "shell_handler J S allowed args = Inr out" and "allowed \<noteq> []"
    and "\<forall>p \<in> set allowed. p \<noteq> [] \<and> (\<forall>c \<in> set p. \<not> is_space c)"
  shows "\<exists>j command argv. j_parse J args = Inr j \<and> value_str J j ''command'' [] = Inr command \<and>
    argv = tokenize command \<and> argv \<noteq> [] \<and> hd argv \<in> set allowed \<and>
    (\<forall>t \<in> set argv. t \<noteq> [] \<and> (\<forall>c \<in> set t. \<not> is_space c \<and> \<not> is_metachar c)) \<and>
    shell_output S argv = Inr (concat (takeWhile (\<lambda>chunk. chunk \<noteq> []) (sh_reads S argv))) \<and>
    take 50000 out = take 50000 (concat (takeWhile (\<lambda>chunk. chunk \<noteq> []) (sh_reads S argv))) \<and> length out \<le> 50032"
proof -
  obtain j command argv o1 where "j_parse J args = Inr j" "value_str J j ''command'' [] = Inr command" "shell_argv allowed command = Inr argv" "shell_output S argv = Inr o1" "out = truncate_output o1"
    using assms(1) by (auto simp: shell_handler_def)
  moreover from this(3) have "argv = tokenize command" by (auto simp: shell_argv_def Let_def split: if_splits)
  moreover from \<open>shell_output S argv = Inr o1\<close> have "o1 = concat (takeWhile (\<lambda>chunk. chunk \<noteq> []) (sh_reads S argv))"
    by (auto simp: shell_output_def split: if_splits)
  ultimately show ?thesis
    using shell_argv_ok [OF _ assms(2,3)] truncate_output_length [of o1] by (intro exI [of _ j] exI [of _ command] exI [of _ argv]) (simp add: truncate_output_def)
qed

theorem shell_runs_allowed_only_witness:
  "\<exists>argv. argv \<noteq> [] \<and> hd argv \<in> set default_allowed \<and> sh_reads \<lparr>sh_pipe = True, sh_fork = True, sh_reads = id\<rparr> argv = argv"
proof -
  let ?S = "\<lparr>sh_pipe = True, sh_fork = True, sh_reads = id\<rparr>"
  have "shell_handler plain_json ?S default_allowed ''echo hi'' = Inr ''echohi''"
    by (simp add: shell_handler_def plain_json_def value_str_def get_str_def shell_argv_def command_allowed_def default_allowed_def
        check_metachars_def is_metachar_def is_space_def tokenize.simps Let_def shell_output_def truncate_output_def)
  from shell_runs_allowed_only [OF this] show ?thesis by (auto simp: default_allowed_def is_space_def)
qed

subsection \<open>Which files are read, and how much of them\<close>

text \<open>The lines of a text: what lies between the newlines, without an empty one after the last nl.\<close>

primrec file_lines :: "string \<Rightarrow> string list" where
  "file_lines [] = []"
| "file_lines (c # s) =
     (if c = CHR 0x0A then [] # file_lines s
      else case file_lines s of [] \<Rightarrow> [[c]] | l # ls \<Rightarrow> (c # l) # ls)"

lemma file_lines_getline:
  "s \<noteq> [] \<Longrightarrow> getline s = (line, rest, eof) \<Longrightarrow>
     file_lines s = line # file_lines rest \<and> (eof \<longleftrightarrow> rest = [] \<and> last s \<noteq> CHR 0x0A) \<and> (rest \<noteq> [] \<longrightarrow> last rest = last s)"
proof (induction s arbitrary: line)
  case (Cons c s)
  show ?case
  proof (cases "c = CHR 0x0A \<or> s = []")
    case True
    with Cons.prems show ?thesis by (auto simp: getline_def Let_def)
  next
    case False
    obtain line' where g: "getline s = (line', rest, eof)" and "line = c # line'"
      using Cons.prems(2) False by (auto simp: getline_def Let_def)
    with Cons.IH [OF _ g] False show ?thesis by auto
  qed
qed simp

lemma read_lines_result:
  "read_lines m n s =
     (concat (map (\<lambda>l. l @ nl) (take (nat (m - n)) (file_lines s))),
      n + int (min (nat (m - n)) (length (file_lines s))),
      length (file_lines s) \<le> nat (m - n) \<or> length (file_lines s) = Suc (nat (m - n)) \<and> last s \<noteq> CHR 0x0A)"
proof (induction m n s rule: read_lines.induct)
  case (1 m n s)
  show ?case
  proof (cases "s = []")
    case True
    then show ?thesis by (simp add: read_lines.simps [of m n])
  next
    case False
    obtain line rest eof where g: "getline s = (line, rest, eof)" by (cases "getline s") auto
    note f = file_lines_getline [OF False g]
    have e: "file_lines rest = [] \<longleftrightarrow> rest = []" by (cases rest) (auto split: list.splits)
    show ?thesis
    proof (cases "n < m")
      case True
      then have k: "nat (m - n) = Suc (nat (m - (n + 1)))" by simp
      from 1 [OF False g [symmetric] refl refl True] f False True g k e show ?thesis
        by (auto simp: read_lines.simps [of m n s])
    next
      case gt: False
      with f False g e show ?thesis by (auto simp: read_lines.simps [of m n s])
    qed
  qed
qed

text \<open>
  What the tool shows of a text: the first lines, and a notice exactly when at least two more lines are there or one more line
  that ends with a nl.
\<close>

definition shown :: "int \<Rightarrow> string \<Rightarrow> string" where
  "shown m text =
     (let ls = file_lines text; out = concat (map (\<lambda>l. l @ nl) (take (nat m) ls))
      in if 0 \<le> m \<and> nat m < length ls \<and> (Suc (nat m) < length ls \<or> last text = CHR 0x0A)
         then out @ nl @ ''... (truncated at '' @ to_string_int m @ '' lines)'' @ nl else out)"

lemma read_limited_shown: "read_limited m text = shown m text"
  by (auto simp: read_limited_def shown_def read_lines_result Let_def)

lemma under_sandbox_prefix: "under_sandbox root p \<longleftrightarrow> p = root \<or> prefix (root @ ''/'') p"
proof -
  have "prefix (root @ ''/'') p \<longleftrightarrow> length root < length p \<and> take (length root) p = root \<and> p ! length root = CHR ''/''"
  proof
    assume r: "length root < length p \<and> take (length root) p = root \<and> p ! length root = CHR ''/''"
    then have "take (Suc (length root)) p = root @ ''/''" by (simp add: take_Suc_conv_app_nth)
    then show "prefix (root @ ''/'') p" by (metis take_is_prefix)
  qed (auto elim!: prefixE)
  then show ?thesis by (auto simp: under_sandbox_def)
qed

text \<open>
  C22. The file tool reads only inside its sandbox: when the handler returns, the file it opened is, in the canonical form the system gives,
  the sandbox directory or below it, and the output is the first \<open>max_lines\<close> lines of that file with a notice when lines were cut
  (except for a single cut line that has no nl).
\<close>

theorem file_read_confined:
  assumes "file_read_handler J fs sandbox args = Inr out" and "sandbox \<noteq> []"
  shows "\<exists>j m root q p text. j_parse J args = Inr j \<and> value_int J j ''max_lines'' 200 = Inr m \<and>
    fs_canonical fs sandbox = Some root \<and> fs_canonical fs q = Some p \<and> (p = root \<or> prefix (root @ ''/'') p) \<and>
    fs_open fs p = Some text \<and> out = shown m text"
proof -
  obtain j path p body m where "j_parse J args = Inr j" "value_int J j ''max_lines'' 200 = Inr m"
    and p: "resolve_path fs sandbox path = Inr p" and "fs_open fs p = Some body"
    and "out = shown m body"
    using assms(1) by (auto simp: file_read_handler_def read_limited_shown split: if_splits option.splits)
  moreover obtain root q where "fs_canonical fs sandbox = Some root" "fs_canonical fs q = Some p" "under_sandbox root p"
    using p assms(2) by (auto simp: resolve_path_def Let_def split: option.splits if_splits)
  ultimately show ?thesis unfolding under_sandbox_prefix by blast
qed

definition small_fs :: fs_ops where
  "small_fs =
     \<lparr>fs_canonical = (\<lambda>q. if q = ''.'' then Some ''/w'' else if q = ''/w/a'' then Some q else None),
      fs_open = (\<lambda>p. if p = ''/w/a'' then Some (''x'' @ nl @ ''y'') else None)\<rparr>"

theorem file_read_confined_witness:
  "\<exists>root p text. fs_canonical small_fs ''.'' = Some root \<and> (p = root \<or> prefix (root @ ''/'') p) \<and> fs_open small_fs p = Some text"
proof -
  have "file_read_handler plain_json small_fs ''.'' ''a'' = Inr (shown 200 (''x'' @ nl @ ''y''))"
    by (simp add: file_read_handler_def plain_json_def value_str_def value_int_def get_int_def get_str_def resolve_path_def path_join_def
        under_sandbox_def small_fs_def read_limited_shown)
  from file_read_confined [OF this] show ?thesis by blast
qed

end
