(* ===== verification/React.thy ===== *)
theory React
  imports Tools Conversation
begin

section \<open>Sessions and the ReAct workflow (src/src/session/session.h, workflow/workflow.h, workflow/react.cpp)\<close>

text \<open>
  The state of a session and the loop that alternates between the language model and the tools. What a run
  meets from outside is the record \<open>env\<close>: whether the cancellation flag is set when round \<open>i\<close> looks at it, the
  clock in round \<open>i\<close>, what the future of the model's answer yields for the request of round \<open>i\<close>, and which
  tools are in time. An exception leaves the session as it was when it was thrown.
\<close>

subsection \<open>Sessions\<close>

datatype session_state =
  CREATED | WAITING_FOR_LLM | EXECUTING_TOOLS | WAITING_FOR_HUMAN | COMPLETED | FAILED | CANCELLED

definition session_state_name :: "session_state \<Rightarrow> string" where
  "session_state_name s =
     (case s of
        CREATED \<Rightarrow> ''created'' | WAITING_FOR_LLM \<Rightarrow> ''waiting_for_llm'' | EXECUTING_TOOLS \<Rightarrow> ''executing_tools''
      | WAITING_FOR_HUMAN \<Rightarrow> ''waiting_for_human'' | COMPLETED \<Rightarrow> ''completed'' | FAILED \<Rightarrow> ''failed''
      | CANCELLED \<Rightarrow> ''cancelled'')"

record session_config =
  max_iterations :: "32 word"
  max_history :: nat
  cfg_timeout :: int

definition default_session_config :: session_config where
  "default_session_config = \<lparr>max_iterations = 15, max_history = 100, cfg_timeout = 300\<rparr>"

record session =
  s_id :: nat
  s_state :: session_state
  history :: conversation
  s_config :: session_config
  step_count :: "32 word"
  deadline :: int
  created_at :: int
  initial_prompt :: string
  final_answer :: string
  s_error :: string
  cancel_requested :: bool

text \<open>Times are in nanoseconds, the timeout of the configuration is in seconds.\<close>

definition session_new :: "nat \<Rightarrow> session_config \<Rightarrow> int \<Rightarrow> session" where
  "session_new i cfg now =
     \<lparr>s_id = i, s_state = CREATED, history = conv_new (max_history cfg), s_config = cfg, step_count = 0,
      deadline = now + 1000000000 * cfg_timeout cfg, created_at = now, initial_prompt = [], final_answer = [], s_error = [],
      cancel_requested = False\<rparr>"

definition is_terminal :: "session \<Rightarrow> bool" where
  "is_terminal s \<longleftrightarrow> s_state s = COMPLETED \<or> s_state s = FAILED \<or> s_state s = CANCELLED"

definition is_timed_out :: "int \<Rightarrow> session \<Rightarrow> bool" where
  "is_timed_out now s \<longleftrightarrow> now > deadline s"

definition exceeded_max_iterations :: "session \<Rightarrow> bool" where
  "exceeded_max_iterations s \<longleftrightarrow> step_count s \<ge> max_iterations (s_config s)"

definition push_history :: "message \<Rightarrow> session \<Rightarrow> session" where
  "push_history m s = s\<lparr>history := conv_push m (history s)\<rparr>"

text \<open>\<open>set_error\<close> followed by the store of a terminal state.\<close>

definition stop_with :: "session_state \<Rightarrow> string \<Rightarrow> session \<Rightarrow> session" where
  "stop_with st err s = s\<lparr>s_error := err, s_state := st\<rparr>"

record workflow_result =
  success :: bool
  answer :: string
  wf_error :: string
  steps_taken :: int
  total_prompt_tokens :: "32 word"
  total_completion_tokens :: "32 word"

definition workflow_result_new :: workflow_result where
  "workflow_result_new =
     \<lparr>success = False, answer = [], wf_error = [], steps_taken = 0, total_prompt_tokens = 0, total_completion_tokens = 0\<rparr>"

subsection \<open>What a workflow meets\<close>

record 'j env =
  env_cancel :: "nat \<Rightarrow> bool"
  env_now :: "nat \<Rightarrow> int"
  env_llm :: "nat \<Rightarrow> 'j \<Rightarrow> 'j \<Rightarrow> exn + llm_response"
  env_timely :: "nat \<Rightarrow> nat \<Rightarrow> bool"

subsection \<open>One round of the loop\<close>

text \<open>The token counters are \<open>int\<close>s: the words wrap, where an overflow of a C++ \<open>int\<close> is undefined.\<close>

datatype round = Go_on session "32 word" "32 word" | Stop session "32 word" "32 word" | Throw session exn

definition observe_cancel :: "'j env \<Rightarrow> nat \<Rightarrow> session \<Rightarrow> bool" where
  "observe_cancel E i s \<longleftrightarrow> cancel_requested s \<or> env_cancel E i"

text \<open>The three guards at the head of a round.\<close>

definition guards :: "'j env \<Rightarrow> nat \<Rightarrow> session \<Rightarrow> session option" where
  "guards E i s =
     (if observe_cancel E i s then Some (stop_with CANCELLED ''Cancelled by user'' s)
      else if exceeded_max_iterations s then
        Some (stop_with FAILED (''Maximum iterations ('' @ to_string_nat (unat (max_iterations (s_config s))) @ '') exceeded'') s)
      else if is_timed_out (env_now E i) s then Some (stop_with FAILED ''Session timed out'' s)
      else None)"

definition tool_message :: "tool_result \<Rightarrow> message" where
  "tool_message tr = \<lparr>role = ''tool'', content = tr_output tr, tool_calls = [], tool_call_id = tr_call_id tr\<rparr>"

text \<open>What follows a response without an error: tool calls, a final answer, or neither.\<close>

definition handle_message :: "'j registry \<Rightarrow> (nat \<Rightarrow> bool) \<Rightarrow> message \<Rightarrow> 32 word \<Rightarrow> 32 word \<Rightarrow> session \<Rightarrow> round" where
  "handle_message reg timely msg pt ct s =
     (let s1 = push_history msg s in
      if has_tool_calls msg then
        let s2 = s1\<lparr>s_state := EXECUTING_TOOLS\<rparr>
        in case execute_batch reg timely (tool_calls msg) of
             Inl e \<Rightarrow> Throw s2 e
           | Inr trs \<Rightarrow> Go_on (fold (push_history \<circ> tool_message) trs s2) pt ct
      else if has_content msg then
        Stop (s1\<lparr>final_answer := content msg, s_state := COMPLETED\<rparr>) pt ct
      else Stop (stop_with FAILED ''LLM returned empty response (no content, no tool calls)'' s1) pt ct)"

definition react_round :: "('j, 'x) json_ops_scheme \<Rightarrow> 'j registry \<Rightarrow> 'j env \<Rightarrow> nat \<Rightarrow> session \<Rightarrow> 32 word \<Rightarrow> 32 word \<Rightarrow> round" where
  "react_round J reg E i s pt ct =
     (case guards E i s of
        Some s' \<Rightarrow> Stop s' pt ct
      | None \<Rightarrow>
          let s1 = s\<lparr>s_state := WAITING_FOR_LLM, step_count := step_count s + 1\<rparr>
          in case env_llm E i (conv_to_json J (history s1)) (to_openai_tools_json J reg) of
               Inl e \<Rightarrow> Throw s1 e
             | Inr resp \<Rightarrow>
                 if resp_error resp \<noteq> [] then Stop (stop_with FAILED (''LLM error: '' @ resp_error resp) s1) pt ct
                 else handle_message reg (env_timely E i) (resp_message resp)
                        (pt + prompt_tokens resp) (ct + completion_tokens resp) s1)"

lemma push_history_simps [simp]:
  "s_state (push_history m s) = s_state s" "step_count (push_history m s) = step_count s"
  "s_config (push_history m s) = s_config s" "final_answer (push_history m s) = final_answer s"
  "s_error (push_history m s) = s_error s" "history (push_history m s) = conv_push m (history s)"
  "s_id (push_history m s) = s_id s" "created_at (push_history m s) = created_at s"
  "cancel_requested (push_history m s) = cancel_requested s"
  by (simp_all add: push_history_def)

lemma fold_push_history:
  "fold (push_history \<circ> f) xs s = s\<lparr>history := push_all (map f xs) (history s)\<rparr>"
  by (induction xs arbitrary: s) (simp_all add: push_all_def push_history_def)

text \<open>A round that goes on has called the model once and counted it.\<close>

lemma react_round_go_on:
  assumes "react_round J reg E i s pt ct = Go_on s' pt' ct'"
  shows "step_count s < max_iterations (s_config s)" and "step_count s' = step_count s + 1"
    and "s_config s' = s_config s" and "\<not> is_terminal s'"
  using assms
  by (auto simp: react_round_def guards_def handle_message_def Let_def exceeded_max_iterations_def fold_push_history
      is_terminal_def stop_with_def split: option.splits sum.splits if_splits)

subsection \<open>The loop\<close>

lemma unat_Suc: "unat (a + 1) = Suc (unat a)" if "a < b" for a b :: "32 word"
proof -
  have "unat a < unat b" "unat b < 2 ^ 32" using that unsigned_less [of b, where 'a = nat] by (simp_all add: word_less_nat_alt)
  then show ?thesis by (simp add: unat_word_ariths)
qed

function react_loop :: "('j, 'x) json_ops_scheme \<Rightarrow> 'j registry \<Rightarrow> 'j env \<Rightarrow> nat \<Rightarrow> session \<Rightarrow> 32 word \<Rightarrow> 32 word \<Rightarrow> round" where
  "react_loop J reg E i s pt ct =
     (if is_terminal s then Stop s pt ct
      else case react_round J reg E i s pt ct of
          Go_on s' pt' ct' \<Rightarrow> react_loop J reg E (i + 1) s' pt' ct'
        | r \<Rightarrow> r)"
  by pat_completeness auto
termination
proof (relation "measure (\<lambda>(J, reg, E, i, s, pt, ct). unat (max_iterations (s_config s)) - unat (step_count s))",
    simp, goal_cases)
  case (1 J reg E i s pt ct s' pt' ct')
  note r = react_round_go_on [OF 1(2)]
  have "unat (step_count s) < unat (max_iterations (s_config s))" using r(1) by (simp add: word_less_nat_alt)
  then show ?case using r(2,3) unat_Suc [OF r(1)] by simp
qed

declare react_loop.simps [simp del]

definition finish :: "session \<Rightarrow> 32 word \<Rightarrow> 32 word \<Rightarrow> workflow_result" where
  "finish s pt ct =
     \<lparr>success = (s_state s = COMPLETED), answer = final_answer s, wf_error = s_error s,
      steps_taken = sint (step_count s), total_prompt_tokens = pt, total_completion_tokens = ct\<rparr>"

definition react_run ::
  "('j, 'x) json_ops_scheme \<Rightarrow> 'j registry \<Rightarrow> 'j env \<Rightarrow> session \<Rightarrow> session \<times> (exn + workflow_result)" where
  "react_run J reg E s =
     (case react_loop J reg E 0 s 0 0 of
        Stop s' pt ct \<Rightarrow> (s', Inr (finish s' pt ct))
      | Throw s' e \<Rightarrow> (s', Inl e)
      | Go_on s' pt ct \<Rightarrow> (s', Inr (finish s' pt ct)))"

subsection \<open>What a round does\<close>

text \<open>The tool messages \<open>ts\<close> answer the calls of \<open>m\<close>, one by one and in order.\<close>

definition answers :: "message \<Rightarrow> message list \<Rightarrow> bool" where
  "answers m ts \<longleftrightarrow> map tool_call_id ts = map tc_id (tool_calls m) \<and> list_all (\<lambda>t. role t = ''tool'' \<and> tool_calls t = []) ts"

function answered :: "message list \<Rightarrow> bool" where
  "answered [] \<longleftrightarrow> True"
| "answered (m # ms) \<longleftrightarrow>
     (let n = length (tool_calls m) in answers m (take n ms) \<and> answered (drop n ms))"
  by pat_completeness auto
termination
  by (relation "measure length") auto

lemma answers_length: "answers m ts \<Longrightarrow> length (tool_calls m) = length ts"
  unfolding answers_def by (metis length_map)

lemma answered_round: "answers m ts \<Longrightarrow> answered (m # ts @ ms) \<longleftrightarrow> answered ms"
  using answers_length [of m ts] by simp

lemma tool_outcome_id: "tool_outcome i r = Inr x \<Longrightarrow> tr_call_id x = i"
  by (cases r; cases "the r") (auto simp: tool_outcome_def split: if_splits)

lemma answered_snoc: "answered ms \<Longrightarrow> tool_calls m = [] \<Longrightarrow> answered (ms @ [m])"
proof (induction ms rule: answered.induct)
  case (2 x ms)
  then have "length (take (length (tool_calls x)) ms) = length (tool_calls x)"
    using answers_length [of x "take (length (tool_calls x)) ms"] by (simp add: Let_def)
  with 2 show ?case by (auto simp: Let_def)
qed (simp add: answers_def)

lemma execute_call_id: "execute reg t call = Inr r \<Longrightarrow> tr_call_id r = tc_id call"
  by (auto simp: execute_def unknown_tool_def split: if_splits dest: tool_outcome_id)

lemma execute_batch_ids:
  assumes "execute_batch reg timely calls = Inr trs"
  shows "map tr_call_id trs = map tc_id calls"
proof (rule nth_equalityI)
  have b: "try_map (\<lambda>(i, call). execute reg (timely i) call) (enumerate 0 calls) = Inr trs"
    using assms by (simp add: execute_batch_execute)
  show len: "length (map tr_call_id trs) = length (map tc_id calls)" using try_map_length [OF b] by simp
  fix i
  assume "i < length (map tr_call_id trs)"
  with try_map_nth [OF b, of i] len execute_call_id show "map tr_call_id trs ! i = map tc_id calls ! i"
    by (auto simp: nth_enumerate_eq)
qed

lemma tool_messages_answer: "execute_batch reg timely (tool_calls m) = Inr trs \<Longrightarrow> answers m (map tool_message trs)"
  using execute_batch_ids [of reg timely "tool_calls m" trs]
  by (simp add: answers_def tool_message_def comp_def list_all_iff)

definition grows :: "session \<Rightarrow> message list \<Rightarrow> session \<Rightarrow> bool" where
  "grows s ms s' \<longleftrightarrow> history s' = push_all ms (history s)"

lemma grows_refl: "history s' = history s \<Longrightarrow> grows s [] s'"
  by (simp add: grows_def push_all_def)

lemma grows_trans: "grows s ms t \<Longrightarrow> grows t ns u \<Longrightarrow> grows s (ms @ ns) u"
  by (simp add: grows_def push_all_def)

text \<open>
  The outcome of a run: how far it may count, in which states it may stop, and what it has pushed. A run that stops
  has an answer exactly when it has completed.
\<close>

definition stopped :: "session \<Rightarrow> session \<Rightarrow> bool" where
  "stopped s s' \<longleftrightarrow>
     (if s_state s' = COMPLETED then \<exists>ms m. grows s (ms @ [m]) s' \<and> answered ms \<and> tool_calls m = [] \<and> content m \<noteq> [] \<and> final_answer s' = content m
      else (s_state s' = FAILED \<or> s_state s' = CANCELLED) \<and> s_error s' \<noteq> [] \<and> (\<exists>ms. grows s ms s' \<and> answered ms))"

definition outcome_ok :: "session \<Rightarrow> round \<Rightarrow> bool" where
  "outcome_ok s r \<longleftrightarrow>
     (case r of
        Go_on s' pt ct \<Rightarrow> \<exists>m ts. grows s (m # ts) s' \<and> answers m ts
      | Stop s' pt ct \<Rightarrow> stopped s s'
      | Throw s' e \<Rightarrow> s_state s' = WAITING_FOR_LLM \<or> s_state s' = EXECUTING_TOOLS)"

definition session_of :: "round \<Rightarrow> session" where
  "session_of r = (case r of Go_on s pt ct \<Rightarrow> s | Stop s pt ct \<Rightarrow> s | Throw s e \<Rightarrow> s)"

definition counted :: "session \<Rightarrow> session \<Rightarrow> bool" where
  "counted s s' \<longleftrightarrow> s_id s' = s_id s \<and> created_at s' = created_at s \<and> s_config s' = s_config s \<and> unat (step_count s) \<le> unat (step_count s') \<and>
     unat (step_count s') \<le> max (unat (step_count s)) (unat (max_iterations (s_config s)))"

lemma guards_outcome: "guards E i s = Some s' \<Longrightarrow> stopped s s' \<and> counted s s'"
  by (auto simp: guards_def stopped_def counted_def stop_with_def split: if_splits intro!: exI [of _ "[]"] grows_refl)

lemma handle_message_outcome: "outcome_ok s (handle_message reg timely msg pt ct s)"
proof (cases "has_tool_calls msg")
  case True
  then show ?thesis
    using tool_messages_answer [of reg timely msg]
    by (auto simp: outcome_ok_def handle_message_def Let_def fold_push_history grows_def push_all_def
        split: sum.splits intro!: exI [of _ msg])
next
  case False
  have push: "grows s [msg] (push_history msg s)" by (simp add: grows_def push_all_def)
  show ?thesis
  proof (cases "has_content msg")
    case True
    with False push show ?thesis
      by (auto simp: outcome_ok_def handle_message_def Let_def stopped_def has_tool_calls_def has_content_def grows_def
          intro!: exI [of _ "[]"])
  next
    case no: False
    have "answered [msg]" using False by (simp add: has_tool_calls_def answers_def)
    with False no push show ?thesis
      by (auto simp: outcome_ok_def handle_message_def Let_def stopped_def stop_with_def grows_def intro!: exI [of _ "[msg]"])
  qed
qed

lemma handle_message_session:
  "let t = session_of (handle_message reg timely msg pt ct s)
   in step_count t = step_count s \<and> s_config t = s_config s \<and> s_id t = s_id s \<and> created_at t = created_at s"
  by (auto simp: handle_message_def Let_def session_of_def fold_push_history stop_with_def split: sum.splits)

lemma react_round_outcome:
  "outcome_ok s (react_round J reg E i s pt ct) \<and> counted s (session_of (react_round J reg E i s pt ct))"
proof (cases "guards E i s")
  case (Some s')
  with guards_outcome [OF this] show ?thesis by (simp add: react_round_def outcome_ok_def session_of_def)
next
  case None
  define s1 where "s1 = s\<lparr>s_state := WAITING_FOR_LLM, step_count := step_count s + 1\<rparr>"
  have lt: "step_count s < max_iterations (s_config s)"
    using None by (auto simp: guards_def exceeded_max_iterations_def split: if_splits)
  have c1: "counted s s1"
    using lt unat_Suc [OF lt] by (auto simp: counted_def s1_def word_less_nat_alt)
  have same: "counted s t"
    if "step_count t = step_count s1" "s_config t = s_config s1" "s_id t = s_id s1" "created_at t = created_at s1" for t
    using c1 that by (simp add: counted_def)
  have g1: "grows s1 ms t \<longleftrightarrow> grows s ms t" for ms t by (simp add: grows_def s1_def)
  have h: "outcome_ok s r" if "outcome_ok s1 r" for r
    using that unfolding outcome_ok_def stopped_def g1 .
  let ?call = "env_llm E i (conv_to_json J (history s1)) (to_openai_tools_json J reg)"
  show ?thesis
  proof (cases ?call)
    case (Inl e)
    then have "react_round J reg E i s pt ct = Throw s1 e" using None by (simp add: react_round_def s1_def)
    with c1 show ?thesis by (simp add: outcome_ok_def session_of_def s1_def)
  next
    case (Inr resp)
    show ?thesis
    proof (cases "resp_error resp = []")
      case True
      then have "react_round J reg E i s pt ct = handle_message reg (env_timely E i) (resp_message resp)
          (pt + prompt_tokens resp) (ct + completion_tokens resp) s1"
        using None Inr by (simp add: react_round_def s1_def)
      then show ?thesis by (simp add: h handle_message_outcome same handle_message_session [unfolded Let_def])
    next
      case False
      then have "react_round J reg E i s pt ct = Stop (stop_with FAILED (''LLM error: '' @ resp_error resp) s1) pt ct"
        using None Inr by (simp add: react_round_def s1_def)
      then show ?thesis using same
        by (auto simp: outcome_ok_def session_of_def stopped_def stop_with_def s1_def intro!: exI [of _ "[]"] grows_refl)
    qed
  qed
qed

lemma counted_trans: "counted s t \<Longrightarrow> counted t u \<Longrightarrow> counted s u"
  by (auto simp: counted_def)

lemma stopped_trans:
  assumes "grows s (m # ts) t" and "answers m ts" and "stopped t u"
  shows "stopped s u"
proof (cases "s_state u = COMPLETED")
  case True
  with assms(3) obtain ms n where "grows t (ms @ [n]) u" "answered ms" "tool_calls n = []" "content n \<noteq> []" "final_answer u = content n"
    by (auto simp: stopped_def)
  moreover from grows_trans [OF assms(1) this(1)] have "grows s ((m # ts @ ms) @ [n]) u" by simp
  moreover have "answered (m # ts @ ms)" using answered_round [OF assms(2)] \<open>answered ms\<close> by blast
  ultimately show ?thesis using True unfolding stopped_def if_P [OF True] by blast
next
  case False
  with assms(3) obtain ms where ms: "grows t ms u" "answered ms" by (auto simp: stopped_def)
  from grows_trans [OF assms(1) ms(1)] have "grows s (m # ts @ ms) u" by simp
  moreover have "answered (m # ts @ ms)" using answered_round [OF assms(2)] ms(2) by blast
  ultimately show ?thesis using assms(3) unfolding stopped_def if_not_P [OF False] by blast
qed

text \<open>The loop never ends with a round to go.\<close>

lemma react_loop_outcome:
  assumes "\<not> is_terminal s"
  shows "outcome_ok s (react_loop J reg E i s pt ct) \<and> counted s (session_of (react_loop J reg E i s pt ct)) \<and>
    (\<forall>s' p c. react_loop J reg E i s pt ct \<noteq> Go_on s' p c)"
  using assms
proof (induction J reg E i s pt ct rule: react_loop.induct)
  case (1 J reg E i s pt ct)
  let ?r = "react_round J reg E i s pt ct"
  note r = react_round_outcome [of s J reg E i pt ct]
  show ?case
  proof (cases ?r)
    case (Go_on s' pt' ct')
    note ih = 1(1) [OF 1(2) Go_on react_round_go_on(4) [OF Go_on]]
    have l: "react_loop J reg E i s pt ct = react_loop J reg E (i + 1) s' pt' ct'"
      using 1(2) Go_on by (simp add: react_loop.simps [of J reg E i s])
    from r Go_on obtain m ts where g: "grows s (m # ts) s'" "answers m ts" by (auto simp: outcome_ok_def)
    have c: "counted s s'" using r Go_on by (simp add: session_of_def)
    have "outcome_ok s (react_loop J reg E (i + 1) s' pt' ct')"
      using ih stopped_trans [OF g] by (cases "react_loop J reg E (i + 1) s' pt' ct'") (auto simp: outcome_ok_def)
    with ih counted_trans [OF c] show ?thesis unfolding l by blast
  next
    case (Stop s' p c)
    with r 1(2) show ?thesis by (simp add: react_loop.simps [of J reg E i s])
  next
    case (Throw s' e)
    with r 1(2) show ?thesis by (simp add: react_loop.simps [of J reg E i s])
  qed
qed

subsection \<open>Properties\<close>

text \<open>
  C8. The ReAct loop ends: whatever the language model answers, whichever tools are slow and whenever it is cancelled, \<open>run\<close>
  returns after at most \<open>max_iterations\<close> calls of the model, in a terminal state. It reports success exactly when it
  completed, then with the nonempty content of the last message as its answer, and otherwise with an error. Only an exception of the model's future or
  of a tool leaves the session in a state that is not terminal.
\<close>

theorem react_run_ends:
  assumes "\<not> is_terminal s" and "react_run J reg E s = (s', r)"
  shows "unat (step_count s') \<le> max (unat (step_count s)) (unat (max_iterations (s_config s))) \<and>
    (case r of
       Inl e \<Rightarrow> \<not> is_terminal s'
     | Inr w \<Rightarrow> is_terminal s' \<and> (success w \<longleftrightarrow> s_state s' = COMPLETED) \<and>
         (if success w then answer w \<noteq> [] \<and> answer w = final_answer s' else wf_error w \<noteq> [] \<and> wf_error w = s_error s'))"
proof -
  let ?l = "react_loop J reg E 0 s 0 0"
  note o = react_loop_outcome [OF assms(1), of J reg E 0 0 0]
  show ?thesis
  proof (cases ?l)
    case (Go_on t p c)
    with o show ?thesis by blast
  next
    case (Stop t p c)
    with assms(2) have "s' = t" "r = Inr (finish t p c)" by (auto simp: react_run_def)
    with o Stop show ?thesis
      by (auto simp: outcome_ok_def session_of_def counted_def stopped_def finish_def is_terminal_def split: if_splits)
  next
    case (Throw t e)
    with assms(2) have "s' = t" "r = Inl e" by (auto simp: react_run_def)
    with o Throw show ?thesis by (auto simp: outcome_ok_def session_of_def counted_def is_terminal_def)
  qed
qed

text \<open>
  C18. The conversation that ReAct builds answers every tool call: the messages pushed by a run that returns are assistant messages, each followed
  by one tool message per tool call with the identifiers in order, and a final answer is the last of them.
\<close>

theorem react_answers_tool_calls:
  assumes "\<not> is_terminal s" and "react_run J reg E s = (s', Inr w)"
  shows "\<exists>ms. history s' = push_all ms (history s) \<and> answered ms \<and>
    (success w \<longrightarrow> ms \<noteq> [] \<and> tool_calls (last ms) = [] \<and> answer w = content (last ms))"
proof -
  note o = react_loop_outcome [OF assms(1), of J reg E 0 0 0]
  obtain p c where l: "react_loop J reg E 0 s 0 0 = Stop s' p c" and w: "w = finish s' p c"
    using assms(2) o by (cases "react_loop J reg E 0 s 0 0") (auto simp: react_run_def)
  have st: "stopped s s'" using o l by (simp add: outcome_ok_def)
  show ?thesis
  proof (cases "s_state s' = COMPLETED")
    case True
    with st obtain ms m where m: "grows s (ms @ [m]) s'" "answered ms" "tool_calls m = []" "final_answer s' = content m"
      unfolding stopped_def by auto
    then have "answered (ms @ [m])" by (intro answered_snoc)
    with m w show ?thesis by (intro exI [of _ "ms @ [m]"]) (simp add: grows_def finish_def)
  next
    case False
    with st w show ?thesis unfolding stopped_def grows_def by (auto simp: finish_def)
  qed
qed

text \<open>A model that first asks for a tool and then answers.\<close>

definition small_session :: session where
  "small_session = session_new 1 default_session_config 0"

definition small_env :: "jval env" where
  "small_env =
     \<lparr>env_cancel = (\<lambda>_. False), env_now = (\<lambda>_. 0),
      env_llm = (\<lambda>i _ _. Inr \<lparr>resp_message =
        (if i = 0 then \<lparr>role = ''assistant'', content = [],
             tool_calls = [\<lparr>tc_id = ''1'', tc_name = ''echo'', arguments_json = ''x''\<rparr>], tool_call_id = []\<rparr>
         else plain_message ''assistant'' ''done''),
        prompt_tokens = 3, completion_tokens = 2, model = [], resp_error = []\<rparr>),
      env_timely = (\<lambda>_ _. True)\<rparr>"

lemma small_run:
  obtains s' w where "react_run plain_json echo_registry small_env small_session = (s', Inr w)" "success w" "step_count s' = 2"
proof -
  let ?r = "react_run plain_json echo_registry small_env small_session"
  have "case snd ?r of Inl e \<Rightarrow> False | Inr w \<Rightarrow> success w \<and> step_count (fst ?r) = 2" by code_simp
  then show thesis using that by (cases ?r) (auto split: sum.splits)
qed

lemma small_not_terminal: "\<not> is_terminal small_session"
  by (simp add: is_terminal_def small_session_def session_new_def)

theorem react_run_ends_witness:
  "\<exists>s' w. react_run plain_json echo_registry small_env small_session = (s', Inr w) \<and> success w \<and>
    is_terminal s' \<and> answer w \<noteq> [] \<and> answer w = final_answer s'"
proof -
  obtain s' w where r: "react_run plain_json echo_registry small_env small_session = (s', Inr w)" "success w"
    by (rule small_run)
  with react_run_ends [OF small_not_terminal r(1)] show ?thesis by auto
qed

theorem react_answers_tool_calls_witness:
  "\<exists>s' w ms. react_run plain_json echo_registry small_env small_session = (s', Inr w) \<and> success w \<and>
    history s' = push_all ms (history small_session) \<and> answered ms \<and> answer w = content (last ms)"
proof -
  obtain s' w where r: "react_run plain_json echo_registry small_env small_session = (s', Inr w)" "success w"
    by (rule small_run)
  with react_answers_tool_calls [OF small_not_terminal r(1)] show ?thesis by blast
qed

text \<open>A cancelled session ends in the first round.\<close>

lemma react_run_cancelled:
  assumes "cancel_requested s" and "\<not> is_terminal s"
  shows "fst (react_run J reg E s) = stop_with CANCELLED ''Cancelled by user'' s"
  using assms by (simp add: react_run_def react_loop.simps [of J reg E 0 s] react_round_def guards_def observe_cancel_def)

end
