(* ===== verification/Workflows.thy ===== *)
theory Workflows
  imports React
begin

section \<open>Plan-and-execute, map-reduce and the workflow factory (src/src/workflow)\<close>

text \<open>
  The two workflows that split a request into parts, run a ReAct session per part and let the language
  model combine the results. \<open>E\<close> is what the workflow itself meets (calls of the model number 0 and 1, the
  cancellation flag before part \<open>k\<close>), \<open>sub k\<close> what the ReAct session of part \<open>k\<close> meets. The parts of map-reduce run on the pool
  in any order, which is a parameter.
\<close>

subsection \<open>What the two workflows share\<close>

definition first_user :: "session \<Rightarrow> message list" where
  "first_user s = (case find (\<lambda>m. role m = ''user'') (messages (history s)) of None \<Rightarrow> [] | Some m \<Rightarrow> [m])"

text \<open>A call of the model without tools, with the tokens it adds to the result.\<close>

definition ask :: "('j, 'x) json_ops_scheme \<Rightarrow> 'j env \<Rightarrow> nat \<Rightarrow> message list \<Rightarrow> exn + llm_response" where
  "ask J E i ms = env_llm E i (j_array J (map (message_to_json J) ms)) (j_null J)"

definition add_tokens :: "32 word \<Rightarrow> 32 word \<Rightarrow> workflow_result \<Rightarrow> workflow_result" where
  "add_tokens p c w =
     w\<lparr>total_prompt_tokens := total_prompt_tokens w + p, total_completion_tokens := total_completion_tokens w + c\<rparr>"

text \<open>
  The parts in the model's answer: the loop over the array, with what was read when an exception ended it,
  and the fallback of the handler, which appends the whole answer as one part.
\<close>

fun read_parts :: "('j, 'x) json_ops_scheme \<Rightarrow> (int \<times> string) list \<Rightarrow> 'j list \<Rightarrow> (int \<times> string) list \<times> exn option" where
  "read_parts J acc [] = (acc, None)"
| "read_parts J acc (j # js) =
     (case try_bind (value_int J j ''id'' (int (length acc) + 1)) (\<lambda>i.
             try_bind (value_str J j ''description'' []) (\<lambda>d. Inr (i, d))) of
        Inl e \<Rightarrow> (acc, Some e)
      | Inr x \<Rightarrow> read_parts J (acc @ [x]) js)"

definition parse_parts :: "('j, 'x) json_ops_scheme \<Rightarrow> string \<Rightarrow> string \<Rightarrow> (int \<times> string) list \<times> exn option" where
  "parse_parts J key body =
     (case j_parse J body of
        Inl e \<Rightarrow> ([], Some e)
      | Inr j \<Rightarrow> (case j_find J j key of
            None \<Rightarrow> ([], None)
          | Some ts \<Rightarrow> if j_is_array J ts then read_parts J [] (j_items J ts) else ([], None)))"

definition parts_or_whole :: "('j, 'x) json_ops_scheme \<Rightarrow> string \<Rightarrow> string \<Rightarrow> exn + (int \<times> string) list" where
  "parts_or_whole J key body =
     (case parse_parts J key body of
        (ps, None) \<Rightarrow> Inr ps
      | (ps, Some e) \<Rightarrow> if is_std_exception e then Inr (ps @ [(1, body)]) else Inl e)"

definition split_request ::
  "('j, 'x) json_ops_scheme \<Rightarrow> 'j env \<Rightarrow> string \<Rightarrow> string \<Rightarrow> session \<Rightarrow> workflow_result \<Rightarrow> exn + (int \<times> string) list \<times> workflow_result" where
  "split_request J E prompt key s w =
     try_bind (ask J E 0 (plain_message ''system'' prompt # first_user s)) (\<lambda>resp.
       let w1 = add_tokens (prompt_tokens resp) (completion_tokens resp) w
       in if resp_error resp \<noteq> [] then Inr ([], w1)
          else try_bind (parts_or_whole J key (content (resp_message resp))) (\<lambda>ps. Inr (ps, w1)))"

definition combine ::
  "('j, 'x) json_ops_scheme \<Rightarrow> 'j env \<Rightarrow> string \<Rightarrow> string \<Rightarrow> session \<Rightarrow> workflow_result \<Rightarrow> exn + string \<times> workflow_result" where
  "combine J E prompt summary s w =
     try_bind (ask J E 1 ([plain_message ''system'' prompt] @ first_user s @ [plain_message ''user'' summary])) (\<lambda>resp.
       let w1 = add_tokens (prompt_tokens resp) (completion_tokens resp) w
       in Inr (if resp_error resp \<noteq> [] then [] else content (resp_message resp), w1))"

definition sub_session :: "session_config \<Rightarrow> int \<Rightarrow> string \<Rightarrow> session" where
  "sub_session cfg now descr =
     push_history (plain_message ''user'' descr)
       (push_history (plain_message ''system'' ''You are a helpful assistant with access to tools. Complete the following task.'')
         (session_new 0 cfg now))"

definition run_sub ::
  "('j, 'x) json_ops_scheme \<Rightarrow> 'j registry \<Rightarrow> 'j env \<Rightarrow> session_config \<Rightarrow> string \<Rightarrow> exn + workflow_result" where
  "run_sub J reg E cfg descr = snd (react_run J reg E (sub_session cfg (env_now E 0) descr))"

text \<open>The two ways a workflow ends: an error, which is also the error of the result, or an answer.\<close>

definition fail_with :: "session_state \<Rightarrow> string \<Rightarrow> session \<Rightarrow> workflow_result \<Rightarrow> session \<times> (exn + workflow_result)" where
  "fail_with st err s w = (stop_with st err s, Inr (w\<lparr>wf_error := err\<rparr>))"

definition complete_or_fail ::
  "string \<Rightarrow> string \<Rightarrow> session \<Rightarrow> workflow_result \<Rightarrow> session \<times> (exn + workflow_result)" where
  "complete_or_fail err ans s w =
     (if ans = [] then fail_with FAILED err s w
      else (s\<lparr>final_answer := ans, s_state := COMPLETED\<rparr>,
            Inr (w\<lparr>success := True, answer := ans, steps_taken := sint (step_count s)\<rparr>)))"

subsection \<open>Plan and execute (plan_execute.cpp)\<close>

record plan_step =
  ps_id :: int
  ps_description :: string
  ps_result :: string

definition plan_prompt :: string where
  "plan_prompt =
     ''You are a planning assistant. Break down the user'' @ [CHR 0x27] @ ''s request into a sequence of steps. Respond with ONLY a JSON object in this format:'' @ nl @
     ''{'' @ [CHR 0x22] @ ''steps'' @ [CHR 0x22] @ '': [{'' @ [CHR 0x22] @ ''id'' @ [CHR 0x22] @ '': 1, '' @ [CHR 0x22] @ ''description'' @ [CHR 0x22] @ '': '' @
     [CHR 0x22] @ ''step description'' @ [CHR 0x22] @ ''}, ...]}'' @ nl @ ''Do not include any other text.''"

definition generate_plan ::
  "('j, 'x) json_ops_scheme \<Rightarrow> 'j env \<Rightarrow> session \<Rightarrow> workflow_result \<Rightarrow> exn + plan_step list \<times> workflow_result" where
  "generate_plan J E s w =
     try_bind (split_request J E plan_prompt ''steps'' s w) (\<lambda>(ps, w1).
       Inr (map (\<lambda>(i, d). \<lparr>ps_id = i, ps_description = d, ps_result = []\<rparr>) ps, w1))"

definition step_summary :: "plan_step list \<Rightarrow> string" where
  "step_summary steps =
     concat (map (\<lambda>s. ''Step '' @ to_string_int (ps_id s) @ '': '' @ ps_description s @ nl @ ''Result: '' @ ps_result s @ nl @ nl) steps)"

definition synthesize ::
  "('j, 'x) json_ops_scheme \<Rightarrow> 'j env \<Rightarrow> plan_step list \<Rightarrow> session \<Rightarrow> workflow_result \<Rightarrow> exn + string \<times> workflow_result" where
  "synthesize J E steps =
     combine J E ''You are a helpful assistant. Synthesize the results of the following steps into a final, coherent answer.''
       (''Here are the results of each step:'' @ nl @ nl @ step_summary steps @ nl @ ''Please synthesize these into a final answer.'')"

text \<open>The loop over the steps: \<open>Inl\<close> when it returned from the workflow.\<close>

fun run_steps ::
  "('j, 'x) json_ops_scheme \<Rightarrow> 'j registry \<Rightarrow> 'j env \<Rightarrow> (nat \<Rightarrow> 'j env) \<Rightarrow> nat \<Rightarrow> plan_step list \<Rightarrow> session \<Rightarrow> workflow_result
     \<Rightarrow> (session \<times> (exn + workflow_result)) + (plan_step list \<times> session \<times> workflow_result)" where
  "run_steps J reg E sub k [] s w = Inr ([], s, w)"
| "run_steps J reg E sub k (st # steps) s w =
     (if observe_cancel E k s then Inl (fail_with CANCELLED ''Cancelled by user'' s w)
      else let s1 = s\<lparr>step_count := step_count s + 1\<rparr>
        in case run_sub J reg (sub k) (s_config s1) (ps_description st) of
             Inl e \<Rightarrow> Inl (s1, Inl e)
           | Inr r \<Rightarrow>
               let w1 = add_tokens (total_prompt_tokens r) (total_completion_tokens r) w;
                   st1 = st\<lparr>ps_result := if success r then answer r else ''Failed: '' @ wf_error r\<rparr>
               in case run_steps J reg E sub (k + 1) steps s1 w1 of
                    Inl x \<Rightarrow> Inl x
                  | Inr (rest, s2, w2) \<Rightarrow> Inr (st1 # rest, s2, w2))"

definition plan_run ::
  "('j, 'x) json_ops_scheme \<Rightarrow> 'j registry \<Rightarrow> 'j env \<Rightarrow> (nat \<Rightarrow> 'j env) \<Rightarrow> session \<Rightarrow> session \<times> (exn + workflow_result)" where
  "plan_run J reg E sub s =
     (let s1 = s\<lparr>s_state := WAITING_FOR_LLM\<rparr>
      in case generate_plan J E s1 workflow_result_new of
           Inl e \<Rightarrow> (s1, Inl e)
         | Inr (steps, w1) \<Rightarrow>
             if steps = [] then fail_with FAILED ''Failed to generate plan'' s1 w1
             else case run_steps J reg E sub 0 steps (s1\<lparr>s_state := EXECUTING_TOOLS\<rparr>) w1 of
                 Inl r \<Rightarrow> r
               | Inr (steps', s2, w2) \<Rightarrow>
                   let s3 = s2\<lparr>s_state := WAITING_FOR_LLM\<rparr>
                   in case synthesize J E steps' s3 w2 of
                        Inl e \<Rightarrow> (s3, Inl e)
                      | Inr (ans, w3) \<Rightarrow> complete_or_fail ''Synthesis failed'' ans s3 w3)"

subsection \<open>Map and reduce (map_reduce.cpp)\<close>

record sub_task =
  st_id :: int
  st_description :: string
  st_result :: string
  st_success :: bool

definition decompose_prompt :: string where
  "decompose_prompt =
     ''You are a task decomposition assistant. Break down the user'' @ [CHR 0x27] @ ''s request into independent sub-tasks that can be executed in parallel. Respond with ONLY a JSON object in this format:'' @ nl @
     ''{'' @ [CHR 0x22] @ ''tasks'' @ [CHR 0x22] @ '': [{'' @ [CHR 0x22] @ ''id'' @ [CHR 0x22] @ '': 1, '' @ [CHR 0x22] @ ''description'' @ [CHR 0x22] @ '': '' @
     [CHR 0x22] @ ''sub-task description'' @ [CHR 0x22] @ ''}, ...]}'' @ nl @ ''Do not include any other text.''"

definition decompose ::
  "('j, 'x) json_ops_scheme \<Rightarrow> 'j env \<Rightarrow> session \<Rightarrow> workflow_result \<Rightarrow> exn + sub_task list \<times> workflow_result" where
  "decompose J E s w =
     try_bind (split_request J E decompose_prompt ''tasks'' s w) (\<lambda>(ps, w1).
       Inr (map (\<lambda>(i, d). \<lparr>st_id = i, st_description = d, st_result = [], st_success = False\<rparr>) ps, w1))"

definition task_summary :: "sub_task list \<Rightarrow> string" where
  "task_summary tasks =
     concat (map (\<lambda>t. ''Sub-task '' @ to_string_int (st_id t) @ '': '' @ st_description t @ nl @ ''Result: '' @ st_result t @ nl @
       ''Success: '' @ (if st_success t then ''yes'' else ''no'') @ nl @ nl) tasks)"

definition reduce ::
  "('j, 'x) json_ops_scheme \<Rightarrow> 'j env \<Rightarrow> sub_task list \<Rightarrow> session \<Rightarrow> workflow_result \<Rightarrow> exn + string \<times> workflow_result" where
  "reduce J E tasks =
     combine J E ''You are a helpful assistant. Aggregate the results of the following sub-tasks into a final, coherent answer.''
       (''Here are the sub-task results:'' @ nl @ nl @ task_summary tasks @ nl @ ''Please aggregate these into a final answer.'')"

text \<open>
  The state the closures share: the tasks, the session's step counter, the result's token counters, and the
  results of the futures. \<open>run_task i\<close> is the closure of task \<open>i\<close>.
\<close>

record mr_state =
  mr_tasks :: "sub_task list"
  mr_session :: session
  mr_result :: workflow_result
  mr_futures :: "nat \<Rightarrow> (exn + bool) option"

definition run_task ::
  "('j, 'x) json_ops_scheme \<Rightarrow> 'j registry \<Rightarrow> 'j env \<Rightarrow> (nat \<Rightarrow> 'j env) \<Rightarrow> nat \<Rightarrow> mr_state \<Rightarrow> mr_state" where
  "run_task J reg E sub i st =
     (if observe_cancel E i (mr_session st) then st\<lparr>mr_futures := (mr_futures st)(i \<mapsto> Inr False)\<rparr>
      else let s1 = (mr_session st)\<lparr>step_count := step_count (mr_session st) + 1\<rparr>
        in case run_sub J reg (sub i) (s_config s1) (st_description (mr_tasks st ! i)) of
             Inl e \<Rightarrow> st\<lparr>mr_session := s1, mr_futures := (mr_futures st)(i \<mapsto> Inl e)\<rparr>
           | Inr r \<Rightarrow>
               st\<lparr>mr_session := s1,
                  mr_result := add_tokens (total_prompt_tokens r) (total_completion_tokens r) (mr_result st),
                  mr_tasks := (mr_tasks st)[i := (mr_tasks st ! i)\<lparr>st_success := success r,
                    st_result := if success r then answer r else wf_error r\<rparr>],
                  mr_futures := (mr_futures st)(i \<mapsto> Inr (success r))\<rparr>)"

definition run_tasks ::
  "('j, 'x) json_ops_scheme \<Rightarrow> 'j registry \<Rightarrow> 'j env \<Rightarrow> (nat \<Rightarrow> 'j env) \<Rightarrow> nat list \<Rightarrow> mr_state \<Rightarrow> mr_state" where
  "run_tasks J reg E sub order = fold (run_task J reg E sub) order"

text \<open>
  \<open>f.get()\<close> on the futures in the order of the tasks. A \<open>get()\<close> whose closure has not run waits until it has; the first exception
  is rethrown, and closures that come after it may then not have run.
\<close>

fun wait_all ::
  "('j, 'x) json_ops_scheme \<Rightarrow> 'j registry \<Rightarrow> 'j env \<Rightarrow> (nat \<Rightarrow> 'j env) \<Rightarrow> nat list \<Rightarrow> mr_state \<Rightarrow> mr_state \<times> exn option" where
  "wait_all J reg E sub [] st = (st, None)"
| "wait_all J reg E sub (i # rest) st =
     (let st1 = (if mr_futures st i = None then run_task J reg E sub i st else st)
      in case mr_futures st1 i of
           Some (Inl e) \<Rightarrow> (st1, Some e)
         | _ \<Rightarrow> wait_all J reg E sub rest st1)"

text \<open>
  \<open>order n\<close> lists the closures of \<open>n\<close> tasks that have taken effect when the loop over the futures is left, besides those it waited for: any of them when
  an exception is rethrown, and all in the end otherwise. That closures take effect one after the other is shown in \<open>Map_Phase\<close>.
\<close>

definition map_reduce_run ::
  "('j, 'x) json_ops_scheme \<Rightarrow> 'j registry \<Rightarrow> 'j env \<Rightarrow> (nat \<Rightarrow> 'j env) \<Rightarrow> (nat \<Rightarrow> nat list) \<Rightarrow> session \<Rightarrow> session \<times> (exn + workflow_result)" where
  "map_reduce_run J reg E sub order s =
     (let s1 = s\<lparr>s_state := WAITING_FOR_LLM\<rparr>
      in case decompose J E s1 workflow_result_new of
           Inl e \<Rightarrow> (s1, Inl e)
         | Inr (tasks, w1) \<Rightarrow>
             if tasks = [] then fail_with FAILED ''Failed to decompose task'' s1 w1
             else
               let n = length tasks;
                   (st, rethrown) = wait_all J reg E sub [0..<n] (run_tasks J reg E sub (order n)
                     \<lparr>mr_tasks = tasks, mr_session = s1\<lparr>s_state := EXECUTING_TOOLS\<rparr>, mr_result = w1, mr_futures = Map.empty\<rparr>);
                   s2 = mr_session st; w2 = mr_result st
               in case rethrown of
                    Some e \<Rightarrow> (s2, Inl e)
                  | None \<Rightarrow>
                      if observe_cancel E n s2 then fail_with CANCELLED ''Cancelled by user'' s2 w2
                      else let s3 = s2\<lparr>s_state := WAITING_FOR_LLM\<rparr>
                        in case reduce J E (mr_tasks st) s3 w2 of
                             Inl e \<Rightarrow> (s3, Inl e)
                           | Inr (ans, w3) \<Rightarrow> complete_or_fail ''Reduce phase failed'' ans s3 w3)"

subsection \<open>The factory (workflow_factory.h)\<close>

text \<open>
  A constructor is what running the workflow it makes does; \<open>wf_env\<close> is what the run meets.
\<close>

record 'j wf_env =
  we_main :: "'j env"
  we_sub :: "nat \<Rightarrow> 'j env"
  we_order :: "nat \<Rightarrow> nat list"

type_synonym 'j constructor = "'j registry \<Rightarrow> 'j wf_env \<Rightarrow> session \<Rightarrow> session \<times> (exn + workflow_result)"
type_synonym 'j factory = "(string \<times> 'j constructor) list"

definition register_workflow :: "string \<Rightarrow> 'j constructor \<Rightarrow> 'j factory \<Rightarrow> 'j factory" where
  "register_workflow name ctor fac = assoc_update name ctor fac"

definition create_workflow :: "'j factory \<Rightarrow> string \<Rightarrow> exn + 'j constructor" where
  "create_workflow fac name =
     (case map_of fac name of None \<Rightarrow> Inl (Invalid_argument (''Unknown workflow: '' @ name)) | Some c \<Rightarrow> Inr c)"

definition has_workflow :: "'j factory \<Rightarrow> string \<Rightarrow> bool" where
  "has_workflow fac name \<longleftrightarrow> map_of fac name \<noteq> None"

definition workflow_names :: "'j factory \<Rightarrow> string list" where
  "workflow_names fac = map fst fac"

text \<open>The factory that \<open>main\<close> builds.\<close>

definition main_factory :: "('j, 'x) json_ops_scheme \<Rightarrow> 'j factory" where
  "main_factory J =
     register_workflow ''map-reduce'' (\<lambda>reg W. map_reduce_run J reg (we_main W) (we_sub W) (we_order W))
      (register_workflow ''plan-execute'' (\<lambda>reg W. plan_run J reg (we_main W) (we_sub W))
        (register_workflow ''react'' (\<lambda>reg W. react_run J reg (we_main W)) []))"

subsection \<open>The contract of a workflow\<close>

definition reported :: "session \<Rightarrow> workflow_result \<Rightarrow> bool" where
  "reported s w \<longleftrightarrow> is_terminal s \<and> (success w \<longleftrightarrow> s_state s = COMPLETED) \<and>
     (if success w then answer w \<noteq> [] \<and> answer w = final_answer s else wf_error w \<noteq> [] \<and> wf_error w = s_error s)"

locale workflow =
  fixes run :: "session \<Rightarrow> session \<times> (exn + workflow_result)"
  assumes run_returns_law: "\<not> is_terminal s \<Longrightarrow> run s = (s', Inr w) \<Longrightarrow> reported s' w"
    and run_throws_law: "\<not> is_terminal s \<Longrightarrow> run s = (s', Inl e) \<Longrightarrow> \<not> is_terminal s'"
    and run_keeps_law: "\<not> is_terminal s \<Longrightarrow> run s = (s', r) \<Longrightarrow> s_id s' = s_id s \<and> created_at s' = created_at s \<and> s_config s' = s_config s"
begin

text \<open>The state alone tells whether a run returned.\<close>

lemma terminal_iff_returned:
  assumes "\<not> is_terminal s" and "run s = (s', r)"
  shows "is_terminal s' \<longleftrightarrow> \<not> isl r"
proof (cases r)
  case (Inl e)
  with run_throws_law [of s s' e] assms show ?thesis by simp
next
  case (Inr w)
  with run_returns_law [of s s' w] assms show ?thesis by (simp add: reported_def)
qed

end

lemma react_contract:
  assumes "\<not> is_terminal s" and "react_run J reg E s = (s', r)"
  shows "(\<forall>w. r = Inr w \<longrightarrow> reported s' w) \<and> (\<forall>e. r = Inl e \<longrightarrow> \<not> is_terminal s') \<and>
    s_id s' = s_id s \<and> created_at s' = created_at s \<and> s_config s' = s_config s"
proof -
  note out = react_loop_outcome [OF assms(1), of J reg E 0 0 0]
  show ?thesis
  proof (cases "react_loop J reg E 0 s 0 0")
    case (Go_on t p c)
    with out show ?thesis by blast
  next
    case (Stop t p c)
    with assms(2) have "s' = t" "r = Inr (finish t p c)" by (auto simp: react_run_def)
    with out Stop show ?thesis
      by (auto simp: outcome_ok_def session_of_def counted_def stopped_def finish_def is_terminal_def reported_def split: if_splits)
  next
    case (Throw t e)
    with assms(2) have "s' = t" "r = Inl e" by (auto simp: react_run_def)
    with out Throw show ?thesis by (auto simp: outcome_ok_def session_of_def counted_def is_terminal_def)
  qed
qed

lemma workflowI:
  assumes "\<And>s s' r. \<not> is_terminal s \<Longrightarrow> run s = (s', r) \<Longrightarrow>
    (\<forall>w. r = Inr w \<longrightarrow> reported s' w) \<and> (\<forall>e. r = Inl e \<longrightarrow> \<not> is_terminal s') \<and>
    s_id s' = s_id s \<and> created_at s' = created_at s \<and> s_config s' = s_config s"
  shows "workflow run"
proof
  fix s s'
  assume s: "\<not> is_terminal s"
  show "reported s' w" if "run s = (s', Inr w)" for w using assms [OF s that] by simp
  show "\<not> is_terminal s'" if "run s = (s', Inl e)" for e using assms [OF s that] by simp
  show "s_id s' = s_id s \<and> created_at s' = created_at s \<and> s_config s' = s_config s" if "run s = (s', r)" for r
    using assms [OF s that] by simp
qed

interpretation react: workflow "react_run J reg E" for J reg E
  by (rule workflowI) (rule react_contract)

text \<open>The contract, for the ways in which the other two workflows end.\<close>

definition same_session :: "session \<Rightarrow> session \<Rightarrow> bool" where
  "same_session s s' \<longleftrightarrow> s_id s' = s_id s \<and> created_at s' = created_at s \<and> s_config s' = s_config s"

definition ends :: "session \<Rightarrow> session \<times> (exn + workflow_result) \<Rightarrow> bool" where
  "ends s x \<longleftrightarrow> same_session s (fst x) \<and> (case snd x of Inl e \<Rightarrow> \<not> is_terminal (fst x) | Inr w \<Rightarrow> reported (fst x) w)"

lemma ends_workflow:
  assumes "\<And>s. ends s (run s)"
  shows "workflow run"
proof (rule workflowI)
  fix s s' r
  assume "run s = (s', r)"
  with assms [of s] show "(\<forall>w. r = Inr w \<longrightarrow> reported s' w) \<and> (\<forall>e. r = Inl e \<longrightarrow> \<not> is_terminal s') \<and>
    s_id s' = s_id s \<and> created_at s' = created_at s \<and> s_config s' = s_config s"
    by (auto simp: ends_def same_session_def)
qed

lemma ends_throw: "\<not> is_terminal s' \<Longrightarrow> same_session s s' \<Longrightarrow> ends s (s', Inl e)"
  by (simp add: ends_def)

lemma ends_fail:
  "st = FAILED \<or> st = CANCELLED \<Longrightarrow> err \<noteq> [] \<Longrightarrow> \<not> success w \<Longrightarrow> same_session s s' \<Longrightarrow> ends s (fail_with st err s' w)"
  by (auto simp: ends_def fail_with_def stop_with_def reported_def is_terminal_def same_session_def)

lemma ends_complete:
  "err \<noteq> [] \<Longrightarrow> \<not> success w \<Longrightarrow> same_session s s' \<Longrightarrow> ends s (complete_or_fail err ans s' w)"
  by (auto simp: complete_or_fail_def intro!: ends_fail) (simp add: ends_def reported_def is_terminal_def same_session_def)

lemma add_tokens_success [simp]: "success (add_tokens p c w) = success w"
  by (simp add: add_tokens_def)

lemma split_request_success: "split_request J E prompt key s w = Inr (ps, w1) \<Longrightarrow> success w1 = success w"
  by (auto simp: split_request_def Let_def split: if_splits)

lemma combine_success: "combine J E prompt summary s w = Inr (ans, w1) \<Longrightarrow> success w1 = success w"
  by (auto simp: combine_def Let_def split: if_splits)

lemma synthesize_success: "synthesize J E steps s w = Inr (ans, w1) \<Longrightarrow> success w1 = success w"
  unfolding synthesize_def by (rule combine_success)

lemma reduce_success: "reduce J E tasks s w = Inr (ans, w1) \<Longrightarrow> success w1 = success w"
  unfolding reduce_def by (rule combine_success)

lemma run_steps_ends:
  assumes "\<not> success w" and "s_state s = EXECUTING_TOOLS"
  shows "case run_steps J reg E sub k steps s w of
      Inl x \<Rightarrow> ends s x
    | Inr (steps', s', w') \<Rightarrow> \<not> success w' \<and> same_session s s' \<and> length steps' = length steps"
  using assms
proof (induction J reg E sub k steps s w rule: run_steps.induct)
  case (1 J reg E sub k s w)
  then show ?case by (simp add: same_session_def)
next
  case (2 J reg E sub k st steps s w)
  define s1 where "s1 = s\<lparr>step_count := step_count s + 1\<rparr>"
  have s1: "same_session s s1" "s_state s1 = EXECUTING_TOOLS" using 2(3) by (simp_all add: s1_def same_session_def)
  show ?case
  proof (cases "observe_cancel E k s")
    case True
    with 2(2) show ?thesis by (auto intro!: ends_fail simp: same_session_def)
  next
    case False
    show ?thesis
    proof (cases "run_sub J reg (sub k) (s_config s1) (ps_description st)")
      case (Inl e)
      with False s1 show ?thesis by (auto simp: s1_def is_terminal_def intro!: ends_throw)
    next
      case (Inr r)
      define w1 where "w1 = add_tokens (total_prompt_tokens r) (total_completion_tokens r) w"
      have "case run_steps J reg E sub (k + 1) steps s1 w1 of
          Inl x \<Rightarrow> ends s1 x
        | Inr (steps', s', w') \<Rightarrow> \<not> success w' \<and> same_session s1 s' \<and> length steps' = length steps"
        using 2(1) [OF False s1_def Inr w1_def refl] 2(2) s1(2) by (simp add: w1_def)
      moreover have "ends s1 x \<Longrightarrow> ends s x" for x using s1(1) by (simp add: ends_def same_session_def)
      ultimately show ?thesis
        using False Inr s1(1)
        by (cases "run_steps J reg E sub (k + 1) steps s1 w1") (auto simp: s1_def [symmetric] w1_def [symmetric] same_session_def Let_def)
    qed
  qed
qed

lemma plan_run_ends: "ends s (plan_run J reg E sub s)"
proof -
  define s1 where "s1 = s\<lparr>s_state := WAITING_FOR_LLM\<rparr>"
  define s2 where "s2 = s1\<lparr>s_state := EXECUTING_TOOLS\<rparr>"
  have keep: "same_session s s1" "\<not> is_terminal s1" "same_session s s2"
    by (simp_all add: s1_def s2_def same_session_def is_terminal_def)
  show ?thesis
  proof (cases "generate_plan J E s1 workflow_result_new")
    case (Inl e)
    with keep show ?thesis by (simp add: plan_run_def s1_def [symmetric] ends_throw)
  next
    case (Inr x)
    then obtain steps w1 where g: "generate_plan J E s1 workflow_result_new = Inr (steps, w1)" by (cases x) auto
    then have w1: "\<not> success w1"
      by (auto simp: generate_plan_def workflow_result_new_def dest: split_request_success)
    show ?thesis
    proof (cases "steps = []")
      case True
      with g w1 keep show ?thesis by (simp add: plan_run_def s1_def [symmetric] ends_fail)
    next
      case False
      note r = run_steps_ends [OF w1, where s = s2 and J = J and reg = reg and E = E and sub = sub and k = 0 and steps = steps]
      show ?thesis
      proof (cases "run_steps J reg E sub 0 steps s2 w1")
        case (Inl y)
        with r have "ends s2 y" by (simp add: s2_def)
        then have "ends s y" using keep(3) by (simp add: ends_def same_session_def)
        with g False Inl show ?thesis by (simp add: plan_run_def s1_def [symmetric] s2_def)
      next
        case (Inr y)
        then obtain steps' s3 w2 where y: "run_steps J reg E sub 0 steps s2 w1 = Inr (steps', s3, w2)" by (cases y) auto
        with r have w2: "\<not> success w2" "same_session s2 s3" by (simp_all add: s2_def)
        let ?s4 = "s3\<lparr>s_state := WAITING_FOR_LLM\<rparr>"
        have s4: "same_session s ?s4" "\<not> is_terminal ?s4" using w2(2) keep(3) by (simp_all add: same_session_def is_terminal_def)
        have "plan_run J reg E sub s = (case synthesize J E steps' ?s4 w2 of
            Inl e \<Rightarrow> (?s4, Inl e) | Inr (ans, w3) \<Rightarrow> complete_or_fail ''Synthesis failed'' ans ?s4 w3)"
          using g False y unfolding plan_run_def Let_def s1_def [symmetric] s2_def [symmetric] by simp
        then show ?thesis
          using s4 w2(1) synthesize_success [of J E steps' ?s4 w2]
          by (auto split: sum.splits intro!: ends_throw ends_complete)
      qed
    qed
  qed
qed

lemma run_task_keeps:
  "same_session (mr_session st) (mr_session (run_task J reg E sub i st)) \<and>
   s_state (mr_session (run_task J reg E sub i st)) = s_state (mr_session st) \<and>
   success (mr_result (run_task J reg E sub i st)) = success (mr_result st)"
  by (auto simp: run_task_def Let_def same_session_def split: sum.splits)

lemma run_tasks_keeps:
  "same_session (mr_session st) (mr_session (run_tasks J reg E sub order st)) \<and>
   s_state (mr_session (run_tasks J reg E sub order st)) = s_state (mr_session st) \<and>
   success (mr_result (run_tasks J reg E sub order st)) = success (mr_result st)"
  unfolding run_tasks_def
proof (induction order arbitrary: st)
  case (Cons i order)
  show ?case using Cons.IH [of "run_task J reg E sub i st"] run_task_keeps [of st J reg E sub i] by (simp add: same_session_def)
qed (simp add: same_session_def)

lemma wait_all_keeps:
  "same_session (mr_session st) (mr_session (fst (wait_all J reg E sub is st))) \<and>
   s_state (mr_session (fst (wait_all J reg E sub is st))) = s_state (mr_session st) \<and>
   success (mr_result (fst (wait_all J reg E sub is st))) = success (mr_result st)"
proof (induction "is" arbitrary: st)
  case (Cons i "is")
  show ?case using Cons.IH [of st] Cons.IH [of "run_task J reg E sub i st"] run_task_keeps [of st J reg E sub i]
    by (simp add: same_session_def Let_def split: option.split sum.split)
qed (simp add: same_session_def)

lemma map_reduce_run_ends: "ends s (map_reduce_run J reg E sub order s)"
proof -
  define s1 where "s1 = s\<lparr>s_state := WAITING_FOR_LLM\<rparr>"
  have keep: "same_session s s1" "\<not> is_terminal s1" by (simp_all add: s1_def same_session_def is_terminal_def)
  show ?thesis
  proof (cases "decompose J E s1 workflow_result_new")
    case (Inl e)
    with keep show ?thesis by (simp add: map_reduce_run_def s1_def [symmetric] ends_throw)
  next
    case (Inr x)
    then obtain tasks w1 where g: "decompose J E s1 workflow_result_new = Inr (tasks, w1)" by (cases x) auto
    then have w1: "\<not> success w1" by (auto simp: decompose_def workflow_result_new_def dest: split_request_success)
    define st0 where "st0 = \<lparr>mr_tasks = tasks, mr_session = s1\<lparr>s_state := EXECUTING_TOOLS\<rparr>, mr_result = w1, mr_futures = Map.empty\<rparr>"
    obtain st rethrown where wait: "wait_all J reg E sub [0..<length tasks] (run_tasks J reg E sub (order (length tasks)) st0) = (st, rethrown)"
      by fastforce
    have st: "same_session s (mr_session st)" "s_state (mr_session st) = EXECUTING_TOOLS" "\<not> success (mr_result st)"
      using run_tasks_keeps [of st0 J reg E sub "order (length tasks)"] keep(1) w1
        wait_all_keeps [of "run_tasks J reg E sub (order (length tasks)) st0" J reg E sub "[0..<length tasks]", unfolded wait fst_conv]
      by (simp_all add: st0_def same_session_def)
    let ?s3 = "(mr_session st)\<lparr>s_state := WAITING_FOR_LLM\<rparr>"
    have s3: "same_session s ?s3" "\<not> is_terminal ?s3" using st(1) by (simp_all add: same_session_def is_terminal_def)
    have "\<not> is_terminal (mr_session st)" using st(2) by (simp add: is_terminal_def)
    then show ?thesis
      using g keep w1 st s3
      by (auto simp: map_reduce_run_def Let_def s1_def [symmetric] st0_def [symmetric] wait
          split: sum.splits option.splits if_splits intro!: ends_throw ends_complete ends_fail dest: reduce_success)
  qed
qed

interpretation plan: workflow "plan_run J reg E sub" for J reg E sub
  by (rule ends_workflow) (rule plan_run_ends)

interpretation map_reduce: workflow "map_reduce_run J reg E sub order" for J reg E sub order
  by (rule ends_workflow) (rule map_reduce_run_ends)

subsection \<open>Properties\<close>

lemma main_factory_lookup:
  "map_of (main_factory J) name =
     (if name = ''map-reduce'' then Some (\<lambda>reg W. map_reduce_run J reg (we_main W) (we_sub W) (we_order W))
      else if name = ''plan-execute'' then Some (\<lambda>reg W. plan_run J reg (we_main W) (we_sub W))
      else if name = ''react'' then Some (\<lambda>reg W. react_run J reg (we_main W)) else None)"
  by (simp add: main_factory_def register_workflow_def map_of_assoc_update)

lemma main_factory_workflow:
  assumes "create_workflow (main_factory J) name = Inr ctor"
  shows "workflow (ctor reg W)"
proof -
  have "ctor = (\<lambda>reg W. map_reduce_run J reg (we_main W) (we_sub W) (we_order W)) \<or>
      ctor = (\<lambda>reg W. plan_run J reg (we_main W) (we_sub W)) \<or> ctor = (\<lambda>reg W. react_run J reg (we_main W))"
    using assms by (auto simp: create_workflow_def main_factory_lookup split: option.splits if_splits)
  then show ?thesis
    by (elim disjE) (simp_all add: map_reduce.workflow_axioms plan.workflow_axioms react.workflow_axioms)
qed

text \<open>
  C10. Every workflow that \<open>main\<close> registers keeps the contract of a workflow: started on a session that is not terminal, it leaves the session terminal
  exactly when it returns a result; the result reports success exactly for a completed session, with the session's nonempty
  answer, and otherwise the session's nonempty error; the session keeps its identity.
\<close>

theorem workflows_report_faithfully:
  assumes "create_workflow (main_factory J) name = Inr ctor" and "\<not> is_terminal s" and "ctor reg W s = (s', r)"
  shows "(is_terminal s' \<longleftrightarrow> \<not> isl r) \<and> s_id s' = s_id s \<and> created_at s' = created_at s \<and>
    (\<forall>w. r = Inr w \<longrightarrow> (success w \<longleftrightarrow> s_state s' = COMPLETED) \<and>
       (if success w then answer w \<noteq> [] \<and> answer w = final_answer s' else wf_error w \<noteq> [] \<and> wf_error w = s_error s'))"
proof -
  have wf: "workflow (ctor reg W)" using assms(1) by (rule main_factory_workflow)
  show ?thesis
    using workflow.terminal_iff_returned [OF wf assms(2,3)] workflow.run_keeps_law [OF wf assms(2,3)]
      workflow.run_returns_law [OF wf assms(2)] assms(3) by (auto simp: reported_def)
qed

text \<open>The closures of two tasks commute.\<close>

lemma run_task_swap:
  assumes "i \<noteq> j"
  shows "run_task J reg E sub i (run_task J reg E sub j st) = run_task J reg E sub j (run_task J reg E sub i st)"
proof -
  let ?c = "s_config (mr_session st)"
  let ?ri = "run_sub J reg (sub i) ?c (st_description (mr_tasks st ! i))"
  let ?rj = "run_sub J reg (sub j) ?c (st_description (mr_tasks st ! j))"
  show ?thesis
    by (cases ?ri; cases ?rj)
      (use assms in \<open>simp_all add: run_task_def observe_cancel_def Let_def add_tokens_def list_update_swap fun_upd_twist add.commute add.left_commute\<close>)
qed

lemma run_tasks_permute: "mset xs = mset ys \<Longrightarrow> run_tasks J reg E sub xs = run_tasks J reg E sub ys"
  unfolding run_tasks_def
proof (rule fold_multiset_equiv)
  fix x y
  show "run_task J reg E sub x \<circ> run_task J reg E sub y = run_task J reg E sub y \<circ> run_task J reg E sub x"
    by (cases "x = y") (simp_all add: fun_eq_iff run_task_swap)
qed

text \<open>
  When the loop over the futures comes to its end, the closures have done what they do one after the other in the order of the tasks, whichever of them had run before the loop asked
  for them.
\<close>

lemma run_tasks_futures: "mr_futures (run_tasks J reg E sub is st) i \<noteq> None \<longleftrightarrow> i \<in> set is \<or> mr_futures st i \<noteq> None"
proof (induction "is" arbitrary: st)
  case (Cons j "is")
  have "mr_futures (run_task J reg E sub j st) i \<noteq> None \<longleftrightarrow> i = j \<or> mr_futures st i \<noteq> None"
    by (auto simp: run_task_def Let_def split: sum.splits)
  with Cons.IH [of "run_task J reg E sub j st"] show ?case by (auto simp: run_tasks_def)
qed (simp add: run_tasks_def)

lemma wait_all_runs:
  "distinct is \<Longrightarrow> wait_all J reg E sub is st = (st', None) \<Longrightarrow>
     st' = run_tasks J reg E sub (filter (\<lambda>i. mr_futures st i = None) is) st"
proof (induction "is" arbitrary: st)
  case (Cons i "is")
  let ?st = "if mr_futures st i = None then run_task J reg E sub i st else st"
  have "mr_futures ?st j = None \<longleftrightarrow> mr_futures st j = None" if "j \<in> set is" for j
    using run_tasks_futures [of J reg E sub "[i]" st j] that Cons.prems(1) by (auto simp: run_tasks_def)
  then have "filter (\<lambda>j. mr_futures ?st j = None) is = filter (\<lambda>j. mr_futures st j = None) is" by (rule filter_cong [OF refl])
  moreover have "wait_all J reg E sub is ?st = (st', None)" using Cons.prems(2) by (auto simp: Let_def split: option.splits sum.splits if_splits)
  ultimately show ?case using Cons.IH [of ?st] Cons.prems(1) by (auto simp: run_tasks_def)
qed (simp add: run_tasks_def)

lemma wait_all_sequential:
  assumes "mr_futures st = Map.empty" and "distinct done_tasks" and "set done_tasks \<subseteq> {..<n}"
    and "wait_all J reg E sub [0..<n] (run_tasks J reg E sub done_tasks st) = (st', None)"
  shows "st' = run_tasks J reg E sub [0..<n] st"
proof -
  let ?rest = "filter (\<lambda>i. i \<notin> set done_tasks) [0..<n]"
  have "mr_futures (run_tasks J reg E sub done_tasks st) i = None \<longleftrightarrow> i \<notin> set done_tasks" for i
    using run_tasks_futures [of J reg E sub done_tasks st i] assms(1) by auto
  then have "st' = run_tasks J reg E sub ?rest (run_tasks J reg E sub done_tasks st)"
    using wait_all_runs [OF distinct_upt assms(4)] by simp
  also have "\<dots> = run_tasks J reg E sub (done_tasks @ ?rest) st" by (simp add: run_tasks_def)
  also have "mset (done_tasks @ ?rest) = mset [0..<n]"
    using assms(2,3) by (intro set_eq_iff_mset_eq_distinct [THEN iffD1]) auto
  then have "run_tasks J reg E sub (done_tasks @ ?rest) st = run_tasks J reg E sub [0..<n] st"
    by (rule run_tasks_permute [THEN fun_cong])
  finally show ?thesis .
qed

text \<open>A plan of one step, and its execution.\<close>

definition planning_json :: "jval json_ops" where
  "planning_json = plain_json\<lparr>j_parse := (\<lambda>s.
     let parts = JArray [JObject [(''description'', JString ''a'')], JObject [(''description'', JString ''b'')]]
     in Inr (JObject [(''steps'', parts), (''tasks'', parts)]))\<rparr>"

definition small_wf :: "(nat \<Rightarrow> nat list) \<Rightarrow> jval wf_env" where
  "small_wf order = \<lparr>we_main = small_env, we_sub = (\<lambda>_. small_env), we_order = order\<rparr>"

lemma small_plan:
  obtains s' w where "plan_run planning_json echo_registry small_env (\<lambda>_. small_env) small_session = (s', Inr w)" "success w"
proof -
  let ?r = "plan_run planning_json echo_registry small_env (\<lambda>_. small_env) small_session"
  have "case snd ?r of Inl e \<Rightarrow> False | Inr w \<Rightarrow> success w" by code_simp
  then show thesis using that by (cases ?r) (auto split: sum.splits)
qed

theorem workflows_report_faithfully_witness:
  "\<exists>ctor s' w. create_workflow (main_factory planning_json) ''plan-execute'' = Inr ctor \<and>
    ctor echo_registry (small_wf (\<lambda>n. [0..<n])) small_session = (s', Inr w) \<and> s_state s' = COMPLETED \<and> answer w = final_answer s'"
proof -
  let ?c = "\<lambda>reg W. plan_run planning_json reg (we_main W) (we_sub W)"
  obtain s' w where r: "plan_run planning_json echo_registry small_env (\<lambda>_. small_env) small_session = (s', Inr w)" "success w"
    by (rule small_plan)
  have c: "create_workflow (main_factory planning_json) ''plan-execute'' = Inr ?c"
    by (simp add: create_workflow_def main_factory_lookup)
  have "?c echo_registry (small_wf (\<lambda>n. [0..<n])) small_session = (s', Inr w)" using r(1) by (simp add: small_wf_def)
  from workflows_report_faithfully [OF c small_not_terminal this] c this r(2) show ?thesis by auto
qed

end
