(* ===== verification/Map_Phase.thy ===== *)
theory Map_Phase
  imports Workflows
begin

section \<open>The closures of map-reduce under interleaving (src/src/workflow/map_reduce.cpp)\<close>

text \<open>
  The closures that \<open>MapReduceWorkflow::run\<close> submits share the session, the result and the vector of tasks. Here a closure is a sequence of steps, one per access to something shared: the check of the cancel flag,
  the atomic increment of the step counter, the lock, the loads and stores of the two token counters, the unlock, the writes to its own task and its future. The run of its
  sub-session touches nothing shared. What a closure meets from outside, whether it finds the cancel flag set and what model and tools answer its sub-session, is an arbitrary function of the closure. The steps of all closures interleave. The theorem: when all closures are done, the shared state is that of running them one after the other.
\<close>

datatype closure_pc =
    C_start
  | C_go                                    \<comment> \<open>not cancelled\<close>
  | C_counted                               \<comment> \<open>step counter incremented\<close>
  | C_ran workflow_result                   \<comment> \<open>sub-session run\<close>
  | C_locked workflow_result                \<comment> \<open>mutex taken\<close>
  | C_prompt workflow_result "32 word"      \<comment> \<open>prompt tokens loaded\<close>
  | C_prompted workflow_result              \<comment> \<open>prompt tokens stored\<close>
  | C_completion workflow_result "32 word"  \<comment> \<open>completion tokens loaded\<close>
  | C_completed workflow_result             \<comment> \<open>completion tokens stored\<close>
  | C_unlocked workflow_result              \<comment> \<open>mutex given back\<close>
  | C_result "exn + bool"                   \<comment> \<open>about to satisfy the promise\<close>
  | C_done

record map_sys =
  ms :: mr_state
  mutex :: "nat option"
  pcs :: "nat \<Rightarrow> closure_pc"

definition map_init :: "mr_state \<Rightarrow> map_sys \<Rightarrow> bool" where
  "map_init st s \<longleftrightarrow> s = \<lparr>ms = st, mutex = None, pcs = (\<lambda>_. C_start)\<rparr>"

definition at_pc :: "nat \<Rightarrow> closure_pc \<Rightarrow> map_sys \<Rightarrow> map_sys" where
  "at_pc i pc s = s\<lparr>pcs := (pcs s)(i := pc)\<rparr>"

inductive map_step ::
  "('j, 'x) json_ops_scheme \<Rightarrow> 'j registry \<Rightarrow> 'j env \<Rightarrow> (nat \<Rightarrow> 'j env) \<Rightarrow> nat \<Rightarrow> map_sys \<Rightarrow> unit label \<Rightarrow> map_sys \<Rightarrow> bool"
  for J reg E sub n where
  cancelled: "i < n \<Longrightarrow> pcs s i = C_start \<Longrightarrow> observe_cancel E i (mr_session (ms s)) \<Longrightarrow>
     map_step J reg E sub n s Tau (at_pc i (C_result (Inr False)) s)"
| go: "i < n \<Longrightarrow> pcs s i = C_start \<Longrightarrow> \<not> observe_cancel E i (mr_session (ms s)) \<Longrightarrow>
     map_step J reg E sub n s Tau (at_pc i C_go s)"
| count: "i < n \<Longrightarrow> pcs s i = C_go \<Longrightarrow> q = mr_session (ms s) \<Longrightarrow>
     map_step J reg E sub n s Tau (at_pc i C_counted (s\<lparr>ms := (ms s)\<lparr>mr_session := q\<lparr>step_count := step_count q + 1\<rparr>\<rparr>\<rparr>))"
| ran: "i < n \<Longrightarrow> pcs s i = C_counted \<Longrightarrow>
     run_sub J reg (sub i) (s_config (mr_session (ms s))) (st_description (mr_tasks (ms s) ! i)) = Inr r \<Longrightarrow>
     map_step J reg E sub n s Tau (at_pc i (C_ran r) s)"
| threw: "i < n \<Longrightarrow> pcs s i = C_counted \<Longrightarrow>
     run_sub J reg (sub i) (s_config (mr_session (ms s))) (st_description (mr_tasks (ms s) ! i)) = Inl e \<Longrightarrow>
     map_step J reg E sub n s Tau (at_pc i (C_result (Inl e)) s)"
| lock: "i < n \<Longrightarrow> pcs s i = C_ran r \<Longrightarrow> mutex s = None \<Longrightarrow>
     map_step J reg E sub n s Tau (at_pc i (C_locked r) (s\<lparr>mutex := Some i\<rparr>))"
| load_prompt: "i < n \<Longrightarrow> pcs s i = C_locked r \<Longrightarrow>
     map_step J reg E sub n s Tau (at_pc i (C_prompt r (total_prompt_tokens (mr_result (ms s)))) s)"
| store_prompt: "i < n \<Longrightarrow> pcs s i = C_prompt r x \<Longrightarrow> w = mr_result (ms s) \<Longrightarrow>
     map_step J reg E sub n s Tau (at_pc i (C_prompted r)
       (s\<lparr>ms := (ms s)\<lparr>mr_result := w\<lparr>total_prompt_tokens := x + total_prompt_tokens r\<rparr>\<rparr>\<rparr>))"
| load_completion: "i < n \<Longrightarrow> pcs s i = C_prompted r \<Longrightarrow>
     map_step J reg E sub n s Tau (at_pc i (C_completion r (total_completion_tokens (mr_result (ms s)))) s)"
| store_completion: "i < n \<Longrightarrow> pcs s i = C_completion r x \<Longrightarrow> w = mr_result (ms s) \<Longrightarrow>
     map_step J reg E sub n s Tau (at_pc i (C_completed r)
       (s\<lparr>ms := (ms s)\<lparr>mr_result := w\<lparr>total_completion_tokens := x + total_completion_tokens r\<rparr>\<rparr>\<rparr>))"
| unlock: "i < n \<Longrightarrow> pcs s i = C_completed r \<Longrightarrow>
     map_step J reg E sub n s Tau (at_pc i (C_unlocked r) (s\<lparr>mutex := None\<rparr>))"
| write_task: "i < n \<Longrightarrow> pcs s i = C_unlocked r \<Longrightarrow> ts = mr_tasks (ms s) \<Longrightarrow>
     map_step J reg E sub n s Tau (at_pc i (C_result (Inr (success r)))
       (s\<lparr>ms := (ms s)\<lparr>mr_tasks := ts[i := (ts ! i)\<lparr>st_success := success r, st_result := if success r then answer r else wf_error r\<rparr>]\<rparr>\<rparr>))"
| set_future: "i < n \<Longrightarrow> pcs s i = C_result res \<Longrightarrow>
     map_step J reg E sub n s Tau (at_pc i C_done (s\<lparr>ms := (ms s)\<lparr>mr_futures := (mr_futures (ms s))(i \<mapsto> res)\<rparr>\<rparr>))"

inductive_cases map_stepE: "map_step J reg E sub n s l t"

subsection \<open>What a closure contributes\<close>

text \<open>
  Everything a closure contributes depends only on the state \<open>st\<close> at the start of the phase: whether it sees the cancel flag and what its sub-session returns.
\<close>

definition sub_outcome :: "('j, 'x) json_ops_scheme \<Rightarrow> 'j registry \<Rightarrow> 'j env \<Rightarrow> (nat \<Rightarrow> 'j env) \<Rightarrow> mr_state \<Rightarrow> nat \<Rightarrow> (exn + workflow_result) option" where
  "sub_outcome J reg E sub st i =
     (if observe_cancel E i (mr_session st) then None
      else Some (run_sub J reg (sub i) (s_config (mr_session st)) (st_description (mr_tasks st ! i))))"

fun steps_added :: "(exn + workflow_result) option \<Rightarrow> 32 word" where
  "steps_added None = 0"
| "steps_added (Some r) = 1"

fun prompt_added :: "(exn + workflow_result) option \<Rightarrow> 32 word" where
  "prompt_added (Some (Inr r)) = total_prompt_tokens r"
| "prompt_added _ = 0"

fun completion_added :: "(exn + workflow_result) option \<Rightarrow> 32 word" where
  "completion_added (Some (Inr r)) = total_completion_tokens r"
| "completion_added _ = 0"

fun task_after :: "(exn + workflow_result) option \<Rightarrow> sub_task \<Rightarrow> sub_task" where
  "task_after (Some (Inr r)) t = t\<lparr>st_success := success r, st_result := if success r then answer r else wf_error r\<rparr>"
| "task_after _ t = t"

fun future_after :: "(exn + workflow_result) option \<Rightarrow> exn + bool" where
  "future_after None = Inr False"
| "future_after (Some (Inl e)) = Inl e"
| "future_after (Some (Inr r)) = Inr (success r)"

text \<open>How far a closure is: has it counted, added its prompt and completion tokens, written its task.\<close>

fun stage :: "closure_pc \<Rightarrow> nat" where
  "stage C_start = 0"
| "stage C_go = 0"
| "stage C_counted = 1"
| "stage (C_ran r) = 1"
| "stage (C_locked r) = 1"
| "stage (C_prompt r x) = 1"
| "stage (C_prompted r) = 2"
| "stage (C_completion r x) = 2"
| "stage (C_completed r) = 3"
| "stage (C_unlocked r) = 3"
| "stage (C_result res) = 4"
| "stage C_done = 5"

definition snapshot :: "(nat \<Rightarrow> (exn + workflow_result) option) \<Rightarrow> nat \<Rightarrow> mr_state \<Rightarrow> (nat \<Rightarrow> nat) \<Rightarrow> mr_state" where
  "snapshot R n st k =
     \<lparr>mr_tasks = map (\<lambda>i. if i < n \<and> k i \<ge> 4 then task_after (R i) (mr_tasks st ! i) else mr_tasks st ! i) [0..<length (mr_tasks st)],
      mr_session = (mr_session st)\<lparr>step_count := step_count (mr_session st) + (\<Sum>i<n. if k i \<ge> 1 then steps_added (R i) else 0)\<rparr>,
      mr_result = (mr_result st)\<lparr>
        total_prompt_tokens := total_prompt_tokens (mr_result st) + (\<Sum>i<n. if k i \<ge> 2 then prompt_added (R i) else 0),
        total_completion_tokens := total_completion_tokens (mr_result st) + (\<Sum>i<n. if k i \<ge> 3 then completion_added (R i) else 0)\<rparr>,
      mr_futures = (\<lambda>i. if i < n \<and> k i \<ge> 5 then Some (future_after (R i)) else None)\<rparr>"

lemma sum_upd:
  fixes f :: "nat \<Rightarrow> nat \<Rightarrow> 'a :: ab_group_add"
  assumes "i < n"
  shows "(\<Sum>j<n. f j ((k(i := v)) j)) = (\<Sum>j<n. f j (k j)) + (f i v - f i (k i))"
proof -
  have "(\<Sum>j<n. f j ((k(i := v)) j)) = f i v + (\<Sum>j\<in>{..<n} - {i}. f j ((k(i := v)) j))" by (subst sum.remove [of _ i]) (use assms in auto)
  moreover have "(\<Sum>j\<in>{..<n} - {i}. f j ((k(i := v)) j)) = (\<Sum>j\<in>{..<n} - {i}. f j (k j))" by (rule sum.cong) auto
  moreover have "(\<Sum>j<n. f j (k j)) = f i (k i) + (\<Sum>j\<in>{..<n} - {i}. f j (k j))" by (subst sum.remove [of _ i]) (use assms in auto)
  ultimately show ?thesis by simp
qed

text \<open>The snapshot after closure \<open>i\<close> has moved on from stage \<open>k i\<close> to stage \<open>v\<close>.\<close>

lemma snapshot_upd:
  assumes "i < n" and "length (mr_tasks st) = n" and "k i \<le> v"
  shows "snapshot R n st (k(i := v)) =
    (let s = snapshot R n st k; q = mr_session s; w = mr_result s in
     \<lparr>mr_tasks = if k i < 4 \<and> 4 \<le> v then (mr_tasks s)[i := task_after (R i) (mr_tasks s ! i)] else mr_tasks s,
      mr_session = q\<lparr>step_count := step_count q + (if k i < 1 \<and> 1 \<le> v then steps_added (R i) else 0)\<rparr>,
      mr_result = w\<lparr>total_prompt_tokens := total_prompt_tokens w + (if k i < 2 \<and> 2 \<le> v then prompt_added (R i) else 0),
        total_completion_tokens := total_completion_tokens w + (if k i < 3 \<and> 3 \<le> v then completion_added (R i) else 0)\<rparr>,
      mr_futures = if k i < 5 \<and> 5 \<le> v then (mr_futures s)(i \<mapsto> future_after (R i)) else mr_futures s\<rparr>)"
proof -
  have sums: "(\<Sum>j<n. if (k(i := v)) j \<ge> c then g j else 0) = (\<Sum>j<n. if k j \<ge> c then g j else 0) + (if k i < c \<and> c \<le> v then g i else 0)"
    for c and g :: "nat \<Rightarrow> 32 word"
    using sum_upd [OF assms(1), of "\<lambda>j x. if x \<ge> c then g j else 0" k v] assms(3) by auto
  have tasks: "map (\<lambda>j. if j < n \<and> (k(i := v)) j \<ge> 4 then task_after (R j) (mr_tasks st ! j) else mr_tasks st ! j) [0..<n] =
      (let ts = map (\<lambda>j. if j < n \<and> k j \<ge> 4 then task_after (R j) (mr_tasks st ! j) else mr_tasks st ! j) [0..<n]
       in if k i < 4 \<and> 4 \<le> v then ts[i := task_after (R i) (ts ! i)] else ts)"
    using assms(1,3) by (auto simp: Let_def intro!: nth_equalityI simp: nth_list_update)
  have futures: "(\<lambda>j. if j < n \<and> (k(i := v)) j \<ge> 5 then Some (future_after (R j)) else None) =
      (let fs = (\<lambda>j. if j < n \<and> k j \<ge> 5 then Some (future_after (R j)) else None)
       in if k i < 5 \<and> 5 \<le> v then fs(i \<mapsto> future_after (R i)) else fs)"
    using assms(1,3) by (auto simp: Let_def fun_eq_iff)
  show ?thesis
    unfolding snapshot_def sums assms(2) tasks futures by (simp add: Let_def add.assoc)
qed

lemma snapshot_reads:
  assumes "i < n" and "length (mr_tasks st) = n"
  shows "observe_cancel E j (mr_session (snapshot R n st k)) = observe_cancel E j (mr_session st)"
    and "s_config (mr_session (snapshot R n st k)) = s_config (mr_session st)"
    and "st_description (mr_tasks (snapshot R n st k) ! i) = st_description (mr_tasks st ! i)"
proof -
  have "st_description (task_after r t) = st_description t" for r t by (cases "(r, t)" rule: task_after.cases) auto
  with assms show "st_description (mr_tasks (snapshot R n st k) ! i) = st_description (mr_tasks st ! i)" by (simp add: snapshot_def)
qed (simp_all add: snapshot_def observe_cancel_def)

subsection \<open>The invariant\<close>

fun holds_lock :: "closure_pc \<Rightarrow> bool" where
  "holds_lock (C_locked r) = True"
| "holds_lock (C_prompt r x) = True"
| "holds_lock (C_prompted r) = True"
| "holds_lock (C_completion r x) = True"
| "holds_lock (C_completed r) = True"
| "holds_lock _ = False"

fun loaded :: "workflow_result \<Rightarrow> closure_pc \<Rightarrow> bool" where
  "loaded w (C_prompt r x) \<longleftrightarrow> x = total_prompt_tokens w"
| "loaded w (C_completion r x) \<longleftrightarrow> x = total_completion_tokens w"
| "loaded w _ = True"

fun local_ok :: "(exn + workflow_result) option \<Rightarrow> closure_pc \<Rightarrow> bool" where
  "local_ok R C_start = True"
| "local_ok R C_go \<longleftrightarrow> R \<noteq> None"
| "local_ok R C_counted \<longleftrightarrow> R \<noteq> None"
| "local_ok R (C_ran r) \<longleftrightarrow> R = Some (Inr r)"
| "local_ok R (C_locked r) \<longleftrightarrow> R = Some (Inr r)"
| "local_ok R (C_prompt r x) \<longleftrightarrow> R = Some (Inr r)"
| "local_ok R (C_prompted r) \<longleftrightarrow> R = Some (Inr r)"
| "local_ok R (C_completion r x) \<longleftrightarrow> R = Some (Inr r)"
| "local_ok R (C_completed r) \<longleftrightarrow> R = Some (Inr r)"
| "local_ok R (C_unlocked r) \<longleftrightarrow> R = Some (Inr r)"
| "local_ok R (C_result res) \<longleftrightarrow> res = future_after R"
| "local_ok R C_done = True"

definition mutex_ok :: "nat \<Rightarrow> map_sys \<Rightarrow> bool" where
  "mutex_ok n s \<longleftrightarrow> (\<forall>i. holds_lock (pcs s i) \<longleftrightarrow> mutex s = Some i) \<and> (\<forall>i. mutex s = Some i \<longrightarrow> i < n)"

definition loaded_ok :: "map_sys \<Rightarrow> bool" where
  "loaded_ok s \<longleftrightarrow> (\<forall>i. loaded (mr_result (ms s)) (pcs s i))"

definition data_ok :: "(nat \<Rightarrow> (exn + workflow_result) option) \<Rightarrow> nat \<Rightarrow> mr_state \<Rightarrow> map_sys \<Rightarrow> bool" where
  "data_ok R n st s \<longleftrightarrow> ms s = snapshot R n st (\<lambda>i. stage (pcs s i)) \<and> (\<forall>i. local_ok (R i) (pcs s i))"

lemma mutex_ok_at:
  "mutex_ok n s \<Longrightarrow> holds_lock pc = holds_lock (pcs s i) \<Longrightarrow> mutex s' = mutex s \<Longrightarrow> pcs s' = pcs s \<Longrightarrow> mutex_ok n (at_pc i pc s')"
  by (auto simp: mutex_ok_def at_pc_def)

lemma mutex_ok_step:
  assumes step: "map_step J reg E sub n s l t" and ok: "mutex_ok n s"
  shows "mutex_ok n t"
  using step
proof (rule map_stepE)
  fix i r
  assume "i < n" "pcs s i = C_ran r" "mutex s = None" "t = at_pc i (C_locked r) (s\<lparr>mutex := Some i\<rparr>)"
  with ok show ?thesis by (auto simp: mutex_ok_def at_pc_def)
next
  fix i r
  assume t: "i < n" "pcs s i = C_completed r" "t = at_pc i (C_unlocked r) (s\<lparr>mutex := None\<rparr>)"
  with ok have "mutex s = Some i" by (metis holds_lock.simps(5) mutex_ok_def)
  with ok t show ?thesis by (auto simp: mutex_ok_def at_pc_def)
qed (use ok in \<open>auto intro!: mutex_ok_at\<close>)

lemma only_holder: "mutex_ok n s \<Longrightarrow> holds_lock (pcs s i) \<Longrightarrow> j \<noteq> i \<Longrightarrow> \<not> holds_lock (pcs s j)"
  by (simp add: mutex_ok_def)

lemma loaded_unlocked: "\<not> holds_lock pc \<Longrightarrow> loaded w pc"
  by (cases pc) auto

lemma loaded_ok_step:
  assumes step: "map_step J reg E sub n s l t" and mx: "mutex_ok n s" and ok: "loaded_ok s"
  shows "loaded_ok t"
proof -
  have other: "pcs s i = pc \<Longrightarrow> holds_lock pc \<Longrightarrow> j \<noteq> i \<Longrightarrow> loaded w (pcs s j)" for i pc j w
    using only_holder [OF mx] loaded_unlocked by metis
  show ?thesis using step by (rule map_stepE) (use ok in \<open>auto simp: loaded_ok_def at_pc_def intro: other\<close>)
qed

text \<open>A step of closure \<open>i\<close> to \<open>pc\<close> that leaves the data where the snapshot of the new stage has them.\<close>

lemma data_ok_at:
  assumes "data_ok R n st s" and "i < n" and "length (mr_tasks st) = n" and "stage (pcs s i) \<le> stage pc" and "local_ok (R i) pc"
    and "ms s' = snapshot R n st ((\<lambda>j. stage (pcs s j))(i := stage pc))" and "pcs s' = pcs s"
  shows "data_ok R n st (at_pc i pc s')"
proof -
  have "(\<lambda>j. stage (((pcs s)(i := pc)) j)) = (\<lambda>j. stage (pcs s j))(i := stage pc)" by auto
  with assms show ?thesis by (simp add: data_ok_def at_pc_def)
qed

lemma data_ok_same:
  assumes "data_ok R n st s" and "i < n" and "length (mr_tasks st) = n" and "stage pc = stage (pcs s i)" and "local_ok (R i) pc"
    and "ms s' = ms s" and "pcs s' = pcs s"
  shows "data_ok R n st (at_pc i pc s')"
proof (rule data_ok_at [OF assms(1-3) _ assms(5)])
  have "(\<lambda>j. stage (pcs s j))(i := stage pc) = (\<lambda>j. stage (pcs s j))" using assms(4) by auto
  with assms(1,6) show "ms s' = snapshot R n st ((\<lambda>j. stage (pcs s j))(i := stage pc))" by (simp add: data_ok_def)
qed (use assms in simp_all)

lemma data_ok_next:
  assumes ok: "data_ok R n st s" and i: "i < n" and len: "length (mr_tasks st) = n" and up: "stage (pcs s i) \<le> stage pc" and loc: "local_ok (R i) pc"
    and "pcs s' = pcs s"
    and "mr_tasks (ms s') = (if stage (pcs s i) < 4 \<and> 4 \<le> stage pc then (mr_tasks (ms s))[i := task_after (R i) (mr_tasks (ms s) ! i)] else mr_tasks (ms s))"
    and "mr_session (ms s') = (mr_session (ms s))\<lparr>step_count := step_count (mr_session (ms s)) + (if stage (pcs s i) < 1 \<and> 1 \<le> stage pc then steps_added (R i) else 0)\<rparr>"
    and "mr_result (ms s') = (mr_result (ms s))\<lparr>
        total_prompt_tokens := total_prompt_tokens (mr_result (ms s)) + (if stage (pcs s i) < 2 \<and> 2 \<le> stage pc then prompt_added (R i) else 0),
        total_completion_tokens := total_completion_tokens (mr_result (ms s)) + (if stage (pcs s i) < 3 \<and> 3 \<le> stage pc then completion_added (R i) else 0)\<rparr>"
    and "mr_futures (ms s') = (if stage (pcs s i) < 5 \<and> 5 \<le> stage pc then (mr_futures (ms s))(i \<mapsto> future_after (R i)) else mr_futures (ms s))"
  shows "data_ok R n st (at_pc i pc s')"
proof (rule data_ok_at [OF ok i len up loc _ assms(6)])
  have "snapshot R n st (\<lambda>j. stage (pcs s j)) = ms s" using ok by (simp add: data_ok_def)
  note upd = snapshot_upd [OF i len, of "\<lambda>j. stage (pcs s j)" "stage pc" R, unfolded this, OF up]
  show "ms s' = snapshot R n st ((\<lambda>j. stage (pcs s j))(i := stage pc))"
    unfolding upd Let_def by (rule mr_state.equality) (simp_all add: assms(7-10))
qed

lemma data_ok_step:
  assumes step: "map_step J reg E sub n s l t" and len: "length (mr_tasks st) = n"
    and ok: "data_ok (sub_outcome J reg E sub st) n st s" and ld: "loaded_ok s"
  shows "data_ok (sub_outcome J reg E sub st) n st t"
proof -
  define R where "R = sub_outcome J reg E sub st"
  note ok = ok [folded R_def]
  have cur: "ms s = snapshot R n st (\<lambda>i. stage (pcs s i))" using ok by (simp add: data_ok_def)
  have loc: "local_ok (R i) (pcs s i)" for i using ok by (simp add: data_ok_def)
  have sees: "R i = (if observe_cancel E i (mr_session (ms s)) then None
      else Some (run_sub J reg (sub i) (s_config (mr_session (ms s))) (st_description (mr_tasks (ms s) ! i))))" if "i < n" for i
    unfolding cur snapshot_reads [OF that len] by (simp add: R_def sub_outcome_def)
  have started: "R i = Some (run_sub J reg (sub i) (s_config (mr_session (ms s))) (st_description (mr_tasks (ms s) ! i)))"
    if "i < n" "R i \<noteq> None" for i
    using sees [OF that(1)] that(2) by (auto split: if_splits)
  have lds: "loaded (mr_result (ms s)) (pcs s i)" for i using ld by (simp add: loaded_ok_def)
  note same = data_ok_same [OF ok _ len]
  note move = data_ok_next [OF ok _ len]
  have "data_ok R n st t"
    using step
  proof (cases rule: map_step.cases)
    case (cancelled i)
    then show ?thesis using sees [of i] by (auto intro!: move)
  next
    case (go i)
    then show ?thesis using sees [of i] by (auto intro!: same)
  next
    case (count i q)
    then obtain x where "R i = Some x" using loc [of i] by auto
    with count show ?thesis by (auto intro!: move)
  next
    case (ran i r)
    then show ?thesis using loc [of i] started [of i] by (auto intro!: same)
  next
    case (threw i e)
    then have "R i = Some (Inl e)" using loc [of i] started [of i] by auto
    with threw show ?thesis by (auto intro!: move)
  next
    case (lock i r)
    then show ?thesis using loc [of i] by (auto intro!: same)
  next
    case (load_prompt i r)
    then show ?thesis using loc [of i] by (auto intro!: same)
  next
    case (store_prompt i r x w)
    then show ?thesis using loc [of i] lds [of i] by (auto intro!: move)
  next
    case (load_completion i r)
    then show ?thesis using loc [of i] by (auto intro!: same)
  next
    case (store_completion i r x w)
    then show ?thesis using loc [of i] lds [of i] by (auto intro!: move)
  next
    case (unlock i r)
    then show ?thesis using loc [of i] by (auto intro!: same)
  next
    case (write_task i r ts)
    then show ?thesis using loc [of i] by (auto intro!: move)
  next
    case (set_future i res)
    then show ?thesis using loc [of i] by (auto intro!: move)
  qed
  then show ?thesis by (simp add: R_def)
qed

text \<open>Running the closures one after the other fills in the snapshot.\<close>

lemma run_task_snapshot:
  assumes "i < n" and len: "length (mr_tasks st) = n" and "k i = 0"
  shows "run_task J reg E sub i (snapshot (sub_outcome J reg E sub st) n st k) = snapshot (sub_outcome J reg E sub st) n st (k(i := 5))"
proof -
  let ?R = "sub_outcome J reg E sub st" and ?s = "snapshot (sub_outcome J reg E sub st) n st k"
  have R: "?R i = (if observe_cancel E i (mr_session ?s) then None
      else Some (run_sub J reg (sub i) (s_config (mr_session ?s)) (st_description (mr_tasks ?s ! i))))"
    unfolding snapshot_reads [OF assms(1) len] by (simp add: sub_outcome_def)
  show ?thesis
    unfolding snapshot_upd [OF assms(1) len, of k 5, unfolded assms(3), OF le0] Let_def run_task_def add_tokens_def
    by (rule mr_state.equality) (simp_all add: assms(3) R split: sum.split)
qed

lemma snapshot_start: "length (mr_tasks st) = n \<Longrightarrow> mr_futures st = Map.empty \<Longrightarrow> snapshot R n st (\<lambda>_. 0) = st"
  using map_nth [of "mr_tasks st"] by (intro mr_state.equality) (simp_all add: snapshot_def fun_eq_iff)

lemma run_tasks_snapshot:
  assumes "length (mr_tasks st) = n" and "mr_futures st = Map.empty" and "m \<le> n"
  shows "run_tasks J reg E sub [0..<m] st = snapshot (sub_outcome J reg E sub st) n st (\<lambda>i. if i < m then 5 else 0)"
  using assms(3)
proof (induction m)
  case 0
  then show ?case using snapshot_start [OF assms(1,2)] by (simp add: run_tasks_def)
next
  case (Suc m)
  have "(\<lambda>i. if i < Suc m then 5 else 0) = (\<lambda>i. if i < m then 5 else (0 :: nat))(m := 5)" by (auto simp: less_Suc_eq)
  with Suc run_task_snapshot [OF _ assms(1), of m "\<lambda>i. if i < m then 5 else 0" J reg E sub] show ?case
    by (simp add: run_tasks_def)
qed

lemma snapshot_cong: "(\<And>i. i < n \<Longrightarrow> k i = k' i) \<Longrightarrow> snapshot R n st k = snapshot R n st k'"
  by (simp add: snapshot_def fun_eq_iff cong: conj_cong)

subsection \<open>The property\<close>

definition map_ok :: "(nat \<Rightarrow> (exn + workflow_result) option) \<Rightarrow> nat \<Rightarrow> mr_state \<Rightarrow> map_sys \<Rightarrow> bool" where
  "map_ok R n st s \<longleftrightarrow> mutex_ok n s \<and> loaded_ok s \<and> data_ok R n st s"

lemma map_ok_init: "length (mr_tasks st) = n \<Longrightarrow> mr_futures st = Map.empty \<Longrightarrow> map_init st s \<Longrightarrow> map_ok R n st s"
  by (simp add: map_ok_def map_init_def mutex_ok_def loaded_ok_def data_ok_def snapshot_start)

lemma map_ok_reachable:
  assumes "length (mr_tasks st) = n" and "mr_futures st = Map.empty"
    and "reachable (map_init st) (map_step J reg E sub n) s"
  shows "map_ok (sub_outcome J reg E sub st) n st s"
  using assms(3)
proof (induction rule: reachable.induct)
  case (reach_init s)
  then show ?case by (rule map_ok_init [OF assms(1,2)])
next
  case (reach_step s l t)
  then show ?case unfolding map_ok_def by (blast intro: mutex_ok_step loaded_ok_step data_ok_step [OF _ assms(1)])
qed

text \<open>As long as a closure is not done some closure can go on, and every step brings one of them nearer to its end.\<close>

fun rank :: "closure_pc \<Rightarrow> nat" where
  "rank C_start = 0"
| "rank C_go = 1"
| "rank C_counted = 2"
| "rank (C_ran r) = 3"
| "rank (C_locked r) = 4"
| "rank (C_prompt r x) = 5"
| "rank (C_prompted r) = 6"
| "rank (C_completion r x) = 7"
| "rank (C_completed r) = 8"
| "rank (C_unlocked r) = 9"
| "rank (C_result res) = 10"
| "rank C_done = 11"

definition remaining :: "nat \<Rightarrow> map_sys \<Rightarrow> nat" where
  "remaining n s = (\<Sum>i<n. 11 - rank (pcs s i))"

lemma map_step_rank:
  "map_step J reg E sub n s l t \<Longrightarrow> \<exists>i<n. \<exists>pc. pcs t = (pcs s)(i := pc) \<and> rank (pcs s i) < rank pc"
  by (erule map_stepE) (force simp: at_pc_def)+

lemma map_step_remaining:
  assumes "map_step J reg E sub n s l t"
  shows "remaining n t < remaining n s"
proof -
  obtain i pc where i: "i < n" "pcs t = (pcs s)(i := pc)" "rank (pcs s i) < rank pc" using map_step_rank [OF assms] by blast
  have "rank pc \<le> 11" by (cases pc) simp_all
  then show ?thesis unfolding remaining_def using i by (intro sum_strict_mono_ex1) (auto intro!: bexI [of _ i])
qed

lemma closure_steps:
  assumes "i < n" and "pcs s i \<noteq> C_done" and "holds_lock (pcs s i) \<or> mutex s = None"
  shows "\<exists>t. map_step J reg E sub n s Tau t"
proof (cases "pcs s i")
  case C_start
  then show ?thesis using assms(1)
    by (cases "observe_cancel E i (mr_session (ms s))") (blast intro: cancelled go)+
next
  case C_counted
  then show ?thesis using assms(1)
    by (cases "run_sub J reg (sub i) (s_config (mr_session (ms s))) (st_description (mr_tasks (ms s) ! i))") (blast intro: ran threw)+
qed (use assms in \<open>auto intro: map_step.intros\<close>)

lemma map_phase_progress:
  assumes "mutex_ok n s" and "i < n" and "pcs s i \<noteq> C_done"
  shows "\<exists>t. map_step J reg E sub n s Tau t"
proof (cases "mutex s")
  case None
  with assms show ?thesis by (blast intro: closure_steps)
next
  case (Some j)
  with assms(1) have "j < n" "holds_lock (pcs s j)" by (auto simp: mutex_ok_def)
  then show ?thesis using closure_steps [of j n s] by (cases "pcs s j") auto
qed

lemma map_phase_completes:
  assumes "length (mr_tasks st) = n" and "mr_futures st = Map.empty" and "reachable (map_init st) (map_step J reg E sub n) s"
  shows "\<exists>t. reachable (map_init st) (map_step J reg E sub n) t \<and> (\<forall>i<n. pcs t i = C_done)"
  using assms(3)
proof (induction "remaining n s" arbitrary: s rule: less_induct)
  case less
  show ?case
  proof (cases "\<forall>i<n. pcs s i = C_done")
    case True
    with less.prems show ?thesis by blast
  next
    case False
    have "mutex_ok n s" using map_ok_reachable [OF assms(1,2) less.prems] by (simp add: map_ok_def)
    from False obtain i where "i < n" "pcs s i \<noteq> C_done" by blast
    with \<open>mutex_ok n s\<close> obtain t where t: "map_step J reg E sub n s Tau t"
      using map_phase_progress [of n s i J reg E sub] by blast
    from less.hyps [OF map_step_remaining [OF t] reach_step [OF less.prems t]] show ?thesis .
  qed
qed

text \<open>
  C19. The map phase of map-reduce under every interleaving of the shared accesses of its closures: as long as a closure is not done some closure can go on, so that the phase does not get stuck on its mutex, and
  no run is longer than eleven steps per closure; and when all are done, the step counter of the session, the token counters of the result, the tasks and the futures are those of running the closures one after the other in the order of the
  tasks, which is also what the waiting loop of the workflow ends with when no closure throws, whichever closures had run before it asked for them.
\<close>

theorem map_phase_interleavings:
  assumes "length (mr_tasks st) = n" and "mr_futures st = Map.empty"
    and "reachable (map_init st) (map_step J reg E sub n) s"
  shows "(if \<forall>i<n. pcs s i = C_done
      then ms s = run_tasks J reg E sub [0..<n] st \<and>
        (\<forall>order st'. distinct order \<and> set order \<subseteq> {..<n} \<and>
          wait_all J reg E sub [0..<n] (run_tasks J reg E sub order st) = (st', None) \<longrightarrow> st' = ms s)
      else \<exists>t. map_step J reg E sub n s Tau t) \<and>
    (\<forall>l t. map_step J reg E sub n s l t \<longrightarrow> remaining n t < remaining n s \<and> remaining n s \<le> 11 * n)"
proof -
  have ok: "map_ok (sub_outcome J reg E sub st) n st s" by (rule map_ok_reachable [OF assms])
  have "remaining n s \<le> 11 * n" unfolding remaining_def using sum_bounded_above [of "{..<n}" "\<lambda>i. 11 - rank (pcs s i)" 11] by simp
  moreover have "\<exists>t. map_step J reg E sub n s Tau t" if "\<not> (\<forall>i<n. pcs s i = C_done)"
    using ok that map_phase_progress [of n s] by (auto simp: map_ok_def)
  moreover have "ms s = run_tasks J reg E sub [0..<n] st" if all: "\<forall>i<n. pcs s i = C_done"
  proof -
    have "ms s = snapshot (sub_outcome J reg E sub st) n st (\<lambda>i. stage (pcs s i))" using ok by (simp add: map_ok_def data_ok_def)
    also have "\<dots> = snapshot (sub_outcome J reg E sub st) n st (\<lambda>i. if i < n then 5 else 0)" using all by (intro snapshot_cong) simp
    finally show ?thesis by (simp add: run_tasks_snapshot [OF assms(1,2) order_refl])
  qed
  ultimately show ?thesis
    using wait_all_sequential [OF assms(2)] map_step_remaining by auto
qed

definition two_tasks :: mr_state where
  "two_tasks = \<lparr>mr_tasks = [\<lparr>st_id = 1, st_description = ''a'', st_result = [], st_success = False\<rparr>,
      \<lparr>st_id = 2, st_description = ''b'', st_result = [], st_success = False\<rparr>],
     mr_session = small_session, mr_result = workflow_result_new, mr_futures = Map.empty\<rparr>"

theorem map_phase_interleavings_witness:
  "\<exists>s. reachable (map_init two_tasks) (map_step plain_json echo_registry small_env (\<lambda>_. small_env) 2) s \<and>
     ms s = run_tasks plain_json echo_registry small_env (\<lambda>_. small_env) [0..<2] two_tasks \<and>
     map st_success (mr_tasks (ms s)) = [True, True]"
proof -
  have st: "length (mr_tasks two_tasks) = 2" "mr_futures two_tasks = Map.empty" by (simp_all add: two_tasks_def)
  have "reachable (map_init two_tasks) (map_step plain_json echo_registry small_env (\<lambda>_. small_env) 2)
      \<lparr>ms = two_tasks, mutex = None, pcs = (\<lambda>_. C_start)\<rparr>" by (rule reach_init) (simp add: map_init_def)
  from map_phase_completes [OF st this] obtain s where
    s: "reachable (map_init two_tasks) (map_step plain_json echo_registry small_env (\<lambda>_. small_env) 2) s" "\<forall>i<2. pcs s i = C_done" by blast
  have r: "map st_success (mr_tasks (run_tasks plain_json echo_registry small_env (\<lambda>_. small_env) [0..<2] two_tasks)) = [True, True]" by code_simp
  from map_phase_interleavings [OF st s(1)] s(2) have "ms s = run_tasks plain_json echo_registry small_env (\<lambda>_. small_env) [0..<2] two_tasks" by simp
  with s(1) r show ?thesis by metis
qed

end
