(* ===== verification/Session_Manager.thy ===== *)
theory Session_Manager
  imports Workflows Concurrent_Map
begin

section \<open>The session manager (src/src/session/session_manager.h, session_manager.cpp)\<close>

text \<open>
  The manager keeps its sessions behind shared pointers in the striped map. The model has a store of the session
  objects (a pointer is an index into it; the objects the counting of references frees are left in the store), the map from identifiers to pointers, the futures of
  the dispatched workflows with the list \<open>inflight\<close>, and the closures handed to the thread pool that have not
  run yet. Identifiers are natural numbers: the 64-bit counter of the code does not come round. The clock and
  what a workflow meets are arguments.
\<close>

subsection \<open>State\<close>

record create_request =
  cr_prompt :: string
  system_message :: string
  cr_workflow :: string
  cr_tools :: "string list"
  cr_config :: session_config

record session_info =
  si_id :: nat
  si_state :: session_state
  si_step_count :: "32 word"
  si_final_answer :: string
  si_error :: string

record sm =
  max_sessions :: nat
  next_id :: nat
  sessions :: "(nat, addr) cmap"
  store :: "session list"
  futures :: "unit shared_state list"
  inflight :: "nat list"
  dispatched :: "(nat \<times> addr \<times> string) list"

definition sm_new :: "nat \<Rightarrow> nat \<Rightarrow> sm" where
  "sm_new stripes n =
     \<lparr>max_sessions = n, next_id = 1, sessions = cm_new stripes, store = [], futures = [], inflight = [], dispatched = []\<rparr>"

subsection \<open>Operations\<close>

text \<open>The session of a request, with its first messages.\<close>

definition new_session :: "nat \<Rightarrow> create_request \<Rightarrow> int \<Rightarrow> session" where
  "new_session i req now =
     (let s0 = (session_new i (cr_config req) now)\<lparr>initial_prompt := cr_prompt req, s_state := CREATED\<rparr>;
          s1 = (if system_message req \<noteq> [] then push_history (plain_message ''system'' (system_message req)) s0 else s0)
      in push_history (plain_message ''user'' (cr_prompt req)) s1)"

text \<open>\<open>pool_.submit\<close> of the workflow, and the bookkeeping of its future.\<close>

definition dispatch_workflow :: "addr \<Rightarrow> string \<Rightarrow> sm \<Rightarrow> sm" where
  "dispatch_workflow a name m =
     (let f = length (futures m)
      in m\<lparr>futures := futures m @ [ss_new],
           dispatched := dispatched m @ [(f, a, name)],
           inflight := filter (\<lambda>g. \<not> fut_ready (Some (futures m ! g))) (inflight m) @ [f]\<rparr>)"

definition create_session ::
  "(nat \<Rightarrow> nat) \<Rightarrow> 'j factory \<Rightarrow> create_request \<Rightarrow> int \<Rightarrow> sm \<Rightarrow> (nat + string) \<times> sm" where
  "create_session hash fac req now m =
     (if \<not> has_workflow fac (cr_workflow req) then (Inr (''Unknown workflow: '' @ cr_workflow req), m)
      else
        let i = next_id m; a = length (store m);
            m1 = m\<lparr>next_id := i + 1, store := store m @ [new_session i req now]\<rparr>;
            (ok, ss) = insert_if_under hash i a (max_sessions m) (sessions m1)
        in if \<not> ok then (Inr (''At capacity ('' @ to_string_nat (max_sessions m) @ '' sessions)''), m1)
           else (Inl i, dispatch_workflow a (cr_workflow req) (m1\<lparr>sessions := ss\<rparr>)))"

definition session_info_of :: "session \<Rightarrow> session_info" where
  "session_info_of s =
     \<lparr>si_id = s_id s, si_state = s_state s, si_step_count = step_count s, si_final_answer = final_answer s,
      si_error = s_error s\<rparr>"

definition get_session :: "(nat \<Rightarrow> nat) \<Rightarrow> nat \<Rightarrow> sm \<Rightarrow> session_info option" where
  "get_session hash i m = with_value hash i (\<lambda>a. session_info_of (store m ! a)) (sessions m)"

text \<open>The callback of \<open>mutate\<close> writes through the pointer and leaves the pointer as it is.\<close>

definition cancel_session :: "(nat \<Rightarrow> nat) \<Rightarrow> nat \<Rightarrow> sm \<Rightarrow> bool \<times> sm" where
  "cancel_session hash i m =
     (let (found, ss) = cm_mutate hash i (\<lambda>a. a) (sessions m)
      in (found, m\<lparr>sessions := ss,
           store := (case cm_find hash (sessions m) i of
              None \<Rightarrow> store m
            | Some a \<Rightarrow> (store m)[a := (store m ! a)\<lparr>cancel_requested := True\<rparr>])\<rparr>))"

definition list_sessions :: "sm \<Rightarrow> nat list" where
  "list_sessions m = cm_keys (sessions m)"

text \<open>Times are in nanoseconds; the age is cast to whole seconds, which truncates.\<close>

definition whole_seconds :: "int \<Rightarrow> int" where
  "whole_seconds ns = (if ns < 0 then - (- ns div 1000000000) else ns div 1000000000)"

definition reapable :: "int \<Rightarrow> int \<Rightarrow> session \<Rightarrow> bool" where
  "reapable now max_age s \<longleftrightarrow> is_terminal s \<and> whole_seconds (now - created_at s) \<ge> max_age"

definition should_erase :: "(nat \<Rightarrow> nat) \<Rightarrow> int \<Rightarrow> int \<Rightarrow> session list \<Rightarrow> nat \<Rightarrow> (nat, addr) cmap \<Rightarrow> bool" where
  "should_erase hash now max_age st i ss \<longleftrightarrow> with_value hash i (\<lambda>a. reapable now max_age (st ! a)) ss = Some True"

definition sm_gc :: "(nat \<Rightarrow> nat) \<Rightarrow> int \<Rightarrow> int \<Rightarrow> sm \<Rightarrow> nat \<times> sm" where
  "sm_gc hash now max_age m =
     (let (reaped, ss) =
        fold (\<lambda>i (n, ss). if should_erase hash now max_age (store m) i ss then (n + 1, snd (cm_erase hash i ss)) else (n, ss))
          (cm_keys (sessions m)) (0, sessions m)
      in (reaped, m\<lparr>sessions := ss\<rparr>))"

definition active_count :: "sm \<Rightarrow> nat" where
  "active_count m = cm_size (sessions m)"

text \<open>The closure that the pool runs for a dispatched workflow: the \<open>k\<close>-th of the waiting ones.\<close>

definition complete_future :: "exn + workflow_result \<Rightarrow> unit shared_state \<Rightarrow> unit shared_state" where
  "complete_future r st = (case r of Inl e \<Rightarrow> snd (set_exception_void e st) | Inr w \<Rightarrow> snd (set_value_void st))"

definition run_dispatched :: "'j factory \<Rightarrow> 'j registry \<Rightarrow> 'j wf_env \<Rightarrow> nat \<Rightarrow> sm \<Rightarrow> sm" where
  "run_dispatched fac reg W k m =
     (let (f, a, name) = dispatched m ! k;
          s0 = (store m ! a)\<lparr>s_state := WAITING_FOR_LLM\<rparr>;
          (s1, r) = (case create_workflow fac name of Inl e \<Rightarrow> (s0, Inl e) | Inr ctor \<Rightarrow> ctor reg W s0)
      in m\<lparr>store := (store m)[a := s1], futures := (futures m)[f := complete_future r (futures m ! f)],
           dispatched := take k (dispatched m) @ drop (Suc k) (dispatched m)\<rparr>)"

text \<open>
  The destructor waits for the futures in turn: \<open>None\<close> while one is not ready, \<open>Some (Inl e)\<close> when \<open>get\<close> rethrows.
\<close>

fun get_futures :: "unit shared_state list \<Rightarrow> (exn + unit) option" where
  "get_futures [] = Some (Inr ())"
| "get_futures (st # sts) =
     (case get_void [st] of None \<Rightarrow> None | Some (Inl e) \<Rightarrow> Some (Inl e) | Some (Inr u) \<Rightarrow> get_futures sts)"

definition sm_destroy :: "sm \<Rightarrow> (exn + unit) option" where
  "sm_destroy m = get_futures (map ((!) (futures m)) (inflight m))"

subsection \<open>Runs of the manager\<close>

datatype 'j sm_op =
  Create create_request int
| Cancel nat
| Gc int int
| Run "'j wf_env" nat

definition sm_exec :: "(nat \<Rightarrow> nat) \<Rightarrow> 'j factory \<Rightarrow> 'j registry \<Rightarrow> 'j sm_op \<Rightarrow> sm \<Rightarrow> sm" where
  "sm_exec hash fac reg op m =
     (case op of
        Create req now \<Rightarrow> snd (create_session hash fac req now m)
      | Cancel i \<Rightarrow> snd (cancel_session hash i m)
      | Gc now max_age \<Rightarrow> snd (sm_gc hash now max_age m)
      | Run W k \<Rightarrow> if k < length (dispatched m) then run_dispatched fac reg W k m else m)"

text \<open>
  The invariant: a session is found under its own identifier, identifiers in use are below the counter, and the
  number of sessions respects the bound; a dispatched workflow has a session that was not started and a future that is not ready.
\<close>

definition sessions_ok :: "(nat \<Rightarrow> nat) \<Rightarrow> sm \<Rightarrow> bool" where
  "sessions_ok hash m \<longleftrightarrow> cm_inv hash (sessions m) \<and> cm_size (sessions m) \<le> max_sessions m \<and>
     (\<forall>i a. cm_find hash (sessions m) i = Some a \<longrightarrow> a < length (store m) \<and> s_id (store m ! a) = i \<and> i < next_id m)"

definition entry_ok :: "sm \<Rightarrow> nat \<times> addr \<times> string \<Rightarrow> bool" where
  "entry_ok m = (\<lambda>(f, a, name). f < length (futures m) \<and> futures m ! f = ss_new \<and> f \<in> set (inflight m) \<and>
     a < length (store m) \<and> s_state (store m ! a) = CREATED)"

definition dispatched_ok :: "sm \<Rightarrow> bool" where
  "dispatched_ok m \<longleftrightarrow>
     distinct (map fst (dispatched m)) \<and> distinct (map (fst \<circ> snd) (dispatched m)) \<and>
     list_all (entry_ok m) (dispatched m) \<and>
     (\<forall>f < length (futures m). (\<exists>r. futures m ! f = complete_future r ss_new) \<or> f \<in> fst ` set (dispatched m)) \<and>
     (\<forall>f \<in> set (inflight m). f < length (futures m))"

lemma cm_find_new [simp]: "0 < n \<Longrightarrow> cm_find hash (cm_new n) k = None"
  by (simp add: cm_find_def cm_new_def stripe_of_def)

lemma sm_new_ok: "0 < stripes \<Longrightarrow> sessions_ok hash (sm_new stripes n) \<and> dispatched_ok (sm_new stripes n)"
  by (simp add: sessions_ok_def dispatched_ok_def sm_new_def cm_inv_new)

lemma new_session_simps [simp]:
  "s_id (new_session i req now) = i" "s_state (new_session i req now) = CREATED"
  "step_count (new_session i req now) = 0" "created_at (new_session i req now) = now"
  "final_answer (new_session i req now) = []" "s_error (new_session i req now) = []"
  "cancel_requested (new_session i req now) = False"
  by (simp_all add: new_session_def session_new_def Let_def)

text \<open>An update of a session object keeps the map's invariant when it keeps the identifier.\<close>

lemma sessions_ok_store:
  assumes "sessions_ok hash m" and "s_id s' = s_id (store m ! a)"
  shows "sessions_ok hash (m\<lparr>store := (store m)[a := s']\<rparr>)"
proof -
  have "s_id ((store m)[a := s'] ! b) = s_id (store m ! b)" for b
    using assms(2) by (cases "a = b"; cases "a < length (store m)") (simp_all add: list_update_beyond)
  with assms(1) show ?thesis by (simp add: sessions_ok_def)
qed

lemma create_result:
  assumes "sessions_ok hash m"
  shows "create_session hash fac req now m =
    (if \<not> has_workflow fac (cr_workflow req) then (Inr (''Unknown workflow: '' @ cr_workflow req), m)
     else let m1 = m\<lparr>next_id := next_id m + 1, store := store m @ [new_session (next_id m) req now]\<rparr>
       in if max_sessions m \<le> cm_size (sessions m)
          then (Inr (''At capacity ('' @ to_string_nat (max_sessions m) @ '' sessions)''), m1)
          else (Inl (next_id m), dispatch_workflow (length (store m)) (cr_workflow req)
                 (m1\<lparr>sessions := snd (insert_if_under hash (next_id m) (length (store m)) (max_sessions m) (sessions m))\<rparr>)))"
  by (auto simp: create_session_def insert_if_under_def Let_def)

lemma create_sessions_ok:
  assumes "sessions_ok hash m"
  shows "sessions_ok hash (snd (create_session hash fac req now m))"
proof -
  let ?ss = "snd (insert_if_under hash (next_id m) (length (store m)) (max_sessions m) (sessions m))"
  have inv: "cm_inv hash (sessions m)" using assms by (simp add: sessions_ok_def)
  note ins = cm.insert_law [OF inv, of "next_id m" "length (store m)" "max_sessions m"]
  have nw: "cm_find hash (sessions m) (next_id m) = None"
    using assms by (cases "cm_find hash (sessions m) (next_id m)") (auto simp: sessions_ok_def)
  have "cm_size ?ss = cm_size (sessions m) + 1" if "cm_size (sessions m) < max_sessions m"
  proof -
    have f: "cm_find hash ?ss = (cm_find hash (sessions m))(next_id m \<mapsto> length (store m))" using ins that by blast
    have "cm_size ?ss = card (dom (cm_find hash ?ss))" using ins by (intro cm.size_law) blast
    also have "\<dots> = cm_size (sessions m) + 1"
      unfolding f using cm.size_law [OF inv] cm.dom_finite [OF inv] nw by (simp add: card_insert_if domIff)
    finally show ?thesis .
  qed
  with assms ins show ?thesis
    unfolding create_result [OF assms]
    by (auto simp: Let_def sessions_ok_def dispatch_workflow_def nth_append less_Suc_eq not_le split: if_splits)
qed

lemma cancel_sessions_ok:
  assumes "sessions_ok hash m"
  shows "sessions_ok hash (snd (cancel_session hash i m))"
proof -
  have inv: "cm_inv hash (sessions m)" using assms by (simp add: sessions_ok_def)
  let ?ss = "snd (cm_mutate hash i (\<lambda>a. a) (sessions m))"
  have mut: "cm_inv hash ?ss" "cm_find hash ?ss = cm_find hash (sessions m)"
    using cm.mutate_law [OF inv, of i "\<lambda>a. a"] by (auto simp: option.map_ident)
  have "cm_size ?ss = cm_size (sessions m)" using cm.size_law [OF mut(1)] cm.size_law [OF inv] by (simp add: mut(2))
  with assms mut have "sessions_ok hash (m\<lparr>sessions := ?ss\<rparr>)" by (simp add: sessions_ok_def)
  then show ?thesis
    by (auto simp: cancel_session_def Let_def split_def split: option.splits
        dest: sessions_ok_store [of hash "m\<lparr>sessions := ?ss\<rparr>" "(store m ! a)\<lparr>cancel_requested := True\<rparr>" a for a])
qed

lemma gc_result:
  fixes now max_age :: int
  assumes "cm_inv hash (sessions m)"
  defines "old \<equiv> \<lambda>i. \<exists>a. cm_find hash (sessions m) i = Some a \<and> reapable now max_age (store m ! a)"
  shows "fst (sm_gc hash now max_age m) = card {i. old i}"
    and "cm_inv hash (sessions (snd (sm_gc hash now max_age m)))"
    and "cm_find hash (sessions (snd (sm_gc hash now max_age m))) = (\<lambda>i. if old i then None else cm_find hash (sessions m) i)"
    and "\<exists>ss. snd (sm_gc hash now max_age m) = m\<lparr>sessions := ss\<rparr>"
proof -
  have sel: "should_erase hash now max_age (store m) k ss \<longleftrightarrow> (\<exists>a. cm_find hash ss k = Some a \<and> reapable now max_age (store m ! a))" for k ss
    by (auto simp: should_erase_def with_value_def)
  have keys: "distinct (cm_keys (sessions m))" "set (cm_keys (sessions m)) = dom (cm_find hash (sessions m))"
    using cm.keys_law [OF assms(1)] by auto
  note loop = cm.erase_loop [OF assms(1) keys(1) sel, of 0]
  have mem: "k \<in> set (cm_keys (sessions m)) \<and> old k \<longleftrightarrow> old k" for k unfolding keys(2) old_def by blast
  have set: "{k \<in> set (cm_keys (sessions m)). old k} = {i. old i}" using mem by blast
  have fold_old: "(\<exists>a. cm_find hash (sessions m) k = Some a \<and> reapable now max_age (store m ! a)) \<longleftrightarrow> old k" for k
    by (simp add: old_def)
  note loop' = loop [unfolded fold_old mem set]
  show "fst (sm_gc hash now max_age m) = card {i. old i}" using loop' by (simp add: sm_gc_def split_def)
  show "cm_inv hash (sessions (snd (sm_gc hash now max_age m)))" using loop' by (simp add: sm_gc_def split_def)
  show "cm_find hash (sessions (snd (sm_gc hash now max_age m))) = (\<lambda>i. if old i then None else cm_find hash (sessions m) i)"
    using loop' by (simp add: sm_gc_def split_def)
  show "\<exists>ss. snd (sm_gc hash now max_age m) = m\<lparr>sessions := ss\<rparr>" by (auto simp: sm_gc_def split_def Let_def)
qed

lemma gc_sessions_ok:
  assumes "sessions_ok hash m"
  shows "sessions_ok hash (snd (sm_gc hash now max_age m))"
proof -
  have inv: "cm_inv hash (sessions m)" using assms by (simp add: sessions_ok_def)
  note gc = gc_result [OF inv, of now max_age]
  obtain ss where ss: "snd (sm_gc hash now max_age m) = m\<lparr>sessions := ss\<rparr>" using gc(4) by blast
  have inv': "cm_inv hash ss" using gc(2) by (simp add: ss)
  have sub: "cm_find hash ss i = Some a \<Longrightarrow> cm_find hash (sessions m) i = Some a" for i a
    using gc(3) by (auto simp: ss split: if_splits)
  then have "dom (cm_find hash ss) \<subseteq> dom (cm_find hash (sessions m))" by auto
  then have "cm_size ss \<le> cm_size (sessions m)"
    unfolding cm.size_law [OF inv] cm.size_law [OF inv'] by (rule card_mono [OF cm.dom_finite [OF inv]])
  then show ?thesis using assms sub inv' by (auto simp: ss sessions_ok_def)
qed

text \<open>The closure of a dispatched workflow, on a factory whose workflows keep their contract.\<close>

definition workflows_ok :: "'j factory \<Rightarrow> bool" where
  "workflows_ok fac \<longleftrightarrow> (\<forall>name ctor reg W. create_workflow fac name = Inr ctor \<longrightarrow> workflow (ctor reg W))"

lemma main_factory_ok: "workflows_ok (main_factory J)"
  unfolding workflows_ok_def using main_factory_workflow by blast

definition outcome :: "'j factory \<Rightarrow> 'j registry \<Rightarrow> 'j wf_env \<Rightarrow> string \<Rightarrow> session \<Rightarrow> session \<times> (exn + workflow_result)" where
  "outcome fac reg W name s =
     (let s0 = s\<lparr>s_state := WAITING_FOR_LLM\<rparr>
      in case create_workflow fac name of Inl e \<Rightarrow> (s0, Inl e) | Inr ctor \<Rightarrow> ctor reg W s0)"

lemma outcome_contract:
  assumes "workflows_ok fac" and "outcome fac reg W name s = (s', r)"
  shows "s_id s' = s_id s \<and> created_at s' = created_at s \<and> (is_terminal s' \<longleftrightarrow> \<not> isl r)"
proof (cases "create_workflow fac name")
  case (Inl e)
  with assms(2) show ?thesis by (auto simp: outcome_def Let_def is_terminal_def)
next
  case (Inr ctor)
  have wf: "workflow (ctor reg W)" using assms(1) Inr by (simp add: workflows_ok_def)
  have nt: "\<not> is_terminal (s\<lparr>s_state := WAITING_FOR_LLM\<rparr>)" by (simp add: is_terminal_def)
  have "ctor reg W (s\<lparr>s_state := WAITING_FOR_LLM\<rparr>) = (s', r)" using assms(2) Inr by (simp add: outcome_def)
  from workflow.terminal_iff_returned [OF wf nt this] workflow.run_keeps_law [OF wf nt this] show ?thesis by simp
qed

lemma run_dispatched_outcome:
  assumes "dispatched m ! k = (f, a, name)" and "outcome fac reg W name (store m ! a) = (s', r)"
  shows "run_dispatched fac reg W k m =
    m\<lparr>store := (store m)[a := s'], futures := (futures m)[f := complete_future r (futures m ! f)],
      dispatched := take k (dispatched m) @ drop (Suc k) (dispatched m)\<rparr>"
  using assms by (simp add: run_dispatched_def outcome_def Let_def)

lemma run_sessions_ok:
  assumes "sessions_ok hash m" and "workflows_ok fac"
  shows "sessions_ok hash (run_dispatched fac reg W k m)"
proof -
  obtain f a name where d: "dispatched m ! k = (f, a, name)" by (cases "dispatched m ! k") auto
  obtain s' r where o: "outcome fac reg W name (store m ! a) = (s', r)" by fastforce
  have "sessions_ok hash (m\<lparr>store := (store m)[a := s']\<rparr>)"
    using outcome_contract [OF assms(2) o] by (intro sessions_ok_store assms(1)) simp
  then show ?thesis unfolding run_dispatched_outcome [OF d o] by (simp add: sessions_ok_def)
qed

lemma ss_new_not_ready [simp]: "\<not> ss_ready ss_new" "ss_exception ss_new = None"
  by (simp_all add: ss_new_def)

lemma complete_future_poll: "poll (complete_future r ss_new) = Some (case r of Inl e \<Rightarrow> Inl e | Inr w \<Rightarrow> Inr ())"
  by (simp add: complete_future_def set_value_void_def set_exception_void_def set_value_def set_exception_def ss_exchange_def
      ss_new_def poll_def split: sum.splits)

lemma dispatch_ok:
  assumes "dispatched_ok m" and "s_state s = CREATED"
  shows "dispatched_ok (dispatch_workflow (length (store m)) name (m\<lparr>next_id := i, store := store m @ [s], sessions := ss\<rparr>))"
    (is "dispatched_ok ?m")
proof -
  have d: "\<And>f a n. (f, a, n) \<in> set (dispatched m) \<Longrightarrow> entry_ok m (f, a, n)"
    using assms(1) by (auto simp: dispatched_ok_def list_all_iff)
  have new: "length (futures m) \<notin> fst ` set (dispatched m)" "length (store m) \<notin> (fst \<circ> snd) ` set (dispatched m)"
    using d by (fastforce simp: entry_ok_def)+
  have "entry_ok ?m (f, a, n)" if "(f, a, n) \<in> set (dispatched m)" for f a n
    using d [OF that] by (auto simp: entry_ok_def dispatch_workflow_def Let_def nth_append fut_ready_def)
  moreover have "entry_ok ?m (length (futures m), length (store m), name)"
    using assms(2) by (simp add: entry_ok_def dispatch_workflow_def Let_def)
  ultimately have "list_all (entry_ok ?m) (dispatched ?m)"
    by (auto simp: list_all_iff) (auto simp: dispatch_workflow_def Let_def)
  with assms(1) new show ?thesis
    by (auto simp: dispatched_ok_def dispatch_workflow_def Let_def nth_append less_Suc_eq)
qed

lemma grow_store_ok:
  "dispatched_ok m \<Longrightarrow> dispatched_ok (m\<lparr>next_id := i, store := store m @ [s]\<rparr>)"
  by (auto simp: dispatched_ok_def list_all_iff entry_ok_def nth_append)

lemma create_dispatched_ok:
  assumes "dispatched_ok m"
  shows "dispatched_ok (snd (create_session hash fac req now m))"
  using assms dispatch_ok [OF assms, where s = "new_session (next_id m) req now" and name = "cr_workflow req" and i = "next_id m + 1"]
  by (auto simp: create_session_def Let_def grow_store_ok split: prod.splits)

lemma dispatched_ok_frame:
  assumes "dispatched_ok m" and "length st = length (store m)"
    and "\<And>a. s_state (store m ! a) = CREATED \<Longrightarrow> s_state (st ! a) = CREATED"
  shows "dispatched_ok (m\<lparr>sessions := ss, store := st\<rparr>)"
  using assms by (auto simp: dispatched_ok_def list_all_iff entry_ok_def)

lemma cancel_dispatched_ok:
  assumes "dispatched_ok m"
  shows "dispatched_ok (snd (cancel_session hash i m))"
proof -
  have "dispatched_ok (m\<lparr>sessions := ss, store := (store m)[a := (store m ! a)\<lparr>cancel_requested := True\<rparr>]\<rparr>)" for ss a
  proof (rule dispatched_ok_frame [OF assms])
    fix b
    show "s_state ((store m)[a := (store m ! a)\<lparr>cancel_requested := True\<rparr>] ! b) = CREATED" if "s_state (store m ! b) = CREATED"
      using that by (cases "a = b"; cases "a < length (store m)") (simp_all add: list_update_beyond)
  qed simp
  moreover have "dispatched_ok (m\<lparr>sessions := ss\<rparr>)" for ss using dispatched_ok_frame [OF assms, of "store m" ss] by simp
  ultimately show ?thesis by (simp add: cancel_session_def Let_def split_def split: option.splits)
qed

lemma gc_dispatched_ok: "dispatched_ok m \<Longrightarrow> dispatched_ok (snd (sm_gc hash now max_age m))"
  by (simp add: sm_gc_def Let_def split_def dispatched_ok_def list_all_iff entry_ok_def)

lemma run_dispatched_ok:
  assumes "dispatched_ok m" and "k < length (dispatched m)"
  shows "dispatched_ok (run_dispatched fac reg W k m)"
proof -
  obtain f a name where d: "dispatched m ! k = (f, a, name)" by (cases "dispatched m ! k") auto
  obtain s' r where o: "outcome fac reg W name (store m ! a) = (s', r)" by fastforce
  define xs ys where xy: "xs = take k (dispatched m)" "ys = drop (Suc k) (dispatched m)"
  have ds: "dispatched m = xs @ (f, a, name) # ys" using d assms(2) unfolding xy by (metis id_take_nth_drop)
  have e: "list_all (entry_ok m) (xs @ (f, a, name) # ys)" "distinct (map fst (xs @ (f, a, name) # ys))"
    "distinct (map (fst \<circ> snd) (xs @ (f, a, name) # ys))"
    using assms(1) unfolding dispatched_ok_def by (simp_all only: ds [symmetric])
  have fl: "f < length (futures m)" using e(1) by (simp add: entry_ok_def)
  have out: "f \<notin> fst ` set (xs @ ys)" "a \<notin> (fst \<circ> snd) ` set (xs @ ys)" using e(2,3) by auto
  have ne: "g \<noteq> f \<and> b \<noteq> a" if "(g, b, n) \<in> set (xs @ ys)" for g b n
    using out imageI [OF that, of fst] imageI [OF that, of "fst \<circ> snd"] by (metis comp_apply fst_conv snd_conv)
  have "entry_ok (run_dispatched fac reg W k m) (g, b, n)" if "(g, b, n) \<in> set (xs @ ys)" for g b n
  proof -
    have "entry_ok m (g, b, n)" using e(1) that by (auto simp: list_all_iff)
    with ne [OF that] show ?thesis unfolding run_dispatched_outcome [OF d o] by (simp add: entry_ok_def)
  qed
  then have "list_all (entry_ok (run_dispatched fac reg W k m)) (xs @ ys)" by (auto simp: list_all_iff)
  moreover have "(\<exists>r'. (futures m)[f := complete_future r (futures m ! f)] ! g = complete_future r' ss_new) \<or> g \<in> fst ` set (xs @ ys)"
    if "g < length (futures m)" for g
  proof (cases "g = f")
    case True
    with e(1) show ?thesis by (auto simp: entry_ok_def)
  next
    case False
    have "(\<exists>r'. futures m ! g = complete_future r' ss_new) \<or> g \<in> fst ` set (dispatched m)" using assms(1) that by (simp add: dispatched_ok_def)
    with False show ?thesis by (subst (asm) ds) auto
  qed
  ultimately show ?thesis
    using e(2,3) assms(1) unfolding dispatched_ok_def run_dispatched_outcome [OF d o] xy [symmetric] by simp
qed

lemma sm_exec_ok:
  assumes "sessions_ok hash m" and "dispatched_ok m" and "workflows_ok fac"
  shows "sessions_ok hash (sm_exec hash fac reg op m) \<and> dispatched_ok (sm_exec hash fac reg op m)"
  using assms
  by (cases op) (simp_all add: sm_exec_def create_sessions_ok create_dispatched_ok cancel_sessions_ok cancel_dispatched_ok
      gc_sessions_ok gc_dispatched_ok run_sessions_ok run_dispatched_ok)

definition sm_run :: "(nat \<Rightarrow> nat) \<Rightarrow> 'j factory \<Rightarrow> 'j registry \<Rightarrow> 'j sm_op list \<Rightarrow> sm \<Rightarrow> sm" where
  "sm_run hash fac reg ops = fold (sm_exec hash fac reg) ops"

lemma sm_run_ok:
  "sessions_ok hash m \<Longrightarrow> dispatched_ok m \<Longrightarrow> workflows_ok fac \<Longrightarrow>
     sessions_ok hash (sm_run hash fac reg ops m) \<and> dispatched_ok (sm_run hash fac reg ops m)"
  unfolding sm_run_def by (induction ops arbitrary: m) (auto dest: sm_exec_ok)

lemma max_sessions_exec: "max_sessions (sm_exec hash fac reg op m) = max_sessions m"
proof (cases op)
  case (Run W k)
  obtain f a name where d: "dispatched m ! k = (f, a, name)" by (cases "dispatched m ! k") auto
  obtain s' r where o: "outcome fac reg W name (store m ! a) = (s', r)" by fastforce
  show ?thesis using Run by (simp add: sm_exec_def run_dispatched_outcome [OF d o])
qed (auto simp: sm_exec_def create_session_def cancel_session_def sm_gc_def dispatch_workflow_def Let_def split: prod.splits)

lemma sm_run_reach:
  assumes "0 < stripes" and m: "m = sm_run hash (main_factory J) reg ops (sm_new stripes n)"
  shows "sessions_ok hash m" and "dispatched_ok m" and "max_sessions m = n"
proof -
  show "sessions_ok hash m" "dispatched_ok m"
    unfolding m using sm_run_ok [OF _ _ main_factory_ok] sm_new_ok [OF assms(1)] by blast+
  have "max_sessions (fold (sm_exec hash (main_factory J) reg) ops m0) = max_sessions m0" for m0
    by (induction ops arbitrary: m0) (simp_all add: max_sessions_exec)
  then show "max_sessions m = n" by (simp add: m sm_run_def sm_new_def)
qed

lemma get_session_find: "get_session hash i m = map_option (\<lambda>a. session_info_of (store m ! a)) (cm_find hash (sessions m) i)"
  by (simp add: get_session_def with_value_def)

text \<open>
  What creating a session does, in every reachable state: an unknown workflow changes nothing and is reported; at capacity no session is added and the bound is reported; otherwise
  the answer is a new identifier whose session is in the state \<open>created\<close> with no step taken, every other session is as it was, and one more workflow is dispatched.
\<close>

lemma create_outcomes:
  assumes "0 < stripes" and "m = sm_run hash (main_factory J) reg ops (sm_new stripes n)"
    and "create_session hash (main_factory J) req now m = (r, m')"
  shows "if cr_workflow req \<notin> {''react'', ''plan-execute'', ''map-reduce''} then
      m' = m \<and> r = Inr (''Unknown workflow: '' @ cr_workflow req)
    else if active_count m \<ge> n then
      (\<forall>i. get_session hash i m' = get_session hash i m) \<and> dispatched m' = dispatched m \<and>
      r = Inr (''At capacity ('' @ to_string_nat n @ '' sessions)'')
    else
      r = Inl (next_id m) \<and> get_session hash (next_id m) m = None \<and> length (dispatched m') = length (dispatched m) + 1 \<and>
      (\<forall>i. get_session hash i m' =
         (if i = next_id m then Some \<lparr>si_id = next_id m, si_state = CREATED, si_step_count = 0, si_final_answer = [], si_error = []\<rparr>
          else get_session hash i m))"
proof -
  have ok: "sessions_ok hash m" "max_sessions m = n" by (rule sm_run_reach [OF assms(1,2)])+
  then have inv: "cm_inv hash (sessions m)" by (simp add: sessions_ok_def)
  have alloc: "a < length (store m)" "i < next_id m" if "cm_find hash (sessions m) i = Some a" for i a
    using ok(1) that by (auto simp: sessions_ok_def)
  have has: "has_workflow (main_factory J) w \<longleftrightarrow> w \<in> {''react'', ''plan-execute'', ''map-reduce''}" for w
    by (auto simp: has_workflow_def main_factory_lookup)
  have nw: "cm_find hash (sessions m) (next_id m) = None" using alloc(2) [of "next_id m"] by (cases "cm_find hash (sessions m) (next_id m)") auto
  have grown: "map_option (\<lambda>a. session_info_of ((store m @ [s]) ! a)) (cm_find hash (sessions m) i) = get_session hash i m" for i s
    using alloc by (cases "cm_find hash (sessions m) i") (auto simp: get_session_find nth_append)
  show ?thesis
  proof (cases "cr_workflow req \<in> {''react'', ''plan-execute'', ''map-reduce''}")
    case False
    with assms(3) show ?thesis by (auto simp: create_session_def has)
  next
    case wf: True
    show ?thesis
    proof (cases "active_count m \<ge> n")
      case True
      then have "r = Inr (''At capacity ('' @ to_string_nat n @ '' sessions)'')"
          "m' = m\<lparr>next_id := next_id m + 1, store := store m @ [new_session (next_id m) req now]\<rparr>"
        using assms(3) wf ok(2) unfolding create_result [OF ok(1)] has by (auto simp: Let_def active_count_def)
      with True wf grown show ?thesis by (simp add: get_session_find)
    next
      case False
      let ?ss = "snd (insert_if_under hash (next_id m) (length (store m)) n (sessions m))"
      have r: "r = Inl (next_id m)" and m': "m' = dispatch_workflow (length (store m)) (cr_workflow req)
          (m\<lparr>next_id := next_id m + 1, store := store m @ [new_session (next_id m) req now], sessions := ?ss\<rparr>)"
        using assms(3) wf ok(2) False unfolding create_result [OF ok(1)] has by (auto simp: Let_def active_count_def)
      have f: "cm_find hash ?ss = (cm_find hash (sessions m))(next_id m \<mapsto> length (store m))"
        using cm.insert_law [OF inv, of "next_id m" "length (store m)" n] False by (simp add: active_count_def)
      have m'': "sessions m' = ?ss" "store m' = store m @ [new_session (next_id m) req now]"
          "length (dispatched m') = length (dispatched m) + 1"
        by (simp_all add: m' dispatch_workflow_def Let_def)
      have "get_session hash i m' = (if i = next_id m then Some (session_info_of (new_session (next_id m) req now)) else get_session hash i m)" for i
        using grown [of "new_session (next_id m) req now" i] unfolding get_session_find [of hash i m'] m'' f by simp
      moreover have "get_session hash (next_id m) m = None" using nw by (simp add: get_session_find)
      ultimately show ?thesis using r wf False m''(3) by (simp add: session_info_of_def)
    qed
  qed
qed

lemma create_store:
  assumes "sessions_ok hash m" and "has_workflow fac (cr_workflow req)" and "cm_size (sessions m) < max_sessions m"
    and "create_session hash fac req now m = (r, m')"
  shows "r = Inl (next_id m)" and "store m' = store m @ [new_session (next_id m) req now]"
    and "cm_find hash (sessions m') (next_id m) = Some (length (store m))"
    and "dispatched m' = dispatched m @ [(length (futures m), length (store m), cr_workflow req)]"
proof -
  have inv: "cm_inv hash (sessions m)" using assms(1) by (simp add: sessions_ok_def)
  note ins = cm.insert_law [OF inv, of "next_id m" "length (store m)" "max_sessions m"]
  from assms(2-4) have r: "r = Inl (next_id m)" and m': "m' = dispatch_workflow (length (store m)) (cr_workflow req)
      (m\<lparr>next_id := next_id m + 1, store := store m @ [new_session (next_id m) req now],
         sessions := snd (insert_if_under hash (next_id m) (length (store m)) (max_sessions m) (sessions m))\<rparr>)"
    unfolding create_result [OF assms(1)] by (auto simp: Let_def)
  show "r = Inl (next_id m)" by (rule r)
  show "store m' = store m @ [new_session (next_id m) req now]" by (simp add: m' dispatch_workflow_def Let_def)
  show "cm_find hash (sessions m') (next_id m) = Some (length (store m))"
    using ins assms(3) by (simp add: m' dispatch_workflow_def Let_def)
  show "dispatched m' = dispatched m @ [(length (futures m), length (store m), cr_workflow req)]"
    by (simp add: m' dispatch_workflow_def Let_def)
qed

lemma cancel_store:
  assumes "cm_inv hash (sessions m)" and "cm_find hash (sessions m) i = Some a" and "cancel_session hash i m = (ok, m')"
  shows "ok" and "store m' = (store m)[a := (store m ! a)\<lparr>cancel_requested := True\<rparr>]"
    and "cm_find hash (sessions m') = cm_find hash (sessions m)" and "dispatched m' = dispatched m"
proof -
  have mut: "fst (cm_mutate hash i (\<lambda>a. a) (sessions m))" "cm_find hash (snd (cm_mutate hash i (\<lambda>a. a) (sessions m))) = cm_find hash (sessions m)"
    using cm.mutate_law [OF assms(1), of i "\<lambda>a. a"] assms(2) by (auto simp: option.map_ident)
  have c: "ok = fst (cm_mutate hash i (\<lambda>a. a) (sessions m))"
      "m' = m\<lparr>sessions := snd (cm_mutate hash i (\<lambda>a. a) (sessions m)), store := (store m)[a := (store m ! a)\<lparr>cancel_requested := True\<rparr>]\<rparr>"
    using assms(2,3) by (auto simp: cancel_session_def split_def Let_def)
  show "ok" using mut(1) by (simp add: c)
  show "store m' = (store m)[a := (store m ! a)\<lparr>cancel_requested := True\<rparr>]" "dispatched m' = dispatched m" by (simp_all add: c)
  show "cm_find hash (sessions m') = cm_find hash (sessions m)" using mut(2) by (simp add: c)
qed

lemma run_cancelled_session:
  assumes "cm_find hash (sessions m) i = Some a" and "a < length (store m)" and "dispatched m ! k = (f, a, ''react'')"
    and "cancel_requested (store m ! a)"
  shows "sessions (run_dispatched (main_factory J) reg W k m) = sessions m"
    and "store (run_dispatched (main_factory J) reg W k m) ! a =
      stop_with CANCELLED ''Cancelled by user'' ((store m ! a)\<lparr>s_state := WAITING_FOR_LLM\<rparr>)"
proof -
  obtain s' r where q: "outcome (main_factory J) reg W ''react'' (store m ! a) = (s', r)" by fastforce
  have "s' = stop_with CANCELLED ''Cancelled by user'' ((store m ! a)\<lparr>s_state := WAITING_FOR_LLM\<rparr>)"
    using arg_cong [OF q, of fst] assms(4)
    by (simp add: outcome_def create_workflow_def main_factory_lookup react_run_cancelled is_terminal_def)
  with assms(2) show "sessions (run_dispatched (main_factory J) reg W k m) = sessions m"
    "store (run_dispatched (main_factory J) reg W k m) ! a =
      stop_with CANCELLED ''Cancelled by user'' ((store m ! a)\<lparr>s_state := WAITING_FOR_LLM\<rparr>)"
    by (simp_all add: run_dispatched_outcome [OF assms(3) q])
qed

subsection \<open>Properties\<close>

text \<open>
  C11. After any sequence of creations, cancellations, collections and runs of dispatched workflows, the number of sessions is within the
  bound, the listed identifiers are distinct, below the counter of identifiers, and are exactly those that \<open>get_session\<close>
  finds, and each is found with its own identifier.
\<close>

theorem session_manager_invariant:
  assumes "0 < stripes" and "m = sm_run hash (main_factory J) reg ops (sm_new stripes n)"
  shows "active_count m \<le> n \<and> distinct (list_sessions m) \<and> length (list_sessions m) = active_count m \<and>
    (\<forall>i. i \<in> set (list_sessions m) \<longleftrightarrow> get_session hash i m \<noteq> None) \<and>
    (\<forall>i info. get_session hash i m = Some info \<longrightarrow> si_id info = i \<and> i < next_id m)"
proof -
  have ok: "sessions_ok hash m" "max_sessions m = n" by (rule sm_run_reach [OF assms(1,2)])+
  then have inv: "cm_inv hash (sessions m)" by (simp add: sessions_ok_def)
  note k = cm.keys_law [OF inv]
  have "length (cm_keys (sessions m)) = cm_size (sessions m)" using k cm.size_law [OF inv] by (metis distinct_card)
  moreover have "si_id info = i \<and> i < next_id m" if "get_session hash i m = Some info" for i info
    using ok(1) that by (auto simp: get_session_find sessions_ok_def session_info_of_def)
  moreover have "i \<in> set (cm_keys (sessions m)) \<longleftrightarrow> get_session hash i m \<noteq> None" for i
    using k by (simp add: get_session_find domIff)
  moreover have "cm_size (sessions m) \<le> n" using ok by (simp add: sessions_ok_def)
  ultimately show ?thesis using k unfolding active_count_def list_sessions_def by blast
qed

text \<open>
  C37. A collection removes exactly the terminal sessions that are at least \<open>max_age\<close> seconds old, counts them, and leaves every other session as it is.
\<close>

theorem gc_reaps_exactly:
  assumes "0 < stripes" and "m = sm_run hash (main_factory J) reg ops (sm_new stripes n)"
    and "sm_gc hash now max_age m = (reaped, m')"
  shows "\<exists>old. (\<forall>i. i \<in> old \<longleftrightarrow> (\<exists>a. cm_find hash (sessions m) i = Some a \<and> is_terminal (store m ! a) \<and>
      whole_seconds (now - created_at (store m ! a)) \<ge> max_age)) \<and>
    reaped = card old \<and> (\<forall>i. get_session hash i m' = (if i \<in> old then None else get_session hash i m))"
proof -
  have ok: "sessions_ok hash m" by (rule sm_run_reach [OF assms(1,2)])
  then have inv: "cm_inv hash (sessions m)" by (simp add: sessions_ok_def)
  let ?old = "{i. \<exists>a. cm_find hash (sessions m) i = Some a \<and> reapable now max_age (store m ! a)}"
  note gc = gc_result [OF inv, of now max_age, unfolded assms(3) fst_conv snd_conv]
  obtain ss where m': "m' = m\<lparr>sessions := ss\<rparr>" using gc(4) by blast
  have "get_session hash i m' = (if i \<in> ?old then None else get_session hash i m)" for i
    unfolding get_session_find gc(3) using m' by auto
  moreover have "reaped = card ?old" by (rule gc(1))
  ultimately show ?thesis by (intro exI [of _ ?old]) (auto simp: reapable_def)
qed

lemma get_void_single: "get_void [st] = poll st"
  by (simp add: get_void_def poll_def)

lemma get_futures_value: "get_futures sts = Some (Inr ()) \<longleftrightarrow> list_all (\<lambda>st. poll st = Some (Inr ())) sts"
  by (induction sts rule: get_futures.induct) (auto simp: get_void_single split: option.splits sum.splits)

lemma get_futures_find:
  "list_all (\<lambda>st. poll st \<noteq> None) sts \<Longrightarrow>
     (case List.find (\<lambda>st. poll st \<noteq> Some (Inr ())) sts of
        None \<Rightarrow> get_futures sts = Some (Inr ())
      | Some st \<Rightarrow> \<exists>e. poll st = Some (Inl e) \<and> get_futures sts = Some (Inl e))"
  by (induction sts rule: get_futures.induct) (auto simp: get_void_single split: option.splits sum.splits)

text \<open>
  C38. The destructor waits for the workflows: in every reachable state it returns normally exactly when every dispatched workflow has run and none of the futures it kept holds an exception, so that
  then no closure outlives the manager it refers to. Once all workflows have run it does not wait: it returns, or it throws the exception of the first kept future that
  holds one.
\<close>

theorem destructor_waits_for_workflows:
  assumes "0 < stripes" and "m = sm_run hash (main_factory J) reg ops (sm_new stripes n)"
  shows "(sm_destroy m = Some (Inr ()) \<longleftrightarrow> dispatched m = [] \<and> list_all (\<lambda>f. poll (futures m ! f) = Some (Inr ())) (inflight m)) \<and>
    (dispatched m = [] \<longrightarrow>
      (case List.find (\<lambda>st. poll st \<noteq> Some (Inr ())) (map ((!) (futures m)) (inflight m)) of
         None \<Rightarrow> sm_destroy m = Some (Inr ())
       | Some st \<Rightarrow> \<exists>e. poll st = Some (Inl e) \<and> sm_destroy m = Some (Inl e)))"
proof -
  have ok: "dispatched_ok m" by (rule sm_run_reach [OF assms])
  have vals: "sm_destroy m = Some (Inr ()) \<longleftrightarrow> list_all (\<lambda>f. poll (futures m ! f) = Some (Inr ())) (inflight m)"
    by (simp add: sm_destroy_def get_futures_value list.pred_map comp_def)
  have "dispatched m = []" if r: "sm_destroy m = Some (Inr ())"
  proof (rule ccontr)
    assume "dispatched m \<noteq> []"
    then obtain f a name where "(f, a, name) \<in> set (dispatched m)" by (cases "dispatched m") auto
    with ok have "futures m ! f = ss_new" "f \<in> set (inflight m)" by (auto simp: dispatched_ok_def list_all_iff entry_ok_def)
    with r vals show False by (auto simp: list_all_iff poll_def)
  qed
  moreover have "list_all (\<lambda>st. poll st \<noteq> None) (map ((!) (futures m)) (inflight m))" if all_run: "dispatched m = []"
    unfolding list_all_iff
  proof (rule ballI)
    fix st
    assume "st \<in> set (map ((!) (futures m)) (inflight m))"
    then obtain f where "f < length (futures m)" "st = futures m ! f" using ok by (auto simp: dispatched_ok_def)
    with ok all_run obtain r where "st = complete_future r ss_new" by (auto simp: dispatched_ok_def)
    then show "poll st \<noteq> None" by (simp add: complete_future_poll)
  qed
  ultimately show ?thesis using vals get_futures_find unfolding sm_destroy_def by blast
qed

definition small_request :: create_request where
  "small_request = \<lparr>cr_prompt = ''hello'', system_message = [], cr_workflow = ''react'', cr_tools = [], cr_config = default_session_config\<rparr>"

definition small_ops :: "jval sm_op list" where
  "small_ops = [Create small_request 0, Run (small_wf (\<lambda>n. [0..<n])) 0, Create small_request 1]"

definition small_sm :: sm where
  "small_sm = sm_run (\<lambda>i. i) (main_factory plain_json) echo_registry small_ops (sm_new 4 2)"

theorem session_manager_invariant_witness:
  "active_count small_sm \<le> 2 \<and> distinct (list_sessions small_sm) \<and> length (list_sessions small_sm) = active_count small_sm"
  using session_manager_invariant [of 4 small_sm "\<lambda>i. i" plain_json echo_registry small_ops 2] by (simp add: small_sm_def)

theorem gc_reaps_exactly_witness:
  "\<exists>reaped m'. sm_gc (\<lambda>i. i) 700000000000 600 small_sm = (reaped, m') \<and>
     (\<forall>i. get_session (\<lambda>i. i) i m' = None \<or> get_session (\<lambda>i. i) i m' = get_session (\<lambda>i. i) i small_sm)"
proof -
  obtain reaped m' where c: "sm_gc (\<lambda>i. i) 700000000000 600 small_sm = (reaped, m')" by fastforce
  have "get_session (\<lambda>i. i) i m' = None \<or> get_session (\<lambda>i. i) i m' = get_session (\<lambda>i. i) i small_sm" for i
  proof -
    obtain old where "\<forall>i. get_session (\<lambda>i. i) i m' = (if i \<in> old then None else get_session (\<lambda>i. i) i small_sm)"
      using gc_reaps_exactly [OF _ small_sm_def c] by auto
    then show ?thesis by simp
  qed
  with c show ?thesis by blast
qed

definition drained_sm :: sm where
  "drained_sm = sm_run (\<lambda>i. i) (main_factory plain_json) echo_registry (take 2 small_ops) (sm_new 4 2)"

theorem destructor_waits_for_workflows_witness:
  "sm_destroy small_sm \<noteq> Some (Inr ()) \<and> sm_destroy drained_sm = Some (Inr ())"
proof -
  have "dispatched small_sm \<noteq> []" "dispatched drained_sm = []" "list_all (\<lambda>f. poll (futures drained_sm ! f) = Some (Inr ())) (inflight drained_sm)"
    by code_simp+
  then show ?thesis
    using destructor_waits_for_workflows [OF _ small_sm_def] destructor_waits_for_workflows [OF _ drained_sm_def] by simp
qed

end
