(* ===== verification/Http_Client.thy ===== *)
theory Http_Client
  imports Thread_Pool "HOL-Library.Sublist" "HOL-Library.AList"
begin

section \<open>The HTTP client and its address guard (src/src/core/async_http_client.h)\<close>

text \<open>
  The URL parser and the guard that refuses private addresses before a request is sent. The system's
  \<open>inet_pton\<close> and \<open>getaddrinfo\<close>, and the HTTP library that sends the request, are parameters (\<open>net_ops\<close>).
  Addresses are as in memory: an IPv4 address is the 32-bit word the code finds in \<open>s_addr\<close> on a
  little-endian machine, an IPv6 address a list of 16 bytes. A request runs as a closure on the pool; its result is what the closure
  returns or throws.
\<close>

unbundle bit_operations_syntax

subsection \<open>URLs\<close>

text \<open>\<open>std::string::find\<close>.\<close>

fun find_sub :: "string \<Rightarrow> string \<Rightarrow> nat option" where
  "find_sub pat [] = (if pat = [] then Some 0 else None)"
| "find_sub pat (c # s) = (if prefix pat (c # s) then Some 0 else map_option Suc (find_sub pat s))"

definition parse_url :: "string \<Rightarrow> exn + string \<times> string" where
  "parse_url url =
     (case find_sub ''://'' url of
        None \<Rightarrow> Inl (Invalid_argument (''URL must include scheme: '' @ url))
      | Some k \<Rightarrow> (case find_sub ''/'' (drop (k + 3) url) of
            None \<Rightarrow> Inr (url, ''/'')
          | Some p \<Rightarrow> Inr (take (k + 3 + p) url, drop (k + 3 + p) url)))"

definition strip_scheme :: "string \<Rightarrow> string" where
  "strip_scheme s = (case find_sub ''://'' s of None \<Rightarrow> s | Some k \<Rightarrow> drop (k + 3) s)"

definition strip_userinfo :: "string \<Rightarrow> string" where
  "strip_userinfo s = (case find_sub ''@'' s of None \<Rightarrow> s | Some k \<Rightarrow> drop (k + 1) s)"

definition extract_host :: "string \<Rightarrow> string" where
  "extract_host scheme_host_port =
     (let rest = strip_userinfo (strip_scheme scheme_host_port);
          before_colon = (case find_sub '':'' rest of None \<Rightarrow> rest | Some k \<Rightarrow> take k rest)
      in if rest \<noteq> [] \<and> hd rest = CHR ''['' then
           (case find_sub '']'' rest of
              Some k \<Rightarrow> take (k - 1) (drop 1 rest)
            | None \<Rightarrow> before_colon)
         else before_colon)"

subsection \<open>Private addresses\<close>

definition byte_at :: "nat \<Rightarrow> 32 word \<Rightarrow> 32 word" where
  "byte_at i x = take_bit 8 (drop_bit (8 * i) x)"

definition ntohl :: "32 word \<Rightarrow> 32 word" where
  "ntohl x = push_bit 24 (byte_at 0 x) OR push_bit 16 (byte_at 1 x) OR push_bit 8 (byte_at 2 x) OR byte_at 3 x"

definition is_private_ipv4 :: "32 word \<Rightarrow> bool" where
  "is_private_ipv4 addr_net =
     (let addr = ntohl addr_net;
          a = ucast (drop_bit 24 addr AND 0xFF) :: 8 word;
          b = ucast (drop_bit 16 addr AND 0xFF) :: 8 word
      in if a = 10 then True
         else if a = 172 \<and> b \<ge> 16 \<and> b \<le> 31 then True
         else if a = 192 \<and> b = 168 then True
         else if a = 127 then True
         else if a = 169 \<and> b = 254 then True
         else if a = 0 then True
         else False)"

text \<open>\<open>memcpy\<close> of four bytes into a \<open>uint32_t\<close>, on a little-endian machine.\<close>

definition word_of_bytes :: "8 word list \<Rightarrow> 32 word" where
  "word_of_bytes bs =
     ucast (bs ! 0) OR push_bit 8 (ucast (bs ! 1)) OR push_bit 16 (ucast (bs ! 2)) OR push_bit 24 (ucast (bs ! 3))"

definition is_private_ipv6 :: "8 word list \<Rightarrow> bool" where
  "is_private_ipv6 addr =
     (if addr = replicate 15 0 @ [1] then True
      else if addr = replicate 16 0 then True
      else if addr ! 0 = 0xfe \<and> addr ! 1 AND 0xc0 = 0x80 then True
      else if addr ! 0 AND 0xfe = 0xfc then True
      else if list_all (\<lambda>i. addr ! i = 0) [0..<10] \<and> addr ! 10 = 0xff \<and> addr ! 11 = 0xff
        then is_private_ipv4 (word_of_bytes (drop 12 addr))
      else False)"

subsection \<open>The guard\<close>

datatype sockaddr = V4 "32 word" | V6 "8 word list" | Other_family

record http_response =
  status :: int
  body :: string
  headers :: "(string \<times> string) list"
  hr_error :: string

datatype http_method = Get | Post string string

record net_ops =
  inet_pton4 :: "string \<Rightarrow> 32 word option"
  inet_pton6 :: "string \<Rightarrow> 8 word list option"
  getaddrinfo :: "string \<Rightarrow> sockaddr list option"
  http_send :: "int \<Rightarrow> int \<Rightarrow> string \<Rightarrow> http_method \<Rightarrow> string \<Rightarrow> (string \<times> string) list \<Rightarrow>
     string + (int \<times> string \<times> (string \<times> string) list)"

fun check_addresses :: "string \<Rightarrow> sockaddr list \<Rightarrow> exn + unit" where
  "check_addresses host [] = Inr ()"
| "check_addresses host (V4 a # rest) =
     (if is_private_ipv4 a then Inl (Invalid_argument (''SSRF blocked: '' @ host @ '' resolves to private IP''))
      else check_addresses host rest)"
| "check_addresses host (V6 a # rest) =
     (if is_private_ipv6 a then Inl (Invalid_argument (''SSRF blocked: '' @ host @ '' resolves to private IPv6''))
      else check_addresses host rest)"
| "check_addresses host (Other_family # rest) = check_addresses host rest"

definition check_ssrf :: "net_ops \<Rightarrow> string \<Rightarrow> exn + unit" where
  "check_ssrf N host =
     (if host = [] then Inl (Invalid_argument ''SSRF blocked: empty host'')
      else case inet_pton4 N host of
        Some v4 \<Rightarrow>
          if is_private_ipv4 v4 then Inl (Invalid_argument (''SSRF blocked: private IP '' @ host)) else Inr ()
      | None \<Rightarrow> (case inet_pton6 N host of
            Some v6 \<Rightarrow>
              if is_private_ipv6 v6 then Inl (Invalid_argument (''SSRF blocked: private IPv6 '' @ host)) else Inr ()
          | None \<Rightarrow> (case getaddrinfo N host of
                None \<Rightarrow> Inl (Invalid_argument (''SSRF blocked: cannot resolve host '' @ host))
              | Some as \<Rightarrow> check_addresses host as)))"

subsection \<open>Requests\<close>

record http_config =
  connect_timeout_sec :: int
  read_timeout_sec :: int
  block_private_ips :: bool

text \<open>A header that occurs twice: the last assignment to \<open>resp.headers[k]\<close> stays.\<close>

definition to_response :: "string + (int \<times> string \<times> (string \<times> string) list) \<Rightarrow> http_response" where
  "to_response res =
     (case res of
        Inl err \<Rightarrow> \<lparr>status = 0, body = [], headers = [], hr_error = err\<rparr>
      | Inr (st, b, hs) \<Rightarrow>
          \<lparr>status = st, body = b, headers = fold (\<lambda>(k, v). AList.update k v) hs [], hr_error = []\<rparr>)"

definition http_request ::
  "net_ops \<Rightarrow> http_config \<Rightarrow> http_method \<Rightarrow> string \<Rightarrow> (string \<times> string) list \<Rightarrow> exn + http_response" where
  "http_request N cfg meth url hdrs =
     try_bind (parse_url url) (\<lambda>(origin, path).
     try_bind (if block_private_ips cfg then check_ssrf N (extract_host origin) else Inr ()) (\<lambda>_.
       Inr (to_response (http_send N (connect_timeout_sec cfg) (read_timeout_sec cfg) origin meth path hdrs))))"

definition http_get :: "net_ops \<Rightarrow> http_config \<Rightarrow> string \<Rightarrow> (string \<times> string) list \<Rightarrow> exn + http_response" where
  "http_get N cfg url hdrs = http_request N cfg Get url hdrs"

definition http_post :: "net_ops \<Rightarrow> http_config \<Rightarrow> string \<Rightarrow> string \<Rightarrow> string \<Rightarrow> (string \<times> string) list \<Rightarrow> exn + http_response" where
  "http_post N cfg url bdy content_type hdrs = http_request N cfg (Post bdy content_type) url hdrs"

subsection \<open>The blocks of private addresses\<close>

text \<open>\<open>in_block base len addr\<close>: the address in host order is in the block \<open>base/len\<close>.\<close>

definition in_block :: "32 word \<Rightarrow> nat \<Rightarrow> 32 word \<Rightarrow> bool" where
  "in_block base len addr \<longleftrightarrow> drop_bit (32 - len) addr = drop_bit (32 - len) base"

definition quad :: "8 word \<Rightarrow> 8 word \<Rightarrow> 8 word \<Rightarrow> 8 word \<Rightarrow> 32 word" where
  "quad a b c d = push_bit 24 (ucast a) OR push_bit 16 (ucast b) OR push_bit 8 (ucast c) OR ucast d"

lemma bit_byte: "bit (b :: 8 word) n \<Longrightarrow> n < 8"
  using bit_imp_le_length [of b n] by simp

lemma bit_quad:
  "bit (quad a b c d) n \<longleftrightarrow> n < 32 \<and>
     (if n < 8 then bit d n else if n < 16 then bit c (n - 8) else if n < 24 then bit b (n - 16) else bit a (n - 24))"
  by (auto simp: quad_def bit_or_iff bit_push_bit_iff bit_ucast_iff dest: bit_byte)

lemma word_of_bytes_quad: "word_of_bytes [a, b, c, d] = quad d c b a"
  by (simp add: word_of_bytes_def quad_def ac_simps)

lemma bit_byte_at: "bit (byte_at i x) n \<longleftrightarrow> n < 8 \<and> bit x (8 * i + n)"
  by (auto simp: byte_at_def bit_take_bit_iff bit_drop_bit_eq ac_simps)

lemma byte_at_quad:
  "byte_at 0 (quad a b c d) = ucast d" "byte_at 1 (quad a b c d) = ucast c"
  "byte_at 2 (quad a b c d) = ucast b" "byte_at 3 (quad a b c d) = ucast a"
  by (rule bit_word_eqI; auto simp: bit_byte_at bit_quad bit_ucast_iff dest: bit_byte)+

lemma ntohl_bytes: "ntohl (word_of_bytes [a, b, c, d]) = quad a b c d"
  unfolding word_of_bytes_quad ntohl_def byte_at_quad by (simp add: quad_def)

lemma unat_drop_bit: "unat (drop_bit n (w :: 32 word)) = unat w div 2 ^ n"
proof -
  have "take_bit 32 (unat w) = unat w" using unsigned_less [of w, where 'a = nat] by (simp add: take_bit_nat_eq_self_iff)
  moreover have "unat (drop_bit n w) = drop_bit n (take_bit 32 (unat w))" by (simp add: unsigned_drop_bit_eq)
  ultimately show ?thesis by (simp only: drop_bit_eq_div)
qed

lemma unat_byte: "unat (ucast (drop_bit n (w :: 32 word) AND 0xFF) :: 8 word) = unat w div 2 ^ n mod 256"
proof -
  have "drop_bit n w AND 0xFF = take_bit 8 (drop_bit n w)" by (simp add: take_bit_eq_mask mask_eq_exp_minus_1)
  moreover have "unat (take_bit 8 (drop_bit n w)) = unat w div 2 ^ n mod 256"
    unfolding unsigned_take_bit_eq unat_drop_bit by (simp add: take_bit_eq_mod)
  ultimately show ?thesis unfolding unsigned_ucast_eq by (simp add: take_bit_eq_mod [where 'a = nat])
qed

lemma byte_eq: "ucast (drop_bit n (w :: 32 word) AND 0xFF) = (k :: 8 word) \<longleftrightarrow> unat w div 2 ^ n mod 256 = unat k"
  by (simp only: word_unat_eq_iff unat_byte)

lemma byte_le: "k \<le> ucast (drop_bit n (w :: 32 word) AND 0xFF) \<longleftrightarrow> unat (k :: 8 word) \<le> unat w div 2 ^ n mod 256"
  "ucast (drop_bit n w AND 0xFF) \<le> k \<longleftrightarrow> unat w div 2 ^ n mod 256 \<le> unat k"
  by (simp_all only: word_le_nat_alt unat_byte)

lemma in_block_unat: "in_block base len w \<longleftrightarrow> unat w div 2 ^ (32 - len) = unat base div 2 ^ (32 - len)"
  by (simp only: in_block_def word_unat_eq_iff unat_drop_bit)

lemma two_bytes:
  "(q :: nat) div 256 = 172 \<and> 16 \<le> q mod 256 \<and> q mod 256 \<le> 31 \<longleftrightarrow> q div 16 = 2753"
  "q div 256 = 192 \<and> q mod 256 = 168 \<longleftrightarrow> q = 49320"
  "q div 256 = 169 \<and> q mod 256 = 254 \<longleftrightarrow> q = 43518"
proof -
  have aux: "d = 172 \<and> e = 1 \<longleftrightarrow> 16 * d + e = 2753" if "e < 16" for d e :: nat
    using that by presburger
  define d r where dr: "d = q div 256" "r = q mod 256"
  have q: "q = 256 * d + r" "r < 256" by (simp_all add: dr)
  have e: "q div 16 = 16 * d + r div 16" "r div 16 < 16" "16 \<le> r \<and> r \<le> 31 \<longleftrightarrow> r div 16 = 1"
    using q by (auto simp: div_eq_dividend_iff)
  show "q div 256 = 172 \<and> 16 \<le> q mod 256 \<and> q mod 256 \<le> 31 \<longleftrightarrow> q div 16 = 2753"
    unfolding dr [symmetric] e(1,3) by (rule aux [OF e(2)])
  have pair: "d = a \<and> r = b \<longleftrightarrow> q = 256 * a + b" if "b < 256" for a b
    using that q(1) by (auto simp: dr)
  show "q div 256 = 192 \<and> q mod 256 = 168 \<longleftrightarrow> q = 49320" "q div 256 = 169 \<and> q mod 256 = 254 \<longleftrightarrow> q = 43518"
    using pair [of 168 192] pair [of 254 169] by (simp_all add: dr)
qed

definition private_blocks :: "(32 word \<times> nat) list" where
  "private_blocks =
     [(quad 10 0 0 0, 8), (quad 172 16 0 0, 12), (quad 192 168 0 0, 16), (quad 127 0 0 0, 8), (quad 169 254 0 0, 16), (quad 0 0 0 0, 8)]"

lemma private_ipv4_blocks: "is_private_ipv4 n \<longleftrightarrow> list_ex (\<lambda>(base, len). in_block base len (ntohl n)) private_blocks"
proof -
  let ?x = "unat (ntohl n)"
  define q where "q = ?x div 2 ^ 16"
  have "?x < 2 ^ 32" using unsigned_less [of "ntohl n", where 'a = nat] by simp
  then have q: "q < 65536" by (simp add: q_def)
  have x: "?x div 2 ^ 24 = q div 256" "?x div 2 ^ 20 = q div 16" by (simp_all add: q_def div_mult2_eq [symmetric])
  have bases: "unat (quad 10 0 0 0) = 167772160" "unat (quad 172 16 0 0) = 2886729728" "unat (quad 192 168 0 0) = 3232235520"
    "unat (quad 127 0 0 0) = 2130706432" "unat (quad 169 254 0 0) = 2851995648" "unat (quad 0 0 0 0) = 0"
    by (simp_all add: quad_def)
  have "is_private_ipv4 n \<longleftrightarrow> q div 256 = 10 \<or> (q div 256 = 172 \<and> 16 \<le> q mod 256 \<and> q mod 256 \<le> 31) \<or> (q div 256 = 192 \<and> q mod 256 = 168) \<or>
      q div 256 = 127 \<or> (q div 256 = 169 \<and> q mod 256 = 254) \<or> q div 256 = 0"
  proof -
    have "q div 256 mod 256 = q div 256" using q by simp
    then show ?thesis
      unfolding is_private_ipv4_def Let_def byte_eq byte_le x q_def [symmetric] by simp
  qed
  moreover have "q div 256 = 172 \<and> 16 \<le> q mod 256 \<and> q mod 256 \<le> 31 \<longleftrightarrow> q div 16 = 2753"
    "q div 256 = 192 \<and> q mod 256 = 168 \<longleftrightarrow> q = 49320" "q div 256 = 169 \<and> q mod 256 = 254 \<longleftrightarrow> q = 43518"
    using two_bytes [of q] by simp_all
  ultimately have "is_private_ipv4 n \<longleftrightarrow> q div 256 = 10 \<or> q div 16 = 2753 \<or> q = 49320 \<or> q div 256 = 127 \<or> q = 43518 \<or> q div 256 = 0"
    by (simp only: )
  moreover have "32 - 8 = (24 :: nat)" "32 - 12 = (20 :: nat)" "32 - 16 = (16 :: nat)" by simp_all
  ultimately show ?thesis by (simp only: private_blocks_def list_ex_iff list.set ball_simps bex_simps prod.case in_block_unat bases x q_def [symmetric]) simp
qed

subsection \<open>What the guard lets through\<close>

text \<open>The addresses a host stands for: itself when it is a literal, or what the resolver gives.\<close>

definition addresses :: "net_ops \<Rightarrow> string \<Rightarrow> sockaddr list option" where
  "addresses N host =
     (case inet_pton4 N host of
        Some v4 \<Rightarrow> Some [V4 v4]
      | None \<Rightarrow> (case inet_pton6 N host of Some v6 \<Rightarrow> Some [V6 v6] | None \<Rightarrow> getaddrinfo N host))"

definition public_v4 :: "32 word \<Rightarrow> bool" where
  "public_v4 a \<longleftrightarrow> (\<forall>(base, len) \<in> set private_blocks. \<not> in_block base len (ntohl a))"

fun public :: "sockaddr \<Rightarrow> bool" where
  "public (V4 a) \<longleftrightarrow> public_v4 a"
| "public (V6 a) \<longleftrightarrow> a \<noteq> replicate 16 0 \<and> a \<noteq> replicate 15 0 @ [1] \<and> \<not> (a ! 0 = 0xfe \<and> a ! 1 AND 0xc0 = 0x80) \<and> a ! 0 AND 0xfe \<noteq> 0xfc \<and>
     (take 12 a = replicate 10 0 @ [0xff, 0xff] \<longrightarrow> public_v4 (word_of_bytes (drop 12 a)))"
| "public Other_family \<longleftrightarrow> True"

lemma public_v4_iff: "public_v4 a \<longleftrightarrow> \<not> is_private_ipv4 a"
  by (auto simp: public_v4_def private_ipv4_blocks list_ex_iff)

lemma v4_mapped:
  assumes "take 12 a = replicate 10 0 @ [0xff, 0xff]"
  shows "list_all (\<lambda>i. a ! i = 0) [0..<10] \<and> a ! 10 = 0xff \<and> a ! 11 = 0xff"
proof -
  have n: "a ! i = (replicate 10 0 @ [0xff, 0xff]) ! i" if "i < 12" for i using that assms nth_take [of i 12 a] by metis
  show ?thesis using n by (auto simp: list_all_iff nth_append)
qed

lemma public_v6: "\<not> is_private_ipv6 a \<Longrightarrow> public (V6 a)"
  using v4_mapped [of a] by (auto simp: is_private_ipv6_def public_v4_iff split: if_splits)

lemma check_addresses_ok: "check_addresses host as = Inr () \<Longrightarrow> a \<in> set as \<Longrightarrow> public a"
proof (induction host as rule: check_addresses.induct)
  case (2 host b rest)
  then show ?case by (auto simp: public_v4_iff split: if_splits)
next
  case (3 host b rest)
  then show ?case using public_v6 [of b] by (auto split: if_splits simp del: public.simps)
qed auto

lemma check_ssrf_ok:
  assumes "check_ssrf N host = Inr ()"
  shows "host \<noteq> [] \<and> (\<exists>as. addresses N host = Some as \<and> (\<forall>a \<in> set as. public a))"
  using assms check_addresses_ok [of host] public_v6
  by (auto simp: check_ssrf_def addresses_def public_v4_iff simp del: public.simps(2) split: if_splits option.splits)

lemma check_addresses_refusal: "check_addresses host as \<noteq> Inr () \<Longrightarrow> \<exists>msg. check_addresses host as = Inl (Invalid_argument msg)"
  by (induction host as rule: check_addresses.induct) (auto split: if_splits)

lemma check_ssrf_refusal:
  assumes "check_ssrf N host \<noteq> Inr ()"
  obtains msg where "check_ssrf N host = Inl (Invalid_argument msg)"
  using assms check_addresses_refusal [of host] by (auto simp: check_ssrf_def split: if_splits option.splits)

lemma parse_url_parts: "parse_url url = Inr (origin, path) \<Longrightarrow> url = origin @ path \<or> url = origin \<and> path = ''/''"
  by (auto simp: parse_url_def split: option.splits)

text \<open>
  C9. With the guard switched on, a request is sent only to a host all of whose addresses are public: when \<open>get\<close> or \<open>post\<close> gets as far as the HTTP library, the host of
  the URL is not empty and none of its addresses (the literal, or everything the resolver returns) is in a private, loopback, link-local or
  unspecified block, nor an IPv6 address that is loopback, link-local or unique-local or embeds such an IPv4 address.
\<close>

theorem ssrf_guard:
  assumes "block_private_ips cfg" and "http_request N cfg meth url hdrs = Inr resp"
  shows "\<exists>origin path as. parse_url url = Inr (origin, path) \<and> (url = origin @ path \<or> url = origin \<and> path = ''/'') \<and>
    extract_host origin \<noteq> [] \<and> addresses N (extract_host origin) = Some as \<and> (\<forall>a \<in> set as. public a) \<and>
    resp = to_response (http_send N (connect_timeout_sec cfg) (read_timeout_sec cfg) origin meth path hdrs)"
proof -
  obtain origin path where p: "parse_url url = Inr (origin, path)" and c: "check_ssrf N (extract_host origin) = Inr ()"
    and r: "resp = to_response (http_send N (connect_timeout_sec cfg) (read_timeout_sec cfg) origin meth path hdrs)"
    using assms by (auto simp: http_request_def)
  with parse_url_parts [OF p] check_ssrf_ok [OF c] show ?thesis by blast
qed

definition small_net :: net_ops where
  "small_net =
     \<lparr>inet_pton4 = (\<lambda>h. if h = ''8.8.8.8'' then Some (word_of_bytes [8, 8, 8, 8])
        else if h = ''10.0.0.1'' then Some (word_of_bytes [10, 0, 0, 1]) else None),
      inet_pton6 = (\<lambda>h. None), getaddrinfo = (\<lambda>h. None),
      http_send = (\<lambda>ct rt origin meth path hdrs. Inr (200, path, []))\<rparr>"

theorem ssrf_guard_witness:
  "\<exists>as. addresses small_net ''8.8.8.8'' = Some as \<and> list_all public as \<and>
    isl (http_request small_net \<lparr>connect_timeout_sec = 10, read_timeout_sec = 30, block_private_ips = True\<rparr> Get ''http://8.8.8.8@10.0.0.1/x'' [])"
proof -
  let ?cfg = "\<lparr>connect_timeout_sec = 10, read_timeout_sec = 30, block_private_ips = True\<rparr>"
  have url: "parse_url ''http://u@8.8.8.8:80/x'' = Inr (''http://u@8.8.8.8:80'', ''/x'')" "extract_host ''http://u@8.8.8.8:80'' = ''8.8.8.8''"
    by code_simp+
  have "\<not> is_private_ipv4 (word_of_bytes [8, 8, 8, 8])" by code_simp
  then have "http_request small_net ?cfg Get ''http://u@8.8.8.8:80/x'' [] = Inr (to_response (Inr (200, ''/x'', [])))"
    by (simp add: http_request_def url check_ssrf_def small_net_def)
  from ssrf_guard [OF _ this] url have "\<exists>as. addresses small_net ''8.8.8.8'' = Some as \<and> list_all public as" by (auto simp: list_all_iff)
  moreover have "isl (http_request small_net ?cfg Get ''http://8.8.8.8@10.0.0.1/x'' [])" by code_simp
  ultimately show ?thesis by blast
qed

end
