(* ===== verification/LLM_Client.thy ===== *)
theory LLM_Client
  imports Messages Http_Client Semaphore Rate_Limiter
begin

section \<open>The language model clients (src/src/llm/llm_client.h, throttled_llm_client.h)\<close>

text \<open>
  The client builds the request, sends it through the HTTP client and turns the reply into a response; \<open>J\<close> is
  the JSON library, \<open>N\<close> the network. A response is always a value, with its \<open>error\<close> field set when
  something went wrong, except for what the HTTP client throws. The throttled client takes a token of the
  rate limiter and a permit of the semaphore around a call, and gives the permit back in a continuation of
  the call's future.
\<close>

subsection \<open>The direct client\<close>

record 'j llm_config =
  api_base :: string
  llm_model :: string
  api_key :: string
  temperature :: 'j
  max_tokens :: int

text \<open>The constructor resolves an empty key from the environment.\<close>

definition llm_new :: "string option \<Rightarrow> 'j llm_config \<Rightarrow> 'j llm_config" where
  "llm_new env cfg =
     (if api_key cfg = [] then (case env of Some k \<Rightarrow> cfg\<lparr>api_key := k\<rparr> | None \<Rightarrow> cfg) else cfg)"

definition request_body :: "('j, 'x) json_ops_scheme \<Rightarrow> 'j llm_config \<Rightarrow> 'j \<Rightarrow> 'j \<Rightarrow> 'j" where
  "request_body J cfg msgs tools =
     j_object J
       ([(''model'', j_string J (llm_model cfg)), (''messages'', msgs), (''temperature'', temperature cfg),
         (''max_tokens'', j_int J (max_tokens cfg))] @
        (if \<not> j_is_empty J tools \<and> j_is_array J tools
         then [(''tools'', tools), (''tool_choice'', j_string J ''auto'')] else []))"

definition empty_response :: llm_response where
  "empty_response =
     \<lparr>resp_message = plain_message [] [], prompt_tokens = 0, completion_tokens = 0, model = [], resp_error = []\<rparr>"

text \<open>\<open>j["choices"][0]\<close>: an index into something that is no array throws.\<close>

definition first_item :: "('j, 'x) json_ops_scheme \<Rightarrow> 'j \<Rightarrow> exn + 'j" where
  "first_item J v =
     (if j_is_array J v then (case j_items J v of [] \<Rightarrow> Inl (Json_exception ''index'') | x # _ \<Rightarrow> Inr x)
      else Inl (Json_exception ''cannot use operator[]''))"

text \<open>
  The body of the \<open>try\<close> block. The response is built up in place, so a failure keeps what was filled in:
  the left of the sum is that response with the exception.
\<close>

definition fill_message :: "('j, 'x) json_ops_scheme \<Rightarrow> 'j \<Rightarrow> llm_response \<Rightarrow> (llm_response \<times> exn) + llm_response" where
  "fill_message J j r =
     (case j_find J j ''choices'' of
        None \<Rightarrow> Inr r
      | Some cs \<Rightarrow>
          if j_is_empty J cs then Inr r
          else case first_item J cs of
              Inl e \<Rightarrow> Inl (r, e)
            | Inr choice \<Rightarrow> (case j_find J choice ''message'' of
                  None \<Rightarrow> Inr r
                | Some m \<Rightarrow> (case message_from_json J m of Inl e \<Rightarrow> Inl (r, e) | Inr msg \<Rightarrow> Inr (r\<lparr>resp_message := msg\<rparr>))))"

definition fill_usage :: "('j, 'x) json_ops_scheme \<Rightarrow> 'j \<Rightarrow> llm_response \<Rightarrow> (llm_response \<times> exn) + llm_response" where
  "fill_usage J j r =
     (case j_find J j ''usage'' of
        None \<Rightarrow> Inr r
      | Some u \<Rightarrow> (case value_int J u ''prompt_tokens'' 0 of
            Inl e \<Rightarrow> Inl (r, e)
          | Inr p \<Rightarrow>
              let r1 = r\<lparr>prompt_tokens := word_of_int p\<rparr>
              in case value_int J u ''completion_tokens'' 0 of
                   Inl e \<Rightarrow> Inl (r1, e)
                 | Inr c \<Rightarrow> Inr (r1\<lparr>completion_tokens := word_of_int c\<rparr>)))"

definition fill_model :: "('j, 'x) json_ops_scheme \<Rightarrow> string \<Rightarrow> 'j \<Rightarrow> llm_response \<Rightarrow> (llm_response \<times> exn) + llm_response" where
  "fill_model J dflt j r =
     (case value_str J j ''model'' dflt of Inl e \<Rightarrow> Inl (r, e) | Inr m \<Rightarrow> Inr (r\<lparr>model := m\<rparr>))"

definition and_then :: "'e + 'a \<Rightarrow> ('a \<Rightarrow> 'e + 'b) \<Rightarrow> 'e + 'b" where
  "and_then r f = (case r of Inl e \<Rightarrow> Inl e | Inr x \<Rightarrow> f x)"

definition parse_reply :: "('j, 'x) json_ops_scheme \<Rightarrow> string \<Rightarrow> string \<Rightarrow> (llm_response \<times> exn) + llm_response" where
  "parse_reply J dflt bdy =
     (case j_parse J bdy of
        Inl e \<Rightarrow> Inl (empty_response, e)
      | Inr j \<Rightarrow> (case j_find J j ''error'' of
            Some err \<Rightarrow> (case value_str J err ''message'' ''Unknown API error'' of
                Inl e \<Rightarrow> Inl (empty_response, e)
              | Inr m \<Rightarrow> Inr (empty_response\<lparr>resp_error := m\<rparr>))
          | None \<Rightarrow>
              and_then (fill_message J j empty_response) (\<lambda>r1.
              and_then (fill_usage J j r1) (fill_model J dflt j))))"

text \<open>From the HTTP response to the response of the model; only standard exceptions are caught.\<close>

definition to_llm_response :: "('j, 'x) json_ops_scheme \<Rightarrow> string \<Rightarrow> http_response \<Rightarrow> exn + llm_response" where
  "to_llm_response J dflt http =
     (if hr_error http \<noteq> [] then Inr (empty_response\<lparr>resp_error := ''HTTP error: '' @ hr_error http\<rparr>)
      else if status http \<noteq> 200 then
        Inr (empty_response\<lparr>resp_error := ''API error (HTTP '' @ to_string_int (status http) @ ''): '' @ body http\<rparr>)
      else case parse_reply J dflt (body http) of
          Inr r \<Rightarrow> Inr r
        | Inl (r, e) \<Rightarrow>
            if is_std_exception e then Inr (r\<lparr>resp_error := ''Failed to parse API response: '' @ what e\<rparr>) else Inl e)"

definition llm_complete ::
  "('j, 'x) json_ops_scheme \<Rightarrow> net_ops \<Rightarrow> http_config \<Rightarrow> 'j llm_config \<Rightarrow> 'j \<Rightarrow> 'j \<Rightarrow> exn + llm_response" where
  "llm_complete J N hc cfg msgs tools =
     try_bind
       (http_post N hc (api_base cfg @ ''/v1/chat/completions'') (j_dump J 0 (request_body J cfg msgs tools)) ''application/json''
         [(''Content-Type'', ''application/json''), (''Authorization'', ''Bearer '' @ api_key cfg)])
       (to_llm_response J (llm_model cfg))"

subsection \<open>The throttled client\<close>

text \<open>
  The rate limiter's clock readings and the semaphores that the rounds of \<open>acquire\<close> find are the arguments \<open>clocks\<close>
  and \<open>waits\<close>; the inner client throws, or returns a future. The record holds what the call leaves: the semaphore, the inner future with
  the continuation registered, and the promise of the result. \<open>None\<close> says that the call is still waiting (or
  that an assertion of the semaphore failed).
\<close>

record throttled_call =
  tc_sem :: semaphore
  tc_bucket :: bucket
  inner_fut :: "llm_response shared_state"
  result_fut :: "llm_response shared_state"

text \<open>The continuation: give the permit back, then satisfy the promise.\<close>

definition on_response :: "llm_response list \<Rightarrow> throttled_call \<Rightarrow> throttled_call option" where
  "on_response vs c =
     (case vs of
        [] \<Rightarrow> Some c
      | resp # _ \<Rightarrow> (case release (tc_sem c) of
            None \<Rightarrow> None
          | Some s \<Rightarrow> Some (c\<lparr>tc_sem := s, result_fut := snd (set_value resp (result_fut c))\<rparr>)))"

definition throttled_complete ::
  "(int \<Rightarrow> int) \<Rightarrow> int \<Rightarrow> int \<Rightarrow> int list \<Rightarrow> bucket \<Rightarrow> semaphore list \<Rightarrow> addr \<Rightarrow> exn + llm_response shared_state
     \<Rightarrow> (semaphore \<times> exn + throttled_call) option" where
  "throttled_complete accrue cap one clocks b waits cont inner =
     (case rl_acquire accrue cap one clocks b of
        None \<Rightarrow> None
      | Some b1 \<Rightarrow> (case sem_acquire 0 waits of
            None \<Rightarrow> None
          | Some (_, s1) \<Rightarrow> (case inner of
                Inl e \<Rightarrow> map_option (\<lambda>s. Inl (s, e)) (release s1)
              | Inr fut \<Rightarrow>
                  let (vs, fut1) = then_do cont fut
                  in map_option Inr (on_response vs \<lparr>tc_sem = s1, tc_bucket = b1, inner_fut = fut1, result_fut = ss_new\<rparr>))))"

text \<open>The inner call resolves after the continuation was registered; \<open>s\<close> is the semaphore at that time.\<close>

definition inner_resolves :: "exn + llm_response \<Rightarrow> semaphore \<Rightarrow> throttled_call \<Rightarrow> throttled_call option" where
  "inner_resolves r s c =
     (let (vs, fut) = (case r of Inl e \<Rightarrow> set_exception e (inner_fut c) | Inr v \<Rightarrow> set_value v (inner_fut c))
      in on_response vs (c\<lparr>tc_sem := s, inner_fut := fut\<rparr>))"

subsection \<open>A throttled call under interleaving\<close>

text \<open>
  The call from the moment its permit is taken: the thread that runs the inner call satisfies the inner promise with the call's outcome \<open>res\<close>, the calling thread registers the continuation, in any
  order and one atomic access at a time (\<open>fut_step\<close>); when the continuation fires it gives the permit back and satisfies the promise of the result. Other calls take and give
  back permits of the same semaphore at any time.
\<close>

record call_sys =
  inner_sys :: "llm_response fut_sys"
  call_sem :: semaphore
  call_result :: "llm_response shared_state"

datatype call_event = Responded llm_response | Taken | Given_back

definition call_init :: "semaphore \<Rightarrow> call_sys \<Rightarrow> bool" where
  "call_init free s \<longleftrightarrow> fut_init (inner_sys s) \<and> call_sem s = free \<and> call_result s = ss_new"

inductive call_step :: "exn + llm_response \<Rightarrow> call_sys \<Rightarrow> call_event label \<Rightarrow> call_sys \<Rightarrow> bool" for res where
  call_tau: "fut_step (inner_sys s) Tau f \<Longrightarrow> call_step res s Tau (s\<lparr>inner_sys := f\<rparr>)"
| call_set: "fut_step (inner_sys s) (Act (Set res)) f \<Longrightarrow> call_step res s Tau (s\<lparr>inner_sys := f\<rparr>)"
| call_fired: "fut_step (inner_sys s) (Act (Fired v)) f \<Longrightarrow> release (call_sem s) = Some free \<Longrightarrow>
     call_step res s (Act (Responded v))
       (s\<lparr>inner_sys := f, call_sem := free, call_result := snd (set_value v (call_result s))\<rparr>)"
| other_takes: "0 <s permits (call_sem s) \<Longrightarrow>
     call_step res s (Act Taken) (s\<lparr>call_sem := (call_sem s)\<lparr>permits := permits (call_sem s) - 1\<rparr>\<rparr>)"
| other_gives: "release (call_sem s) = Some free \<Longrightarrow> call_step res s (Act Given_back) (s\<lparr>call_sem := free\<rparr>)"

inductive_cases call_stepE: "call_step res s l t"

subsection \<open>Responses\<close>

text \<open>A reply in the format of the API: one choice with a message, and the token counts.\<close>

definition api_reply :: "('j, 'x) json_ops_scheme \<Rightarrow> string \<Rightarrow> message \<Rightarrow> int \<Rightarrow> int \<Rightarrow> 'j" where
  "api_reply J mdl m p c =
     j_object J
       [(''model'', j_string J mdl),
        (''choices'', j_array J [j_object J [(''message'', message_to_json J m)]]),
        (''usage'', j_object J [(''prompt_tokens'', j_int J p), (''completion_tokens'', j_int J c)])]"

text \<open>What is used of the JSON library besides the laws of the messages; its integers have 64 bits.\<close>

definition int64 :: "int \<Rightarrow> bool" where
  "int64 i \<longleftrightarrow> - (2 ^ 63) \<le> i \<and> i < 2 ^ 63"

definition reply_laws :: "('j, 'x) json_ops_scheme \<Rightarrow> bool" where
  "reply_laws J \<longleftrightarrow> json_laws J \<and> (\<forall>i. int64 i \<longrightarrow> j_get_int J (j_int J i) = Some i) \<and>
     (\<forall>js. j_is_array J (j_array J js) \<and> (j_is_empty J (j_array J js) \<longleftrightarrow> js = []))"

lemma reply_lawsD:
  assumes "reply_laws J"
  shows "json_laws J" and "int64 i \<Longrightarrow> get_int J (j_int J i) = Inr (narrow_int i)" and "j_is_array J (j_array J js)" and "j_is_empty J (j_array J js) \<longleftrightarrow> js = []"
  using assms by (simp_all add: reply_laws_def get_int_def get_num_def)

lemma value_int_object:
  "json_laws J \<Longrightarrow> distinct (map fst kvs) \<Longrightarrow>
     value_int J (j_object J kvs) k d = (case map_of kvs k of None \<Rightarrow> Inr d | Some v \<Rightarrow> get_int J v)"
  by (simp add: value_int_def json_object_find json_leaf_laws)

lemma narrow_int_word: "word_of_int (narrow_int i) = (word_of_int i :: 32 word)"
  by (simp add: narrow_int_def)

lemma narrow_int_id: "narrow_int i = i \<longleftrightarrow> - (2 ^ 31) \<le> i \<and> i < 2 ^ 31"
  by (simp add: narrow_int_def signed_of_int signed_take_bit_int_eq_self_iff)

text \<open>
  C39. The client reads a reply of the API back: from a transfer with status 200 whose body parses to a reply with a message and token counts, the response has exactly this message
  (tool calls included), the model's name and no error. The counts are read as 32-bit integers: a count is read back as it is exactly when it is in the range of an \<open>int\<close>, and otherwise modulo
  \<open>2 ^ 32\<close>.
\<close>

theorem llm_reply_roundtrip:
  assumes "reply_laws J" and "hr_error http = []" and "status http = 200"
    and "j_parse J (body http) = Inr (api_reply J mdl m p c)" and "int64 p" and "int64 c"
  shows "to_llm_response J dflt http =
      Inr \<lparr>resp_message = m, prompt_tokens = word_of_int p, completion_tokens = word_of_int c, model = mdl, resp_error = []\<rparr> \<and>
    (sint (word_of_int p :: 32 word) = p \<longleftrightarrow> - (2 ^ 31) \<le> p \<and> p < 2 ^ 31) \<and>
    (sint (word_of_int c :: 32 word) = c \<longleftrightarrow> - (2 ^ 31) \<le> c \<and> c < 2 ^ 31)"
proof -
  note laws = reply_lawsD [OF assms(1)]
  note simps = json_object_find [OF laws(1)] json_leaf_laws [OF laws(1)] value_str_object [OF laws(1)] value_int_object [OF laws(1)]
    laws(2) [OF assms(5)] laws(2) [OF assms(6)] laws(3,4)
  have j: "j_find J (api_reply J mdl m p c) k = map_of
       [(''model'', j_string J mdl), (''choices'', j_array J [j_object J [(''message'', message_to_json J m)]]),
        (''usage'', j_object J [(''prompt_tokens'', j_int J p), (''completion_tokens'', j_int J c)])] k"
    "value_str J (api_reply J mdl m p c) ''model'' dflt = Inr mdl" for k
    by (simp_all add: api_reply_def simps)
  have "fill_message J (api_reply J mdl m p c) empty_response = Inr (empty_response\<lparr>resp_message := m\<rparr>)"
    by (simp add: fill_message_def j first_item_def simps message_roundtrip [OF laws(1)])
  then have "to_llm_response J dflt http =
      Inr \<lparr>resp_message = m, prompt_tokens = word_of_int p, completion_tokens = word_of_int c, model = mdl, resp_error = []\<rparr>"
    using assms(2-4)
    by (simp add: to_llm_response_def parse_reply_def j and_then_def fill_usage_def fill_model_def simps empty_response_def narrow_int_word)
  then show ?thesis using narrow_int_id [of p] narrow_int_id [of c] by (simp only: narrow_int_def)
qed

subsection \<open>Permits\<close>

lemma sem_acquire_first: "0 <s permits s \<Longrightarrow> sem_acquire i (s # later) = Some ([], s\<lparr>permits := permits s - 1\<rparr>)"
  by (simp add: try_acquire_returns)

lemmas future_defs = then_do_def set_value_def set_exception_def ss_new_def ss_exchange_def is_sentinel_def poll_def

text \<open>
  C23. What becomes of the permit of a throttled call. It is given back when the inner client throws, and when the inner future
  has or gets a value, which the caller's future then has too. But when the inner future has or gets an exception, the
  permit is not given back and the caller's future never becomes ready.
\<close>

theorem throttled_permit_accounting:
  assumes "rl_acquire accrue cap one clocks b = Some b1"
    and "0 <s permits s" and "\<not> max_permits s <s permits s" and "0 <s max_permits s"
  shows "throttled_complete accrue cap one clocks b [s] k (Inl e) = Some (Inl (s, e)) \<and>
    (\<exists>c. throttled_complete accrue cap one clocks b [s] k (Inr (snd (set_value v ss_new))) = Some (Inr c) \<and>
       tc_sem c = s \<and> poll (result_fut c) = Some (Inr v)) \<and>
    (\<exists>c. throttled_complete accrue cap one clocks b [s] k (Inr (snd (set_exception e ss_new))) = Some (Inr c) \<and>
       tc_sem c = s\<lparr>permits := permits s - 1\<rparr> \<and> poll (result_fut c) = None) \<and>
    (\<exists>c. throttled_complete accrue cap one clocks b [s] k (Inr ss_new) = Some (Inr c) \<and>
       tc_sem c = s\<lparr>permits := permits s - 1\<rparr> \<and> poll (result_fut c) = None \<and>
       (\<forall>t t'. release t = Some t' \<longrightarrow>
          (\<exists>c'. inner_resolves (Inr v) t c = Some c' \<and> tc_sem c' = t' \<and> poll (result_fut c') = Some (Inr v))) \<and>
       (\<forall>t. \<exists>c'. inner_resolves (Inl e) t c = Some c' \<and> tc_sem c' = t \<and> poll (result_fut c') = None))"
proof -
  have rel: "release (s\<lparr>permits := permits s - 1\<rparr>) = Some s" by (rule release_after_acquire [OF assms(2-4)])
  have start: "throttled_complete accrue cap one clocks b [s] k (Inr fut) =
      (let (vs, fut1) = then_do k fut
       in map_option Inr (on_response vs \<lparr>tc_sem = s\<lparr>permits := permits s - 1\<rparr>, tc_bucket = b1, inner_fut = fut1, result_fut = ss_new\<rparr>))" for fut
    unfolding throttled_complete_def assms(1) sem_acquire_first [OF assms(2)] by simp
  have "throttled_complete accrue cap one clocks b [s] k (Inl e) = Some (Inl (s, e))"
    unfolding throttled_complete_def assms(1) sem_acquire_first [OF assms(2)] by (simp add: rel)
  moreover have "\<exists>c. throttled_complete accrue cap one clocks b [s] k (Inr (snd (set_value v ss_new))) = Some (Inr c) \<and>
      tc_sem c = s \<and> poll (result_fut c) = Some (Inr v)"
    unfolding start by (simp add: future_defs on_response_def rel)
  moreover have "\<exists>c. throttled_complete accrue cap one clocks b [s] k (Inr (snd (set_exception e ss_new))) = Some (Inr c) \<and>
      tc_sem c = s\<lparr>permits := permits s - 1\<rparr> \<and> poll (result_fut c) = None"
    unfolding start by (simp add: future_defs on_response_def)
  moreover have "\<exists>c. throttled_complete accrue cap one clocks b [s] k (Inr ss_new) = Some (Inr c) \<and>
       tc_sem c = s\<lparr>permits := permits s - 1\<rparr> \<and> poll (result_fut c) = None \<and>
       (\<forall>t t'. release t = Some t' \<longrightarrow>
          (\<exists>c'. inner_resolves (Inr v) t c = Some c' \<and> tc_sem c' = t' \<and> poll (result_fut c') = Some (Inr v))) \<and>
       (\<forall>t. \<exists>c'. inner_resolves (Inl e) t c = Some c' \<and> tc_sem c' = t \<and> poll (result_fut c') = None)"
    unfolding start by (simp add: future_defs on_response_def inner_resolves_def)
  ultimately show ?thesis by blast
qed

subsection \<open>Calls that fail\<close>

text \<open>The permits that the other calls have given back, less those they have taken.\<close>

fun balance :: "call_event \<Rightarrow> int" where
  "balance Taken = -1"
| "balance Given_back = 1"
| "balance (Responded v) = 0"

definition failing :: "exn \<Rightarrow> call_sys \<Rightarrow> bool" where
  "failing e s \<longleftrightarrow> (\<exists>r. (r = None \<or> r = Some (Inl e)) \<and> fut_sim (inner_sys s) (r, False)) \<and> call_result s = ss_new"

text \<open>While the outcome is an exception no continuation fires, in whichever order promise and continuation meet.\<close>

lemma failing_not_fired:
  assumes "failing e s"
  shows "\<not> fut_step (inner_sys s) (Act (Fired v)) f"
proof
  assume st: "fut_step (inner_sys s) (Act (Fired v)) f"
  obtain r where r: "r = None \<or> r = Some (Inl e)" "fut_sim (inner_sys s) (r, False)" using assms by (auto simp: failing_def)
  obtain b where "promise_step (r, False) (Fired v) b" using fut_sim_act [OF r(2) st] by blast
  then show False using r(1) by (cases rule: promise_step.cases) auto
qed

lemma failing_tau: "failing e s \<Longrightarrow> fut_step (inner_sys s) Tau f \<Longrightarrow> failing e (s\<lparr>inner_sys := f\<rparr>)"
  unfolding failing_def using fut_sim_tau by (metis call_sys.select_convs(1) call_sys.select_convs(3) call_sys.surjective call_sys.update_convs(1))

lemma failing_set:
  assumes "failing e s" and "fut_step (inner_sys s) (Act (Set (Inl e))) f"
  shows "failing e (s\<lparr>inner_sys := f\<rparr>)"
proof -
  obtain r where r: "fut_sim (inner_sys s) (r, False)" using assms(1) by (auto simp: failing_def)
  obtain b where b: "promise_step (r, False) (Set (Inl e)) b" "fut_sim f b" using fut_sim_act [OF r assms(2)] by blast
  from b(1) have "b = (Some (Inl e), False)" by (cases rule: promise_step.cases) simp_all
  then show ?thesis using assms(1) b(2) by (auto simp: failing_def)
qed

lemma failing_step:
  assumes "failing e s" and "call_step (Inl e) s l t"
  shows "failing e t \<and> permits (call_sem t) = permits (call_sem s) + (case l of Tau \<Rightarrow> 0 | Act ev \<Rightarrow> of_int (balance ev)) \<and>
    (\<forall>v. l \<noteq> Act (Responded v))"
  using assms(2)
proof (rule call_stepE)
  fix f v free
  assume "fut_step (inner_sys s) (Act (Fired v)) f"
  then show ?thesis using failing_not_fired [OF assms(1)] by blast
qed (use failing_tau [OF assms(1)] failing_set [OF assms(1)] assms(1) in \<open>auto simp: failing_def release_def Let_def split: if_splits\<close>)

interpretation failed: lts_invariant "call_init free" "call_step (Inl e)" "failing e" for free e
proof
  show "failing e s" if "call_init free s" for s using that fut_sim_init by (auto simp: call_init_def failing_def)
  show "failing e t" if "failing e s" "call_step (Inl e) s l t" for s l t using failing_step [OF that] by blast
qed

lemma failing_trace:
  assumes "trace (call_step (Inl e)) s es t" and "failing e s"
  shows "permits (call_sem t) = permits (call_sem s) + of_int (sum_list (map balance es)) \<and> (\<forall>v. Responded v \<notin> set es)"
  using assms
proof (induction rule: trace.induct)
  case (trace_tau s es t u)
  then show ?case using failing_step [OF failed.trace_inv [OF trace_tau.hyps(1)] trace_tau.hyps(2)] by simp
next
  case (trace_act s es t ev u)
  then show ?case using failing_step [OF failed.trace_inv [OF trace_act.hyps(1)] trace_act.hyps(2)] by auto
qed simp

lemma failing_never_ready:
  "list_all (reachable (call_init free) (call_step (Inl e))) cs \<Longrightarrow> fut_get (map call_result cs) = None"
  by (induction cs) (auto simp: ss_new_def failing_def dest: failed.reachable_inv)

text \<open>The run in which the continuation is registered first and the inner call fails afterwards.\<close>

abbreviation call_at :: "semaphore \<Rightarrow> llm_response shared_state \<Rightarrow> setter_pc \<Rightarrow> then_pc \<Rightarrow> call_sys" where
  "call_at free sh p n \<equiv> \<lparr>inner_sys = \<lparr>shared = sh, setter = p, thener = n\<rparr>, call_sem = free, call_result = ss_new\<rparr>"

lemma late_failure_run:
  "reachable (call_init free) (call_step (Inl e)) (call_at free (ss_new\<lparr>ss_exception := Some e, ss_ready := True, ss_continuation := Sentinel\<rparr>) SDone NDone)"
proof -
  let ?reach = "reachable (call_init free) (call_step (Inl e))" and ?new = "ss_new :: llm_response shared_state"
  let ?reg = "?new\<lparr>conts := {0}, ss_continuation := Cont 0\<rparr>"
  have "?reach (call_at free ?new SIdle NIdle)" by (rule reach_init) (simp add: call_init_def fut_init_def)
  from reach_step [OF this call_tau [OF then_exchange [where c = 0]]] have "?reach (call_at free ?reg SIdle NDone)"
    by (simp add: ss_new_def ss_exchange_def is_sentinel_def)
  from reach_step [OF this call_set [OF store_exception]] have "?reach (call_at free (?reg\<lparr>ss_exception := Some e\<rparr>) SStored NDone)" by simp
  from reach_step [OF this call_tau [OF store_ready]]
  have "?reach (call_at free (?reg\<lparr>ss_exception := Some e, ss_ready := True\<rparr>) SReady NDone)" by simp
  from reach_step [OF this call_tau [OF set_exchange]]
  have "?reach (call_at free (?reg\<lparr>ss_exception := Some e, ss_ready := True, ss_continuation := Sentinel\<rparr>) (SHave 0) NDone)"
    by (simp add: ss_exchange_def)
  from reach_step [OF this call_tau [OF set_skip]]
  have "?reach (call_at free (?reg\<lparr>ss_exception := Some e, ss_ready := True, ss_continuation := Sentinel\<rparr>) (SDel 0) NDone)" by simp
  from reach_step [OF this call_tau [OF set_delete]] show ?thesis by (simp add: ss_new_def)
qed

definition free_bucket :: bucket where
  "free_bucket = \<lparr>tokens = 1, last_refill = 0\<rparr>"

definition one_slot :: semaphore where
  "one_slot = \<lparr>permits = 1, max_permits = 1\<rparr>"

theorem throttled_permit_accounting_witness:
  "throttled_complete (\<lambda>t. 0) 1 1 [0] free_bucket [one_slot] 0 (Inl Other_exception) = Some (Inl (one_slot, Other_exception)) \<and>
   (\<exists>c. throttled_complete (\<lambda>t. 0) 1 1 [0] free_bucket [one_slot] 0 (Inr (snd (set_exception Other_exception ss_new))) = Some (Inr c) \<and>
     permits (tc_sem c) = 0 \<and> poll (result_fut c) = None)"
proof -
  have b: "rl_acquire (\<lambda>t. 0) 1 1 [0] free_bucket = Some \<lparr>tokens = 0, last_refill = 0\<rparr>"
    by (simp add: free_bucket_def rl_try_acquire_def refill_def)
  have s: "0 <s permits one_slot" "\<not> max_permits one_slot <s permits one_slot" "0 <s max_permits one_slot"
    by (simp_all add: one_slot_def word_sless_alt)
  note acc = throttled_permit_accounting [OF b s, of 0 Other_exception empty_response]
  then obtain c where c: "throttled_complete (\<lambda>t. 0) 1 1 [0] free_bucket [one_slot] 0 (Inr (snd (set_exception Other_exception ss_new))) = Some (Inr c)"
    "tc_sem c = one_slot\<lparr>permits := permits one_slot - 1\<rparr>" "poll (result_fut c) = None" by blast
  then have "permits (tc_sem c) = 0" by (simp add: one_slot_def)
  with acc c show ?thesis by blast
qed

theorem llm_reply_roundtrip_witness:
  "to_llm_response (plain_json\<lparr>j_parse := (\<lambda>s. Inr (api_reply plain_json ''m'' (plain_message ''assistant'' ''hi'') 5 4294967303))\<rparr>) ''d''
     \<lparr>status = 200, body = [], headers = [], hr_error = []\<rparr> =
   Inr \<lparr>resp_message = plain_message ''assistant'' ''hi'', prompt_tokens = 5, completion_tokens = 7, model = ''m'', resp_error = []\<rparr>"
proof -
  let ?J = "plain_json\<lparr>j_parse := (\<lambda>s. Inr (api_reply plain_json ''m'' (plain_message ''assistant'' ''hi'') 5 4294967303))\<rparr>"
  have "reply_laws ?J" by (simp add: reply_laws_def json_laws_def plain_json_def)
  from llm_reply_roundtrip [OF this, of "\<lparr>status = 200, body = [], headers = [], hr_error = []\<rparr>" "''m''" "plain_message ''assistant'' ''hi''" 5 4294967303 "''d''"]
  show ?thesis by (simp add: int64_def plain_json_def api_reply_def message_to_json_def plain_message_def)
qed

end
