(* ===== verification/Http_Server.thy ===== *)
theory Http_Server
  imports Session_Manager Task_DAG
begin

section \<open>The HTTP server and the metrics (src/src/server/http_server.cpp, utils/metrics.h)\<close>

text \<open>
  The routes, the handlers, the event stream and the collection thread. The HTTP library is outside: a request is its
  verb, path and body, a reply its status (200 unless a handler sets it), body and content type; the chunked content
  provider is a function of its state, of what \<open>get_session\<close> gives and of whether the sink accepts the data, called
  until it answers \<open>false\<close>. Texts are valid UTF-8, so that \<open>dump\<close> does not throw.
\<close>

subsection \<open>Metrics\<close>

record metrics =
  sessions_created :: "64 word"
  sessions_completed :: "64 word"
  sessions_failed :: "64 word"
  mt_prompt_tokens :: "64 word"
  mt_completion_tokens :: "64 word"
  mt_tool_calls :: "64 word"

definition metrics_new :: metrics where
  "metrics_new =
     \<lparr>sessions_created = 0, sessions_completed = 0, sessions_failed = 0, mt_prompt_tokens = 0, mt_completion_tokens = 0,
      mt_tool_calls = 0\<rparr>"

definition inc_sessions_created :: "metrics \<Rightarrow> metrics" where
  "inc_sessions_created m = m\<lparr>sessions_created := sessions_created m + 1\<rparr>"

definition inc_sessions_completed :: "metrics \<Rightarrow> metrics" where
  "inc_sessions_completed m = m\<lparr>sessions_completed := sessions_completed m + 1\<rparr>"

definition inc_sessions_failed :: "metrics \<Rightarrow> metrics" where
  "inc_sessions_failed m = m\<lparr>sessions_failed := sessions_failed m + 1\<rparr>"

text \<open>An \<open>int\<close> that is added to a \<open>uint64_t\<close> is extended with its sign.\<close>

definition metrics_add_tokens :: "32 word \<Rightarrow> 32 word \<Rightarrow> metrics \<Rightarrow> metrics" where
  "metrics_add_tokens p c m =
     m\<lparr>mt_prompt_tokens := mt_prompt_tokens m + scast p, mt_completion_tokens := mt_completion_tokens m + scast c\<rparr>"

definition inc_tool_calls :: "32 word \<Rightarrow> metrics \<Rightarrow> metrics" where
  "inc_tool_calls n m = m\<lparr>mt_tool_calls := mt_tool_calls m + scast n\<rparr>"

definition metrics_reset :: "metrics \<Rightarrow> metrics" where
  "metrics_reset m =
     m\<lparr>sessions_created := 0, sessions_completed := 0, sessions_failed := 0, mt_prompt_tokens := 0,
       mt_completion_tokens := 0, mt_tool_calls := 0\<rparr>"

definition metrics_fields :: "('j, 'x) json_ops_scheme \<Rightarrow> metrics \<Rightarrow> (string \<times> 'j) list" where
  "metrics_fields J m =
     [(''sessions_created'', j_int J (uint (sessions_created m))),
      (''sessions_completed'', j_int J (uint (sessions_completed m))),
      (''sessions_failed'', j_int J (uint (sessions_failed m))),
      (''total_prompt_tokens'', j_int J (uint (mt_prompt_tokens m))),
      (''total_completion_tokens'', j_int J (uint (mt_completion_tokens m))),
      (''total_tool_calls'', j_int J (uint (mt_tool_calls m)))]"

subsection \<open>Replies\<close>

record reply =
  rp_status :: int
  rp_body :: string
  rp_type :: string

definition json_reply :: "int \<Rightarrow> string \<Rightarrow> reply" where
  "json_reply st text = \<lparr>rp_status = st, rp_body = text, rp_type = ''application/json''\<rparr>"

definition object_reply :: "('j, 'x) json_ops_scheme \<Rightarrow> int \<Rightarrow> (string \<times> 'j) list \<Rightarrow> reply" where
  "object_reply J st kvs = json_reply st (j_dump J 0 (j_object J kvs))"

text \<open>The literal bodies, with their quotation marks.\<close>

definition error_text :: "string \<Rightarrow> string" where
  "error_text msg = ''{'' @ [CHR 0x22] @ ''error'' @ [CHR 0x22] @ '':'' @ [CHR 0x22] @ msg @ [CHR 0x22] @ ''}''"

text \<open>\<open>catch (const std::exception& e)\<close> around a handler: the reply with the message of the exception.\<close>

definition caught :: "('j, 'x) json_ops_scheme \<Rightarrow> string \<Rightarrow> exn \<Rightarrow> exn + reply" where
  "caught J prefix e =
     (if is_std_exception e then Inr (object_reply J 400 [(''error'', j_string J (prefix @ what e))]) else Inl e)"

text \<open>\<open>std::stoull\<close> on the digits of the path.\<close>

definition stoull :: "string \<Rightarrow> exn + nat" where
  "stoull ds = (if digits_value ds \<ge> 2 ^ 64 then Inl (Out_of_range ''stoull'') else Inr (digits_value ds))"

subsection \<open>The handlers\<close>

text \<open>\<open>get<unsigned>()\<close> of a number: a negative or large one comes round.\<close>

definition get_unsigned :: "('j, 'x) json_ops_scheme \<Rightarrow> 'j \<Rightarrow> exn + 32 word" where
  "get_unsigned J v = try_bind (get_num J v) (\<lambda>i. Inr (word_of_int i))"

definition read_field :: "('j, 'x) json_ops_scheme \<Rightarrow> ('j \<Rightarrow> exn + 'a) \<Rightarrow> 'j \<Rightarrow> string \<Rightarrow> 'a \<Rightarrow> exn + 'a" where
  "read_field J get j key dflt = (case j_find J j key of None \<Rightarrow> Inr dflt | Some v \<Rightarrow> get v)"

definition read_tools :: "('j, 'x) json_ops_scheme \<Rightarrow> 'j \<Rightarrow> exn + string list" where
  "read_tools J j =
     (case j_find J j ''tools'' of
        None \<Rightarrow> Inr []
      | Some ts \<Rightarrow> if j_is_array J ts then try_map (get_str J) (j_items J ts) else Inr [])"

text \<open>The request in the body; \<open>None\<close> when there is no prompt.\<close>

definition read_create_request :: "('j, 'x) json_ops_scheme \<Rightarrow> string \<Rightarrow> exn + create_request option" where
  "read_create_request J bdy =
     try_bind (j_parse J bdy) (\<lambda>j.
     try_bind (value_str J j ''prompt'' []) (\<lambda>prompt.
       if prompt = [] then Inr None
       else
         try_bind (value_str J j ''system_message'' ''You are a helpful assistant.'') (\<lambda>sys.
         try_bind (value_str J j ''workflow'' ''react'') (\<lambda>wf.
         try_bind (read_tools J j) (\<lambda>tls.
         try_bind (read_field J (get_unsigned J) j ''max_iterations'' (max_iterations default_session_config)) (\<lambda>n.
         try_bind (read_field J (\<lambda>v. try_bind (get_unsigned J v) (\<lambda>w. Inr (uint w))) j ''timeout_seconds''
             (cfg_timeout default_session_config)) (\<lambda>t.
           Inr (Some \<lparr>cr_prompt = prompt, system_message = sys, cr_workflow = wf, cr_tools = tls,
             cr_config = default_session_config\<lparr>max_iterations := n, cfg_timeout := t\<rparr>\<rparr>))))))))"

definition handle_create_session ::
  "('j, 'x) json_ops_scheme \<Rightarrow> (nat \<Rightarrow> nat) \<Rightarrow> 'j factory \<Rightarrow> int \<Rightarrow> string \<Rightarrow> sm \<Rightarrow> (exn + reply) \<times> sm" where
  "handle_create_session J hash fac now bdy m =
     (case read_create_request J bdy of
        Inl e \<Rightarrow> (caught J ''Invalid request: '' e, m)
      | Inr None \<Rightarrow> (Inr (json_reply 400 (error_text (''Missing '' @ [CHR 0x27] @ ''prompt'' @ [CHR 0x27] @ '' field''))), m)
      | Inr (Some req) \<Rightarrow>
          (case create_session hash fac req now m of
             (Inl i, m') \<Rightarrow> (Inr (object_reply J 201 [(''id'', j_int J (int i))]), m')
           | (Inr err, m') \<Rightarrow> (Inr (object_reply J 503 [(''error'', j_string J err)]), m')))"

definition not_found :: reply where
  "not_found = json_reply 404 (error_text ''Session not found'')"

definition info_fields :: "('j, 'x) json_ops_scheme \<Rightarrow> session_info \<Rightarrow> (string \<times> 'j) list" where
  "info_fields J info =
     [(''id'', j_int J (int (si_id info))), (''state'', j_string J (session_state_name (si_state info))),
      (''step_count'', j_int J (uint (si_step_count info)))]"

definition handle_get_session ::
  "('j, 'x) json_ops_scheme \<Rightarrow> (nat \<Rightarrow> nat) \<Rightarrow> string \<Rightarrow> sm \<Rightarrow> exn + reply" where
  "handle_get_session J hash ds m =
     (case stoull ds of
        Inl e \<Rightarrow> caught J ''Invalid session ID: '' e
      | Inr i \<Rightarrow> (case get_session hash i m of
            None \<Rightarrow> Inr not_found
          | Some info \<Rightarrow> Inr (object_reply J 200 (info_fields J info @
              [(''answer'', j_string J (si_final_answer info)), (''error'', j_string J (si_error info))]))))"

definition handle_delete_session ::
  "('j, 'x) json_ops_scheme \<Rightarrow> (nat \<Rightarrow> nat) \<Rightarrow> string \<Rightarrow> sm \<Rightarrow> (exn + reply) \<times> sm" where
  "handle_delete_session J hash ds m =
     (case stoull ds of
        Inl e \<Rightarrow> (caught J ''Invalid session ID: '' e, m)
      | Inr i \<Rightarrow>
          let (cancelled, m') = cancel_session hash i m
          in (Inr (if cancelled then object_reply J 200 [(''cancelled'', j_bool J True)] else not_found), m'))"

text \<open>
  The list is read key by key: \<open>view 0\<close> is the manager when the keys are taken, \<open>view (k + 1)\<close> when the \<open>k\<close>-th is looked up, so a
  session that a collection removes in between is left out.
\<close>

definition handle_list_sessions :: "('j, 'x) json_ops_scheme \<Rightarrow> (nat \<Rightarrow> nat) \<Rightarrow> (nat \<Rightarrow> sm) \<Rightarrow> reply" where
  "handle_list_sessions J hash view =
     object_reply J 200
       [(''sessions'', j_array J (map (\<lambda>info. j_object J (info_fields J info))
          (List.map_filter (\<lambda>(k, i). get_session hash i (view (k + 1))) (enumerate 0 (list_sessions (view 0))))))]"

definition handle_health :: "('j, 'x) json_ops_scheme \<Rightarrow> sm \<Rightarrow> reply" where
  "handle_health J m =
     object_reply J 200 [(''status'', j_string J ''ok''), (''active_sessions'', j_int J (int (active_count m)))]"

definition handle_metrics :: "('j, 'x) json_ops_scheme \<Rightarrow> metrics \<Rightarrow> sm \<Rightarrow> reply" where
  "handle_metrics J mt m =
     object_reply J 200 (metrics_fields J mt @ [(''active_sessions'', j_int J (int (active_count m)))])"

subsection \<open>The event stream\<close>

definition sse_event :: "string \<Rightarrow> string \<Rightarrow> string" where
  "sse_event name data = ''event: '' @ name @ nl @ ''data: '' @ data @ nl @ nl"

definition state_event :: "('j, 'x) json_ops_scheme \<Rightarrow> session_info \<Rightarrow> string" where
  "state_event J info =
     sse_event ''state'' (j_dump J 0 (j_object J (info_fields J info @
       (if si_final_answer info \<noteq> [] then [(''answer'', j_string J (si_final_answer info))] else []) @
       (if si_error info \<noteq> [] then [(''error'', j_string J (si_error info))] else []))))"

definition gone_event :: string where
  "gone_event = sse_event ''error'' (error_text ''Session not found'')"

definition done_event :: string where
  "done_event = sse_event ''done'' ''{}''"

type_synonym progress = "session_state \<times> 32 word"

definition progress_of :: "session_info \<Rightarrow> progress" where
  "progress_of info = (si_state info, si_step_count info)"

definition info_terminal :: "session_info \<Rightarrow> bool" where
  "info_terminal info \<longleftrightarrow> si_state info = COMPLETED \<or> si_state info = FAILED \<or> si_state info = CANCELLED"

text \<open>
  One call of the content provider: what it hands to the sink, and the last progress reported when it answers
  \<open>true\<close>, or \<open>None\<close> when it answers \<open>false\<close>. \<open>accepts\<close> is the answer of \<open>sink.write\<close>.
\<close>

definition sse_poll ::
  "('j, 'x) json_ops_scheme \<Rightarrow> progress \<Rightarrow> session_info option \<Rightarrow> bool \<Rightarrow> string list \<times> progress option" where
  "sse_poll J last_seen found accepts =
     (case found of
        None \<Rightarrow> ([gone_event], None)
      | Some info \<Rightarrow>
          if progress_of info \<noteq> last_seen then
            if \<not> accepts then ([state_event J info], None)
            else if info_terminal info then ([state_event J info, done_event], None)
            else ([state_event J info], Some (progress_of info))
          else ([], Some last_seen))"

fun sse_run ::
  "('j, 'x) json_ops_scheme \<Rightarrow> progress \<Rightarrow> (session_info option \<times> bool) list \<Rightarrow> string list \<times> progress option" where
  "sse_run J last_seen [] = ([], Some last_seen)"
| "sse_run J last_seen ((found, accepts) # later) =
     (case sse_poll J last_seen found accepts of
        (sent, None) \<Rightarrow> (sent, None)
      | (sent, Some p) \<Rightarrow> (case sse_run J p later of (sent', r) \<Rightarrow> (sent @ sent', r)))"

definition sse_start :: progress where
  "sse_start = (CREATED, 0)"

definition sse_headers :: "(string \<times> string) list" where
  "sse_headers = [(''Cache-Control'', ''no-cache''), (''Connection'', ''keep-alive''), (''X-Accel-Buffering'', ''no'')]"

text \<open>The left is a plain reply, the right the headers of a stream.\<close>

definition handle_subscribe :: "(nat \<Rightarrow> nat) \<Rightarrow> string \<Rightarrow> sm \<Rightarrow> reply + (string \<times> string) list" where
  "handle_subscribe hash ds m =
     (case stoull ds of
        Inl e \<Rightarrow> Inl (json_reply 400 (error_text ''Invalid session ID''))
      | Inr i \<Rightarrow> (case get_session hash i m of None \<Rightarrow> Inl not_found | Some info \<Rightarrow> Inr sse_headers))"

subsection \<open>Routes and the collection thread\<close>

datatype verb = GET | POST | DELETE

datatype route =
  To_create | To_list | To_get string | To_delete string | To_health | To_metrics | To_subscribe string

text \<open>The patterns \<open>/api/sessions/(\d+)\<close> and \<open>/api/sessions/(\d+)/subscribe\<close>, matched against the whole path.\<close>

definition match_id :: "string \<Rightarrow> string \<Rightarrow> string option" where
  "match_id suffix path =
     (case strip_prefix ''/api/sessions/'' path of
        None \<Rightarrow> None
      | Some r \<Rightarrow>
          if takeWhile is_digit r \<noteq> [] \<and> dropWhile is_digit r = suffix then Some (takeWhile is_digit r) else None)"

definition route_of :: "verb \<Rightarrow> string \<Rightarrow> route option" where
  "route_of v path =
     (case v of
        POST \<Rightarrow> if path = ''/api/sessions'' then Some To_create else None
      | GET \<Rightarrow>
          if path = ''/api/sessions'' then Some To_list
          else (case match_id [] path of
              Some ds \<Rightarrow> Some (To_get ds)
            | None \<Rightarrow>
                if path = ''/health'' then Some To_health
                else if path = ''/api/metrics'' then Some To_metrics
                else map_option To_subscribe (match_id ''/subscribe'' path))
      | DELETE \<Rightarrow> map_option To_delete (match_id [] path))"

datatype served = Replied "exn + reply" | Streaming "(string \<times> string) list" | No_route

text \<open>A request served while nothing else runs: the list of the sessions sees one state of the manager.\<close>

definition serve ::
  "('j, 'x) json_ops_scheme \<Rightarrow> (nat \<Rightarrow> nat) \<Rightarrow> 'j factory \<Rightarrow> metrics \<Rightarrow> int \<Rightarrow> verb \<Rightarrow> string \<Rightarrow> string \<Rightarrow> sm \<Rightarrow> served \<times> sm" where
  "serve J hash fac mt now v path bdy m =
     (case route_of v path of
        None \<Rightarrow> (No_route, m)
      | Some To_create \<Rightarrow> apfst Replied (handle_create_session J hash fac now bdy m)
      | Some To_list \<Rightarrow> (Replied (Inr (handle_list_sessions J hash (\<lambda>_. m))), m)
      | Some (To_get ds) \<Rightarrow> (Replied (handle_get_session J hash ds m), m)
      | Some (To_delete ds) \<Rightarrow> apfst Replied (handle_delete_session J hash ds m)
      | Some To_health \<Rightarrow> (Replied (Inr (handle_health J m)), m)
      | Some To_metrics \<Rightarrow> (Replied (Inr (handle_metrics J mt m)), m)
      | Some (To_subscribe ds) \<Rightarrow>
          ((case handle_subscribe hash ds m of Inl r \<Rightarrow> Replied (Inr r) | Inr hs \<Rightarrow> Streaming hs), m))"

text \<open>
  One iteration of the collection thread: whether it goes on, and the manager. \<open>stop1\<close> and \<open>stop2\<close> are the flag before and after the
  sleep of 60 seconds.
\<close>

definition gc_pass :: "(nat \<Rightarrow> nat) \<Rightarrow> bool \<Rightarrow> bool \<Rightarrow> int \<Rightarrow> sm \<Rightarrow> bool \<times> sm" where
  "gc_pass hash stop1 stop2 now m =
     (if stop1 then (False, m) else if stop2 then (True, m) else (True, snd (sm_gc hash now 600 m)))"

subsection \<open>Identifiers in paths\<close>

lemma digits_value_snoc: "digits_value (ds @ [d]) = 10 * digits_value ds + (of_char d - 48)"
  by (simp add: digits_value_def)

lemma digit_char_value: "d < 10 \<Longrightarrow> of_char (digit_char d) = 48 + d"
  by (simp add: digit_char_def)

lemma digits_value_to_string: "digits_value (to_string_nat n) = n"
proof (induction n rule: to_string_nat.induct)
  case (1 n)
  show ?case
  proof (cases "n < 10")
    case True
    then show ?thesis by (simp add: to_string_nat.simps [of n] digits_value_def digit_char_value)
  next
    case False
    with 1 show ?thesis by (simp add: to_string_nat.simps [of n] digits_value_snoc digit_char_value)
  qed
qed

lemma to_string_nat_digits: "c \<in> set (to_string_nat n) \<Longrightarrow> is_digit c"
proof (induction n rule: to_string_nat.induct)
  case (1 n)
  have d: "is_digit (digit_char k)" if "k < 10" for k using that by (simp add: is_digit_def digit_char_value)
  from 1(2) show ?case
    by (subst (asm) to_string_nat.simps) (use 1(1) d in \<open>auto split: if_splits\<close>)
qed

lemma stoull_to_string: "n < 2 ^ 64 \<Longrightarrow> stoull (to_string_nat n) = Inr n"
  by (simp add: stoull_def digits_value_to_string)

definition session_path :: "nat \<Rightarrow> string" where
  "session_path i = ''/api/sessions/'' @ to_string_nat i"

lemma match_session_path: "match_id [] (session_path i) = Some (to_string_nat i)"
proof -
  have all: "takeWhile is_digit (to_string_nat i) = to_string_nat i" "dropWhile is_digit (to_string_nat i) = []"
    using to_string_nat_digits [of _ i] by (auto simp: takeWhile_eq_all_conv)
  show ?thesis unfolding match_id_def session_path_def strip_prefix_self by (simp add: all)
qed

lemma route_session_path:
  "route_of GET (session_path i) = Some (To_get (to_string_nat i))"
  "route_of DELETE (session_path i) = Some (To_delete (to_string_nat i))"
  by (simp_all add: route_of_def match_session_path) (simp add: session_path_def)

text \<open>A request for a session by its own number reaches the handler with that number.\<close>

lemma serve_get:
  "i < 2 ^ 64 \<Longrightarrow> serve J hash fac mt now GET (session_path i) bdy m =
     (Replied (Inr (case get_session hash i m of
        None \<Rightarrow> not_found
      | Some info \<Rightarrow> object_reply J 200 (info_fields J info @
          [(''answer'', j_string J (si_final_answer info)), (''error'', j_string J (si_error info))]))), m)"
  by (simp add: serve_def route_session_path handle_get_session_def stoull_to_string split: option.splits)

lemma serve_delete:
  "i < 2 ^ 64 \<Longrightarrow> serve J hash fac mt now DELETE (session_path i) bdy m =
     (Replied (Inr (if fst (cancel_session hash i m) then object_reply J 200 [(''cancelled'', j_bool J True)] else not_found)),
      snd (cancel_session hash i m))"
  by (simp add: serve_def route_session_path handle_delete_session_def stoull_to_string split: prod.splits)

subsection \<open>What the stream sends\<close>

text \<open>
  The reference: the stream follows a session while it is there and not terminal, and reports those
  observations whose progress differs from that of the observation before.
\<close>

definition live :: "session_info option \<Rightarrow> bool" where
  "live found \<longleftrightarrow> (case found of None \<Rightarrow> False | Some info \<Rightarrow> \<not> info_terminal info)"

definition changes :: "progress \<Rightarrow> session_info list \<Rightarrow> session_info list" where
  "changes p infos = map snd (filter (\<lambda>(q, info). q \<noteq> progress_of info) (zip (p # map progress_of infos) infos))"

definition farewell :: "('j, 'x) json_ops_scheme \<Rightarrow> session_info option list \<Rightarrow> string list" where
  "farewell J rest =
     (case rest of
        [] \<Rightarrow> []
      | None # _ \<Rightarrow> [gone_event]
      | Some info # _ \<Rightarrow> [state_event J info, done_event])"

definition underway :: "progress \<Rightarrow> bool" where
  "underway p \<longleftrightarrow> fst p \<notin> {COMPLETED, FAILED, CANCELLED}"

lemma changes_simps [simp]:
  "changes p [] = []"
  "changes p (i # is) = (if p \<noteq> progress_of i then [i] else []) @ changes (progress_of i) is"
  by (simp_all add: changes_def)

lemma live_underway: "live (Some info) \<longleftrightarrow> underway (progress_of info)"
  by (simp add: live_def info_terminal_def underway_def progress_of_def)

lemma sse_run_reference:
  "underway p \<Longrightarrow> sse_run J p (map (\<lambda>found. (found, True)) os) =
     (map (state_event J) (changes p (map the (takeWhile live os))) @ farewell J (dropWhile live os),
      if list_all live os then Some (last (p # map (progress_of \<circ> the) os)) else None)"
proof (induction os arbitrary: p)
  case (Cons found os)
  show ?case
  proof (cases found)
    case None
    then show ?thesis by (simp add: sse_poll_def live_def farewell_def)
  next
    case (Some info)
    show ?thesis
    proof (cases "live found")
      case True
      then have "underway (progress_of info)" using Some by (simp add: live_underway)
      note ih = Cons.IH [OF this]
      have "sse_poll J p found True = (map (state_event J) (if p \<noteq> progress_of info then [info] else []), Some (progress_of info))"
        using Some True by (auto simp: sse_poll_def live_def)
      with Some True show ?thesis by (simp add: ih o_def)
    next
      case False
      then have "info_terminal info" using Some by (simp add: live_def)
      moreover have "progress_of info \<noteq> p" using Some False Cons.prems by (auto simp: live_underway)
      ultimately show ?thesis using Some False by (simp add: sse_poll_def farewell_def)
    qed
  qed
qed (simp add: farewell_def)

text \<open>
  C14. What a subscriber sees while the connection holds, whatever the polls observe: one event for each observation whose state or step
  count differs from the observation before (starting from \<open>created\<close> with no step), in order, up to the first one that finds the session gone or terminal; then the closing event and the
  end of the stream. The stream stays open exactly as long as every poll found the session there and not terminal.
\<close>

theorem subscribe_streams_changes:
  "sse_run J sse_start (map (\<lambda>found. (found, True)) os) =
     (map (state_event J) (changes sse_start (map the (takeWhile live os))) @ farewell J (dropWhile live os),
      if list_all live os then Some (last (sse_start # map (progress_of \<circ> the) os)) else None)"
  by (rule sse_run_reference) (simp add: underway_def sse_start_def)


definition posted_json :: "jval json_ops" where
  "posted_json = plain_json\<lparr>j_parse := (\<lambda>s. Inr (JObject [(''prompt'', JString s), (''max_iterations'', JInt (-1))]))\<rparr>"

lemma posted_request:
  "read_create_request posted_json ''hello'' = Inr (Some \<lparr>cr_prompt = ''hello'', system_message = ''You are a helpful assistant.'',
     cr_workflow = ''react'', cr_tools = [], cr_config = default_session_config\<lparr>max_iterations := - 1\<rparr>\<rparr>)"
  by (simp add: read_create_request_def posted_json_def plain_json_def value_str_def get_str_def read_tools_def read_field_def
      get_unsigned_def get_num_def default_session_config_def)

definition posted_sm :: sm where
  "posted_sm = sm_run (\<lambda>i. i) (main_factory posted_json) echo_registry [] (sm_new 4 2)"


end
