(* ===== verification/Server_Lifecycle.thy ===== *)
theory Server_Lifecycle
  imports Http_Server
begin

section \<open>Starting and stopping the server (src/src/server/http_server.cpp, src/src/main.cpp)\<close>

text \<open>
  The server mode of \<open>main\<close>, the collection thread and the calls of \<open>stop\<close> as a step relation with one step per access to shared
  state. \<open>stop\<close> is called by the destructor of the server (call 0) and by the signal handler of \<open>main\<close> (the other calls), which runs on any thread
  and looks at the global pointer first; so several calls may be under way, also before the thread exists. \<open>listen\<close> of the HTTP library may
  return at any time, as it does when it is stopped or when the port is taken. Requests are served at any time, one after the other. The sleep of the thread is one step.
\<close>

datatype gc_pc = G_off | G_test | G_sleep | G_retest | G_collect | G_done

datatype stop_pc = P_idle | P_called | P_flag | P_joinable | P_join | P_returned | P_failed

datatype main_pc = M_boot | M_listening | M_returned | M_leaving

record server =
  mgr :: sm
  main_at :: main_pc
  g_server :: bool
  gc_stop :: bool
  joinable :: bool
  collector :: gc_pc
  stoppers :: "nat \<Rightarrow> stop_pc"

datatype server_event = Request verb string string | Collected nat | Stopped nat

text \<open>The server has been built on a manager, the global pointer is set and the signal handler installed.\<close>

definition server_init :: "sm \<Rightarrow> server \<Rightarrow> bool" where
  "server_init m s \<longleftrightarrow> s = \<lparr>mgr = m, main_at = M_boot, g_server = True, gc_stop = False, joinable = False, collector = G_off,
     stoppers = (\<lambda>_. P_idle)\<rparr>"

definition may_call_stop :: "server \<Rightarrow> nat \<Rightarrow> bool" where
  "may_call_stop s i \<longleftrightarrow> (if i = 0 then main_at s = M_leaving else g_server s)"

inductive server_step ::
  "('j, 'x) json_ops_scheme \<Rightarrow> (nat \<Rightarrow> nat) \<Rightarrow> 'j factory \<Rightarrow> server \<Rightarrow> server_event label \<Rightarrow> server \<Rightarrow> bool" for J hash fac where
  start: "main_at s = M_boot \<Longrightarrow>
     server_step J hash fac s Tau (s\<lparr>main_at := M_listening, collector := G_test, joinable := True\<rparr>)"
| listen_returns: "main_at s = M_listening \<Longrightarrow> server_step J hash fac s Tau (s\<lparr>main_at := M_returned\<rparr>)"
| forget: "main_at s = M_returned \<Longrightarrow> server_step J hash fac s Tau (s\<lparr>main_at := M_leaving, g_server := False\<rparr>)"
| request: "main_at s \<noteq> M_boot \<Longrightarrow>
     server_step J hash fac s (Act (Request v path bdy)) (s\<lparr>mgr := snd (serve J hash fac mt now v path bdy (mgr s))\<rparr>)"
| test: "collector s = G_test \<Longrightarrow> server_step J hash fac s Tau (s\<lparr>collector := if gc_stop s then G_done else G_sleep\<rparr>)"
| wake: "collector s = G_sleep \<Longrightarrow> server_step J hash fac s Tau (s\<lparr>collector := G_retest\<rparr>)"
| retest: "collector s = G_retest \<Longrightarrow>
     server_step J hash fac s Tau (s\<lparr>collector := if gc_stop s then G_test else G_collect\<rparr>)"
| collect: "collector s = G_collect \<Longrightarrow> sm_gc hash now 600 (mgr s) = (n, m') \<Longrightarrow>
     server_step J hash fac s (Act (Collected n)) (s\<lparr>mgr := m', collector := G_test\<rparr>)"
| stop_called: "stoppers s i = P_idle \<Longrightarrow> may_call_stop s i \<Longrightarrow>
     server_step J hash fac s Tau (s\<lparr>stoppers := (stoppers s)(i := P_called)\<rparr>)"
| stop_listening: "stoppers s i = P_called \<Longrightarrow>
     server_step J hash fac s Tau (s\<lparr>stoppers := (stoppers s)(i := P_flag)\<rparr>)"
| stop_flag: "stoppers s i = P_flag \<Longrightarrow>
     server_step J hash fac s Tau (s\<lparr>gc_stop := True, stoppers := (stoppers s)(i := P_joinable)\<rparr>)"
| stop_joinable: "stoppers s i = P_joinable \<Longrightarrow> joinable s \<Longrightarrow>
     server_step J hash fac s Tau (s\<lparr>stoppers := (stoppers s)(i := P_join)\<rparr>)"
| stop_joined: "stoppers s i = P_joinable \<Longrightarrow> \<not> joinable s \<Longrightarrow>
     server_step J hash fac s (Act (Stopped i)) (s\<lparr>stoppers := (stoppers s)(i := P_returned)\<rparr>)"
| join: "stoppers s i = P_join \<Longrightarrow> collector s = G_done \<Longrightarrow> joinable s \<Longrightarrow>
     server_step J hash fac s (Act (Stopped i)) (s\<lparr>joinable := False, stoppers := (stoppers s)(i := P_returned)\<rparr>)"
| join_again: "stoppers s i = P_join \<Longrightarrow> \<not> joinable s \<Longrightarrow>
     server_step J hash fac s Tau (s\<lparr>stoppers := (stoppers s)(i := P_failed)\<rparr>)"

inductive_cases server_stepE: "server_step J hash fac s l t"

text \<open>
  The thread is off exactly before \<open>start\<close>, and when it runs and is not joinable any more it has ended. A call that has set the flag keeps it set; when one has returned,
  the thread has ended, or has not begun and ends at its first test. The destructor's call comes after \<open>start\<close>, so its return means the end of the thread.
\<close>

definition thread_ok :: "server \<Rightarrow> bool" where
  "thread_ok s \<longleftrightarrow> (main_at s = M_boot \<longleftrightarrow> collector s = G_off) \<and> (joinable s \<longrightarrow> collector s \<noteq> G_off) \<and>
     (joinable s \<or> collector s = G_off \<or> collector s = G_done)"

definition flag_ok :: "server \<Rightarrow> bool" where
  "flag_ok s \<longleftrightarrow> gc_stop s \<or> (\<forall>i. stoppers s i \<in> {P_idle, P_called, P_flag})"

definition destructor_ok :: "server \<Rightarrow> bool" where
  "destructor_ok s \<longleftrightarrow> (collector s = G_off \<longrightarrow> stoppers s 0 = P_idle) \<and> (stoppers s 0 = P_returned \<longrightarrow> collector s = G_done)"

definition returned_ok :: "server \<Rightarrow> bool" where
  "returned_ok s \<longleftrightarrow> collector s \<in> {G_off, G_test, G_done} \<or> (\<forall>i. stoppers s i \<noteq> P_returned)"

definition server_ok :: "server \<Rightarrow> bool" where
  "server_ok s \<longleftrightarrow> thread_ok s \<and> flag_ok s \<and> destructor_ok s \<and> returned_ok s"

lemma thread_ok_step: "server_step J hash fac s l t \<Longrightarrow> thread_ok s \<Longrightarrow> thread_ok t"
  by (erule server_stepE) (auto simp: thread_ok_def)

lemma returned_flag: "flag_ok s \<Longrightarrow> stoppers s i \<in> {P_joinable, P_join, P_returned, P_failed} \<Longrightarrow> gc_stop s"
  by (auto simp: flag_ok_def dest: spec [of _ i])

lemma flag_ok_step:
  assumes step: "server_step J hash fac s l t" and ok: "flag_ok s"
  shows "flag_ok t"
proof (cases "gc_stop s")
  case True
  show ?thesis using step by (rule server_stepE) (simp_all add: flag_ok_def True)
next
  case False
  then have "stoppers s i \<notin> {P_joinable, P_join, P_returned, P_failed}" for i using returned_flag [OF ok] by blast
  note early = this
  show ?thesis using step by (rule server_stepE) (use early ok in \<open>auto simp: flag_ok_def\<close>)
qed

lemma destructor_ok_step: "server_step J hash fac s l t \<Longrightarrow> thread_ok s \<Longrightarrow> destructor_ok s \<Longrightarrow> destructor_ok t"
  by (erule server_stepE) (auto simp: thread_ok_def destructor_ok_def may_call_stop_def)

lemma returned_ok_step: "server_step J hash fac s l t \<Longrightarrow> thread_ok s \<Longrightarrow> flag_ok s \<Longrightarrow> returned_ok s \<Longrightarrow> returned_ok t"
  by (erule server_stepE) (auto simp: thread_ok_def returned_ok_def dest: returned_flag)

lemma server_ok_step: "server_ok s \<Longrightarrow> server_step J hash fac s l t \<Longrightarrow> server_ok t"
  unfolding server_ok_def by (blast intro: thread_ok_step flag_ok_step destructor_ok_step returned_ok_step)

lemmas server_ok_defs = server_ok_def thread_ok_def flag_ok_def destructor_ok_def returned_ok_def

interpretation sv: lts_invariant "server_init m" "server_step J hash fac" server_ok for m J hash fac
proof
  show "server_ok s" if "server_init m s" for s using that by (simp add: server_init_def server_ok_defs)
  show "server_ok t" if "server_ok s" "server_step J hash fac s l t" for s l t using that by (rule server_ok_step)
qed

text \<open>How many collections the thread may still make once the flag is set.\<close>

definition pending_collection :: "gc_pc \<Rightarrow> nat" where
  "pending_collection pc = (if pc = G_collect then 1 else 0)"

lemma pending_collection_le: "pending_collection pc \<le> 1"
  by (simp add: pending_collection_def)

fun collected :: "server_event \<Rightarrow> nat" where
  "collected (Collected n) = 1"
| "collected _ = 0"

lemma stopping_step:
  "server_step J hash fac s l t \<Longrightarrow> server_ok s \<Longrightarrow> gc_stop s \<Longrightarrow>
     gc_stop t \<and> pending_collection (collector t) + (case l of Tau \<Rightarrow> 0 | Act e \<Rightarrow> collected e) \<le> pending_collection (collector s) \<and>
     (collector s = G_done \<longrightarrow> collector t = G_done)"
  by (erule server_stepE) (auto simp: pending_collection_def server_ok_def thread_ok_def split: if_splits)

lemma stopping_trace:
  "trace (server_step J hash fac) s es t \<Longrightarrow> server_ok s \<Longrightarrow> gc_stop s \<Longrightarrow>
     gc_stop t \<and> pending_collection (collector t) + sum_list (map collected es) \<le> pending_collection (collector s) \<and>
     (collector s = G_done \<longrightarrow> collector t = G_done)"
proof (induction rule: trace.induct)
  case (trace_tau s es t u)
  then show ?case using stopping_step [OF trace_tau.hyps(2) sv.trace_inv [OF trace_tau.hyps(1)]] by auto
next
  case (trace_act s es t e u)
  then show ?case using stopping_step [OF trace_act.hyps(2) sv.trace_inv [OF trace_act.hyps(1)]] by auto
qed simp


text \<open>
  A shutdown by a signal that another thread receives: \<open>listen\<close> returns while the handler's call 1 is under way, and the destructor makes call 0.
\<close>

abbreviation server_at :: "sm \<Rightarrow> main_pc \<Rightarrow> bool \<Rightarrow> bool \<Rightarrow> gc_pc \<Rightarrow> stop_pc \<Rightarrow> stop_pc \<Rightarrow> server" where
  "server_at m pc b j c p q \<equiv> \<lparr>mgr = m, main_at = pc, g_server = (pc \<noteq> M_leaving), gc_stop = b, joinable = j, collector = c,
     stoppers = (\<lambda>_. P_idle)(0 := p, 1 := q)\<rparr>"

lemma two_stops_joining:
  "reachable (server_init m) (server_step J hash fac) (server_at m M_leaving True True G_done P_join P_join)"
proof -
  let ?reach = "reachable (server_init m) (server_step J hash fac)" and ?at = "server_at m"
  have "?reach (?at M_boot False False G_off P_idle P_idle)" by (rule reach_init) (simp add: server_init_def)
  from reach_step [OF this server_step.start] have "?reach (?at M_listening False True G_test P_idle P_idle)" by simp
  from reach_step [OF this server_step.stop_called [where i = 1]] have "?reach (?at M_listening False True G_test P_idle P_called)" by (simp add: may_call_stop_def)
  from reach_step [OF this server_step.stop_listening [where i = 1]] have "?reach (?at M_listening False True G_test P_idle P_flag)" by simp
  from reach_step [OF this server_step.stop_flag [where i = 1]] have "?reach (?at M_listening True True G_test P_idle P_joinable)" by simp
  from reach_step [OF this server_step.listen_returns] have "?reach (?at M_returned True True G_test P_idle P_joinable)" by simp
  from reach_step [OF this server_step.forget] have "?reach (?at M_leaving True True G_test P_idle P_joinable)" by simp
  from reach_step [OF this server_step.stop_called [where i = 0]] have "?reach (?at M_leaving True True G_test P_called P_joinable)" by (simp add: fun_upd_twist may_call_stop_def)
  from reach_step [OF this server_step.stop_listening [where i = 0]] have "?reach (?at M_leaving True True G_test P_flag P_joinable)" by (simp add: fun_upd_twist may_call_stop_def)
  from reach_step [OF this server_step.stop_flag [where i = 0]] have "?reach (?at M_leaving True True G_test P_joinable P_joinable)" by (simp add: fun_upd_twist may_call_stop_def)
  from reach_step [OF this server_step.stop_joinable [where i = 0]] have "?reach (?at M_leaving True True G_test P_join P_joinable)" by (simp add: fun_upd_twist may_call_stop_def)
  from reach_step [OF this server_step.stop_joinable [where i = 1]] have "?reach (?at M_leaving True True G_test P_join P_join)" by simp
  from reach_step [OF this server_step.test] show ?thesis by simp
qed

lemma destructor_returned:
  "reachable (server_init m) (server_step J hash fac) (server_at m M_leaving True False G_done P_returned P_join)"
  using reach_step [OF two_stops_joining server_step.join [where i = 0]] by (simp add: fun_upd_twist)

text \<open>
  The handler's call has seen a joinable thread and joins it after the destructor's has: \<open>join\<close> of a thread that is not joinable throws
  \<open>std::system_error\<close>. Overlapping calls of \<open>stop\<close> are not safe.
\<close>

lemma overlapping_stop_fails:
  "reachable (server_init m) (server_step J hash fac) (server_at m M_leaving True False G_done P_returned P_failed)"
  using reach_step [OF destructor_returned server_step.join_again [where i = 1]] by simp


end
