(* ===== verification/Config.thy ===== *)
theory Config
  imports Http_Server Semaphore Complex_Main
begin

section \<open>The configuration file (src/src/utils/config.h, config.cpp, json.h)\<close>

text \<open>
  Reading the configuration and forcing its values into range. The numbers of the file are finite, so the two floating-point rates are
  rational numbers; \<open>dbl\<close> is \<open>get<double>()\<close> of the JSON library and \<open>files\<close> gives the text of a file that can be opened.
\<close>

record config =
  cfg_num_threads :: "32 word"
  max_concurrent_llm_calls :: "32 word"
  llm_rate_limit :: rat
  llm_rate_burst :: rat
  cfg_max_sessions :: "32 word"
  default_max_iterations :: "32 word"
  default_timeout_seconds :: "32 word"
  log_level :: string
  host :: string
  port :: "16 word"

definition default_config :: config where
  "default_config =
     \<lparr>cfg_num_threads = 0, max_concurrent_llm_calls = 8, llm_rate_limit = 60, llm_rate_burst = 10, cfg_max_sessions = 1000,
      default_max_iterations = 15, default_timeout_seconds = 300, log_level = ''info'', host = ''127.0.0.1'', port = 8080\<rparr>"

definition parse_file :: "('j, 'x) json_ops_scheme \<Rightarrow> (string \<Rightarrow> string option) \<Rightarrow> string \<Rightarrow> exn + 'j" where
  "parse_file J files path =
     (case files path of
        None \<Rightarrow> Inl (Runtime_error (''Cannot open JSON file: '' @ path))
      | Some s \<Rightarrow> (case j_parse J s of
            Inl (Json_exception e) \<Rightarrow> Inl (Runtime_error (''JSON parse error in '' @ path @ '': '' @ e))
          | r \<Rightarrow> r))"

subsection \<open>Reading the fields\<close>

text \<open>\<open>get<uint16_t>()\<close> comes round at 16 bits.\<close>

definition get_port :: "('j, 'x) json_ops_scheme \<Rightarrow> 'j \<Rightarrow> exn + 16 word" where
  "get_port J v = try_bind (get_num J v) (\<lambda>i. Inr (word_of_int i))"

definition get_dbl :: "('j \<Rightarrow> rat option) \<Rightarrow> 'j \<Rightarrow> exn + rat" where
  "get_dbl dbl v = (case dbl v of None \<Rightarrow> Inl (Json_exception ''type must be number'') | Some d \<Rightarrow> Inr d)"

definition read_cfg ::
  "('j, 'x) json_ops_scheme \<Rightarrow> 'j \<Rightarrow> string \<Rightarrow> ('j \<Rightarrow> exn + 'a) \<Rightarrow> ('a \<Rightarrow> config \<Rightarrow> config) \<Rightarrow> config \<Rightarrow> exn + config" where
  "read_cfg J j key get assign cfg =
     (case j_find J j key of None \<Rightarrow> Inr cfg | Some v \<Rightarrow> try_bind (get v) (\<lambda>x. Inr (assign x cfg)))"

definition read_all :: "('j, 'x) json_ops_scheme \<Rightarrow> ('j \<Rightarrow> rat option) \<Rightarrow> 'j \<Rightarrow> config \<Rightarrow> exn + config" where
  "read_all J dbl j cfg =
     try_bind (read_cfg J j ''num_threads'' (get_unsigned J) (\<lambda>x. cfg_num_threads_update (\<lambda>_. x)) cfg)
    (\<lambda>c. try_bind (read_cfg J j ''max_concurrent_llm_calls'' (get_unsigned J) (\<lambda>x. max_concurrent_llm_calls_update (\<lambda>_. x)) c)
    (\<lambda>c. try_bind (read_cfg J j ''llm_rate_limit'' (get_dbl dbl) (\<lambda>x. llm_rate_limit_update (\<lambda>_. x)) c)
    (\<lambda>c. try_bind (read_cfg J j ''llm_rate_burst'' (get_dbl dbl) (\<lambda>x. llm_rate_burst_update (\<lambda>_. x)) c)
    (\<lambda>c. try_bind (read_cfg J j ''max_sessions'' (get_unsigned J) (\<lambda>x. cfg_max_sessions_update (\<lambda>_. x)) c)
    (\<lambda>c. try_bind (read_cfg J j ''default_max_iterations'' (get_unsigned J) (\<lambda>x. default_max_iterations_update (\<lambda>_. x)) c)
    (\<lambda>c. try_bind (read_cfg J j ''default_timeout_seconds'' (get_unsigned J) (\<lambda>x. default_timeout_seconds_update (\<lambda>_. x)) c)
    (\<lambda>c. try_bind (read_cfg J j ''log_level'' (get_str J) (\<lambda>x. log_level_update (\<lambda>_. x)) c)
    (\<lambda>c. try_bind (read_cfg J j ''host'' (get_str J) (\<lambda>x. host_update (\<lambda>_. x)) c)
    (\<lambda>c. read_cfg J j ''port'' (get_port J) (\<lambda>x. port_update (\<lambda>_. x)) c)))))))))"

subsection \<open>Forcing the values into range\<close>

definition clamp :: "config \<Rightarrow> config" where
  "clamp c =
     c\<lparr>cfg_num_threads := if cfg_num_threads c > 1024 then 0 else cfg_num_threads c,
       max_concurrent_llm_calls :=
         if max_concurrent_llm_calls c = 0 \<or> max_concurrent_llm_calls c > 1024 then 8 else max_concurrent_llm_calls c,
       llm_rate_limit := if llm_rate_limit c \<le> 0 \<or> llm_rate_limit c > 10 ^ 6 then 60 else llm_rate_limit c,
       llm_rate_burst := if llm_rate_burst c \<le> 0 \<or> llm_rate_burst c > 10 ^ 6 then 10 else llm_rate_burst c,
       cfg_max_sessions := if cfg_max_sessions c = 0 \<or> cfg_max_sessions c > 100000 then 1000 else cfg_max_sessions c,
       default_max_iterations :=
         if default_max_iterations c = 0 \<or> default_max_iterations c > 10000 then 15 else default_max_iterations c,
       default_timeout_seconds :=
         if default_timeout_seconds c = 0 \<or> default_timeout_seconds c > 86400 then 300 else default_timeout_seconds c,
       port := if port c = 0 then 8080 else port c,
       host := if host c = [] then ''127.0.0.1'' else host c\<rparr>"

text \<open>
  A file that cannot be opened or parsed leaves the defaults; a field of the wrong type throws, since the fields are read outside
  of the \<open>try\<close> block.
\<close>

definition load_config ::
  "('j, 'x) json_ops_scheme \<Rightarrow> ('j \<Rightarrow> rat option) \<Rightarrow> (string \<Rightarrow> string option) \<Rightarrow> string \<Rightarrow> exn + config" where
  "load_config J dbl files path =
     (case parse_file J files path of
        Inl e \<Rightarrow> if is_std_exception e then Inr default_config else Inl e
      | Inr j \<Rightarrow> try_bind (read_all J dbl j default_config) (\<lambda>c. Inr (clamp c)))"

subsection \<open>Valid configurations\<close>

definition valid_config :: "config \<Rightarrow> bool" where
  "valid_config c \<longleftrightarrow>
     cfg_num_threads c \<le> 1024 \<and> 1 \<le> max_concurrent_llm_calls c \<and> max_concurrent_llm_calls c \<le> 1024 \<and>
     0 < llm_rate_limit c \<and> llm_rate_limit c \<le> 10 ^ 6 \<and> 0 < llm_rate_burst c \<and> llm_rate_burst c \<le> 10 ^ 6 \<and>
     1 \<le> cfg_max_sessions c \<and> cfg_max_sessions c \<le> 100000 \<and>
     1 \<le> default_max_iterations c \<and> default_max_iterations c \<le> 10000 \<and>
     1 \<le> default_timeout_seconds c \<and> default_timeout_seconds c \<le> 86400 \<and> port c \<noteq> 0 \<and> host c \<noteq> []"

lemma word_one_le: "1 \<le> w \<longleftrightarrow> w \<noteq> 0" for w :: "'a::len word"
  by (simp add: word_le_nat_alt unat_eq_zero Suc_le_eq word_neq_0_conv word_less_nat_alt)

lemma clamp_valid: "valid_config (clamp c)"
  by (simp add: valid_config_def clamp_def word_one_le not_less not_le)

lemma clamp_fixed: "clamp c = c \<longleftrightarrow> valid_config c"
proof
  show "valid_config c" if "clamp c = c" using clamp_valid [of c] that by simp
  show "clamp c = c" if "valid_config c"
    using that unfolding valid_config_def clamp_def word_one_le by (simp add: leD)
qed

lemma clamp_host: "host (clamp c) = (if host c = [] then ''127.0.0.1'' else host c)"
  by (simp add: clamp_def)

lemma default_valid: "valid_config default_config"
  by (simp add: valid_config_def default_config_def)

lemma load_config_cases:
  assumes "load_config J dbl files path = Inr c"
  obtains (defaults) e where "parse_file J files path = Inl e" "c = default_config"
    | (read) j c0 where "parse_file J files path = Inr j" "read_all J dbl j default_config = Inr c0" "c = clamp c0"
  using assms by (auto simp: load_config_def split: sum.splits if_splits)

lemma small_positive: "1 \<le> w \<Longrightarrow> w \<le> 1024 \<Longrightarrow> 0 <s w" for w :: "32 word"
  by (simp add: sless_unat word_le_nat_alt)


definition small_file :: jval where
  "small_file = JObject [(''num_threads'', JInt (-1)), (''host'', JString ''0.0.0.0''), (''port'', JInt 65536)]"


end
