(* ===== verification/Forge_Main.thy ===== *)
theory Forge_Main
  imports Config Builtin_Tools LLM_Client Session_Manager Semaphore
begin

section \<open>The program (src/src/main.cpp)\<close>

text \<open>
  The command line, the components \<open>main\<close> builds and the run of a single prompt. Log lines are left
  out; the signal handler is a call of \<open>stop\<close> in \<open>Server_Lifecycle\<close>. What the workflow meets depends on the configuration and on the language model's: it is the function \<open>world\<close>.
\<close>

subsection \<open>Banner and usage\<close>

text \<open>The banner, in UTF-8: the box is drawn with characters of three bytes.\<close>

definition box :: "char \<Rightarrow> string" where
  "box c = [CHR 0xE2, CHR 0x95, c]"

definition banner :: string where
  "banner =
     (let bslash = CHR 0x5C; bar = concat (replicate 55 (box (CHR 0x90)));
          row = (\<lambda>l. ''  '' @ box (CHR 0x91) @ l @ box (CHR 0x91) @ nl)
      in nl @ ''  '' @ box (CHR 0x94) @ bar @ box (CHR 0x97) @ nl @
         concat (map row
           [''    _____ ___  ____   ____ _____                      '',
            ''   |  ___/ _ '' @ [bslash] @ ''|  _ '' @ [bslash] @ '' / ___| ____|                     '',
            ''   | |_ | | | | |_) | |  _|  _|                       '',
            ''   |  _|| |_| |  _ <| |_| | |___                      '',
            ''   |_|   '' @ [bslash] @ ''___/|_| '' @ [bslash] @ ''_'' @ [bslash] @ [bslash] @ ''____|_____|                     '',
            ''                                                       '',
            ''   Lock-Free Agent Orchestration Runtime    v1.0.0     '']) @
         ''  '' @ box (CHR 0x9A) @ bar @ box (CHR 0x9D) @ nl @ nl)"

definition usage_text :: string where
  "usage_text =
     concat (map (\<lambda>l. l @ nl)
       [''Usage: forge [OPTIONS]'',
        [],
        ''Modes:'',
        ''  -p, --prompt <text>       Run a single prompt (CLI mode)'',
        ''  -s, --serve               Start HTTP API server'',
        [],
        ''Options:'',
        ''  -c, --config <path>       Path to JSON config file'',
        ''  -w, --workflow <name>     Workflow pattern (default: react)'',
        ''  -t, --tools <path>        Tool selection JSON file'',
        ''  -m, --model <name>        LLM model override'',
        ''  -k, --api-key <key>       API key (or set OPENAI_API_KEY env)'',
        ''      --api-base <url>      API base URL (default: https://api.openai.com)'',
        ''      --max-iterations <n>  Max ReAct steps (default: 15)'',
        ''  -v, --verbose             Enable debug logging'',
        ''  -h, --help                Show this help''])"

subsection \<open>The command line\<close>

record options =
  config_path :: string
  workflow_name :: string
  prompt :: string
  tools_path :: string
  opt_model :: string
  opt_api_key :: string
  opt_api_base :: string
  opt_max_iterations :: int
  verbose :: bool
  serve_mode :: bool

definition default_options :: options where
  "default_options =
     \<lparr>config_path = [], workflow_name = ''react'', prompt = [], tools_path = [], opt_model = [], opt_api_key = [], opt_api_base = [],
      opt_max_iterations = -1, verbose = False, serve_mode = False\<rparr>"

text \<open>\<open>std::stoi\<close>: white space, a sign, digits, and whatever follows is ignored.\<close>

definition stoi :: "string \<Rightarrow> exn + int" where
  "stoi s =
     (let s1 = dropWhile is_space s;
          neg = (s1 \<noteq> [] \<and> hd s1 = CHR ''-'');
          s2 = (if s1 \<noteq> [] \<and> (hd s1 = CHR ''-'' \<or> hd s1 = CHR ''+'') then tl s1 else s1);
          ds = takeWhile is_digit s2;
          v = (if neg then - int (digits_value ds) else int (digits_value ds))
      in if ds = [] then Inl (Invalid_argument ''stoi'')
         else if v < - (2 ^ 31) \<or> v \<ge> 2 ^ 31 then Inl (Out_of_range ''stoi'')
         else Inr v)"

datatype parsed = Parsed options | Help | Unknown_option string | Missing_value string | Uncaught exn

text \<open>The option that takes a value, as the assignment it makes (which may throw).\<close>

definition value_option :: "string \<Rightarrow> (string \<Rightarrow> options \<Rightarrow> exn + options) option" where
  "value_option arg =
     (if arg = ''-c'' \<or> arg = ''--config'' then Some (\<lambda>v opts. Inr (opts\<lparr>config_path := v\<rparr>))
      else if arg = ''-w'' \<or> arg = ''--workflow'' then Some (\<lambda>v opts. Inr (opts\<lparr>workflow_name := v\<rparr>))
      else if arg = ''-p'' \<or> arg = ''--prompt'' then Some (\<lambda>v opts. Inr (opts\<lparr>prompt := v\<rparr>))
      else if arg = ''-t'' \<or> arg = ''--tools'' then Some (\<lambda>v opts. Inr (opts\<lparr>tools_path := v\<rparr>))
      else if arg = ''-m'' \<or> arg = ''--model'' then Some (\<lambda>v opts. Inr (opts\<lparr>opt_model := v\<rparr>))
      else if arg = ''-k'' \<or> arg = ''--api-key'' then Some (\<lambda>v opts. Inr (opts\<lparr>opt_api_key := v\<rparr>))
      else if arg = ''--api-base'' then Some (\<lambda>v opts. Inr (opts\<lparr>opt_api_base := v\<rparr>))
      else if arg = ''--max-iterations'' then
        Some (\<lambda>v opts. try_bind (stoi v) (\<lambda>n. Inr (opts\<lparr>opt_max_iterations := n\<rparr>)))
      else None)"

fun parse_args :: "string list \<Rightarrow> options \<Rightarrow> parsed" where
  "parse_args [] opts = Parsed opts"
| "parse_args (arg # rest) opts =
     (if arg = ''-h'' \<or> arg = ''--help'' then Help
      else if arg = ''-s'' \<or> arg = ''--serve'' then parse_args rest (opts\<lparr>serve_mode := True\<rparr>)
      else if arg = ''-v'' \<or> arg = ''--verbose'' then parse_args rest (opts\<lparr>verbose := True\<rparr>)
      else case value_option arg of
          None \<Rightarrow> Unknown_option arg
        | Some assign \<Rightarrow> (case rest of
              [] \<Rightarrow> Missing_value arg
            | v # rest' \<Rightarrow> (case assign v opts of Inl e \<Rightarrow> Uncaught e | Inr opts' \<Rightarrow> parse_args rest' opts')))"

subsection \<open>The components\<close>

text \<open>The overrides of the command line.\<close>

definition override :: "options \<Rightarrow> config \<Rightarrow> config" where
  "override opts cfg =
     (let c1 = (if verbose opts then cfg\<lparr>log_level := ''debug''\<rparr> else cfg)
      in if opt_max_iterations opts > 0 then c1\<lparr>default_max_iterations := word_of_int (opt_max_iterations opts)\<rparr> else c1)"

definition main_http :: http_config where
  "main_http = \<lparr>connect_timeout_sec = 10, read_timeout_sec = 120, block_private_ips = True\<rparr>"

definition main_llm :: "'j \<Rightarrow> options \<Rightarrow> 'j llm_config" where
  "main_llm zero opts =
     \<lparr>api_base = if opt_api_base opts \<noteq> [] then opt_api_base opts else ''https://api.openai.com'',
      llm_model = if opt_model opts \<noteq> [] then opt_model opts else ''gpt-4o'',
      api_key = opt_api_key opts, temperature = zero, max_tokens = 4096\<rparr>"

definition main_registry ::
  "('j, 'x) json_ops_scheme \<Rightarrow> ('d, 'y) float_ops_scheme \<Rightarrow> fs_ops \<Rightarrow> shell_sys \<Rightarrow> 'j registry" where
  "main_registry J F fs sys =
     register_web_search J (register_shell J sys default_allowed (register_file_read J fs ''.'' (register_calculator J F [])))"

text \<open>The pool, the cap on concurrent calls (\<open>None\<close>: its assertion fails) and the manager of the sessions of the server.\<close>

definition main_pool :: "nat \<Rightarrow> addr \<Rightarrow> config \<Rightarrow> pool" where
  "main_pool hardware a cfg = pool_new (unat (cfg_num_threads cfg)) hardware a"

definition main_semaphore :: "config \<Rightarrow> semaphore option" where
  "main_semaphore cfg = sem_new (max_concurrent_llm_calls cfg)"

definition main_manager :: "config \<Rightarrow> sm" where
  "main_manager cfg = sm_new 64 (unat (cfg_max_sessions cfg))"

subsection \<open>The run of a prompt\<close>

definition cli_session :: "config \<Rightarrow> int \<Rightarrow> string \<Rightarrow> session" where
  "cli_session cfg now text =
     push_history (plain_message ''user'' text)
      (push_history (plain_message ''system''
         ''You are a helpful assistant with access to tools. Use tools when needed to answer questions accurately. When you have the final answer, respond directly without calling tools.'')
       (session_new 1
          (default_session_config\<lparr>max_iterations := default_max_iterations cfg, cfg_timeout := uint (default_timeout_seconds cfg)\<rparr>) now))"

text \<open>
  How the program ends: with an exit code and what it wrote to the standard output or to the error output, with an
  uncaught exception, or as a server with its address, its port
  and its session manager.
\<close>

datatype ending = Exit int string string | Crash exn | Serves string "16 word" sm

definition run_prompt ::
  "'j factory \<Rightarrow> 'j registry \<Rightarrow> 'j wf_env \<Rightarrow> config \<Rightarrow> int \<Rightarrow> options \<Rightarrow> session \<times> ending" where
  "run_prompt fac reg W cfg now opts =
     (let s = cli_session cfg now (prompt opts)
      in case create_workflow fac (workflow_name opts) of
           Inl e \<Rightarrow> (s, Crash e)
         | Inr ctor \<Rightarrow> (case ctor reg W s of
               (s', Inl e) \<Rightarrow> (s', Crash e)
             | (s', Inr w) \<Rightarrow>
                 (s', if success w then Exit 0 (banner @ nl @ answer w @ nl) [] else Exit 1 banner (nl @ ''Error: '' @ wf_error w @ nl))))"

text \<open>
  \<open>main\<close> up to the mode: the left is how the program ended, the right the configuration and the options to go on with. The
  error logged for an unknown workflow goes to the log.
\<close>

definition main_start ::
  "('j, 'x) json_ops_scheme \<Rightarrow> ('j \<Rightarrow> rat option) \<Rightarrow> (string \<Rightarrow> string option) \<Rightarrow> 'j factory \<Rightarrow> string list
     \<Rightarrow> ending + (config \<times> options)" where
  "main_start J dbl files fac args =
     (case parse_args args default_options of
        Help \<Rightarrow> Inl (Exit 0 usage_text [])
      | Unknown_option arg \<Rightarrow> Inl (Exit 1 usage_text (''Unknown option: '' @ arg @ nl))
      | Missing_value arg \<Rightarrow> Inl (Exit 1 [] (''Missing value for '' @ arg @ nl))
      | Uncaught e \<Rightarrow> Inl (Crash e)
      | Parsed opts \<Rightarrow>
          (case (if config_path opts = [] then Inr default_config else load_config J dbl files (config_path opts)) of
             Inl e \<Rightarrow> Inl (Crash e)
           | Inr cfg \<Rightarrow>
               if \<not> serve_mode opts \<and> prompt opts = [] then Inl (Exit 1 (banner @ usage_text) [])
               else if \<not> has_workflow fac (workflow_name opts) then Inl (Exit 1 banner [])
               else Inr (override opts cfg, opts)))"

definition main_run ::
  "('j, 'x) json_ops_scheme \<Rightarrow> ('d, 'y) float_ops_scheme \<Rightarrow> fs_ops \<Rightarrow> shell_sys \<Rightarrow> ('j \<Rightarrow> rat option) \<Rightarrow> (string \<Rightarrow> string option)
     \<Rightarrow> 'j \<Rightarrow> (config \<Rightarrow> 'j llm_config \<Rightarrow> 'j wf_env) \<Rightarrow> int \<Rightarrow> string list \<Rightarrow> ending" where
  "main_run J F fs sys dbl files zero world now args =
     (case main_start J dbl files (main_factory J) args of
        Inl ending \<Rightarrow> ending
      | Inr (cfg, opts) \<Rightarrow>
          if serve_mode opts then Serves (host cfg) (port cfg) (main_manager cfg)
          else snd (run_prompt (main_factory J) (main_registry J F fs sys) (world cfg (main_llm zero opts)) cfg now opts))"

subsection \<open>The components can be built\<close>

lemma main_start_config:
  assumes "main_start J dbl files fac args = Inr (cfg, opts)"
  obtains c where "valid_config c" "cfg = override opts c"
proof -
  have "valid_config c" if "load_config J dbl files path = Inr c" for c path
    by (rule load_config_cases [OF that]) (simp_all add: default_valid clamp_valid)
  then show thesis
    using assms that default_valid by (auto simp: main_start_def split: parsed.splits sum.splits if_splits)
qed

text \<open>
  With whatever command line and configuration \<open>main\<close> gets this far, the assertion of the semaphore holds, the pool has a worker and
  the manager starts in its invariant, with room for a session.
\<close>

lemma main_builds:
  assumes "main_start J dbl files fac args = Inr (cfg, opts)"
  shows "main_semaphore cfg = Some \<lparr>permits = max_concurrent_llm_calls cfg, max_permits = max_concurrent_llm_calls cfg\<rparr>"
    and "0 < num_threads (main_pool hardware a cfg)"
    and "sessions_ok hash (main_manager cfg)" and "active_count (main_manager cfg) < max_sessions (main_manager cfg)"
proof -
  obtain c where v: "valid_config c" and c: "cfg = override opts c" by (rule main_start_config [OF assms])
  have same: "max_concurrent_llm_calls cfg = max_concurrent_llm_calls c" "cfg_max_sessions cfg = cfg_max_sessions c"
    by (simp_all add: c override_def Let_def)
  have "0 <s max_concurrent_llm_calls c" by (rule small_positive) (use v in \<open>simp_all add: valid_config_def\<close>)
  then show "main_semaphore cfg = Some \<lparr>permits = max_concurrent_llm_calls cfg, max_permits = max_concurrent_llm_calls cfg\<rparr>"
    by (simp add: main_semaphore_def sem_new_def same)
  show "0 < num_threads (main_pool hardware a cfg)" by (simp add: main_pool_def pool_new_def pool_size_def Let_def less_max_iff_disj)
  show "sessions_ok hash (main_manager cfg)" using sm_new_ok [of 64 hash] by (simp add: main_manager_def)
  have "0 < unat (cfg_max_sessions c)" using v by (simp add: valid_config_def word_one_le unat_gt_0)
  then show "active_count (main_manager cfg) < max_sessions (main_manager cfg)"
    by (simp add: main_manager_def active_count_def sm_new_def cm_size_def cm_new_def same sum_list_replicate)
qed

subsection \<open>Exit codes\<close>

lemma cli_not_terminal: "\<not> is_terminal (cli_session cfg now text)"
  by (simp add: is_terminal_def cli_session_def session_new_def)

lemma main_start_workflow:
  assumes "main_start J dbl files (main_factory J) args = Inr (cfg, opts)"
  obtains ctor where "create_workflow (main_factory J) (workflow_name opts) = Inr ctor"
  using assms
  by (auto simp: main_start_def create_workflow_def has_workflow_def split: parsed.splits sum.splits if_splits option.splits)

text \<open>
  C25. The exit code tells how a prompt went: when the command line and the configuration are fine and no server is asked for, the program exits with 0 exactly when its session
  was completed, and then it has printed the session's answer, which is not empty; it exits with 1 for every other session that ended, with the session's error on the error
  output; an exception of the workflow ends the program with the session not ended.
\<close>

theorem prompt_exit_code:
  assumes "main_start J dbl files (main_factory J) args = Inr (cfg, opts)" and "\<not> serve_mode opts"
    and "run_prompt (main_factory J) (main_registry J F fs sys) (world cfg (main_llm zero opts)) cfg now opts = (s', e)"
  shows "main_run J F fs sys dbl files zero world now args = e \<and>
    (case e of
       Exit code out err \<Rightarrow> (code = 0 \<longleftrightarrow> s_state s' = COMPLETED) \<and>
         (if code = 0 then final_answer s' \<noteq> [] \<and> out = banner @ nl @ final_answer s' @ nl \<and> err = []
          else code = 1 \<and> is_terminal s' \<and> out = banner \<and> s_error s' \<noteq> [] \<and> err = nl @ ''Error: '' @ s_error s' @ nl)
     | Crash ex \<Rightarrow> \<not> is_terminal s'
     | Serves h p m \<Rightarrow> False)"
proof -
  let ?W = "world cfg (main_llm zero opts)" and ?reg = "main_registry J F fs sys"
  obtain ctor where c: "create_workflow (main_factory J) (workflow_name opts) = Inr ctor" by (rule main_start_workflow [OF assms(1)])
  obtain t r where t: "ctor ?reg ?W (cli_session cfg now (prompt opts)) = (t, r)" by fastforce
  note wf = main_factory_workflow [OF c, of ?reg ?W]
  note laws = workflow.run_returns_law [OF wf cli_not_terminal] workflow.run_throws_law [OF wf cli_not_terminal]
  have run: "run_prompt (main_factory J) ?reg ?W cfg now opts =
      (t, case r of Inl x \<Rightarrow> Crash x | Inr w \<Rightarrow> if success w then Exit 0 (banner @ nl @ answer w @ nl) [] else Exit 1 banner (nl @ ''Error: '' @ wf_error w @ nl))"
    using c t by (simp add: run_prompt_def split: sum.splits)
  have "main_run J F fs sys dbl files zero world now args = e" using assms by (simp add: main_run_def)
  moreover have "\<not> is_terminal t" if "r = Inl x" for x using laws(2) t that by blast
  moreover have "reported t w" if "r = Inr w" for w using laws(1) t that by blast
  ultimately show ?thesis using run assms(3) by (cases r) (auto simp: reported_def split: if_splits)
qed

definition hello_args :: "string list" where
  "hello_args = [''--max-iterations'', '' +7x'', ''-p'', ''hello'', ''-v'']"

definition quiet_shell :: shell_sys where
  "quiet_shell = \<lparr>sh_pipe = True, sh_fork = True, sh_reads = (\<lambda>_. [])\<rparr>"

theorem prompt_exit_code_witness:
  "main_run plain_json int_floats small_fs quiet_shell (\<lambda>_. None) (\<lambda>_. None) JNull (\<lambda>_ _. small_wf (\<lambda>n. [0..<n])) 0 hello_args =
     Exit 0 (banner @ nl @ ''done'' @ nl) []"
proof -
  define opts where "opts = default_options\<lparr>opt_max_iterations := 7, prompt := ''hello'', verbose := True\<rparr>"
  define cfg where "cfg = override opts default_config"
  have st: "main_start plain_json (\<lambda>_. None) (\<lambda>_. None) (main_factory plain_json) hello_args = Inr (cfg, opts)"
    unfolding opts_def cfg_def by code_simp
  let ?r = "run_prompt (main_factory plain_json) (main_registry plain_json int_floats small_fs quiet_shell) (small_wf (\<lambda>n. [0..<n])) cfg 0 opts"
  obtain s' e where r: "?r = (s', e)" by fastforce
  have "snd ?r = Exit 0 (banner @ nl @ ''done'' @ nl) []" unfolding opts_def cfg_def by code_simp
  with r prompt_exit_code [OF st, of int_floats small_fs quiet_shell "\<lambda>_ _. small_wf (\<lambda>n. [0..<n])" JNull 0 s' e] show ?thesis
    by (simp add: opts_def default_options_def)
qed

end
