(* ===== verification/Tracing.thy ===== *)
theory Tracing
  imports Tools "HOL-Library.Word"
begin

section \<open>Tracing and logging (src/src/utils/tracing.h, logging.h)\<close>

text \<open>
  Spans, the counter their identifiers come from and the line that a span logs when it is destroyed; the one-time initialisation of
  the logger. The attributes of a span are a hash table in the code, so their order in the line is not specified: here it is
  the order of an association list. Times are in nanoseconds.
\<close>

subsection \<open>Spans\<close>

record span_context =
  trace_id :: "64 word"
  span_id :: "64 word"
  parent_span_id :: "64 word"

record span =
  sp_ctx :: span_context
  operation :: string
  start_time :: int
  attributes :: "(string \<times> string) list"
  sp_ok :: bool
  status_message :: string
  moved :: bool

text \<open>The constructor takes the next identifier of the counter, which the code increments atomically and which starts at 1.\<close>

definition span_new :: "64 word \<Rightarrow> string \<Rightarrow> int \<Rightarrow> 64 word \<Rightarrow> span \<times> 64 word" where
  "span_new tid op now counter =
     (\<lparr>sp_ctx = \<lparr>trace_id = tid, span_id = counter, parent_span_id = 0\<rparr>, operation = op, start_time = now, attributes = [],
       sp_ok = True, status_message = [], moved = False\<rparr>, counter + 1)"

definition span_child :: "string \<Rightarrow> int \<Rightarrow> span \<Rightarrow> 64 word \<Rightarrow> span \<times> 64 word" where
  "span_child op now sp counter =
     (case span_new (trace_id (sp_ctx sp)) op now counter of
        (c, counter') \<Rightarrow> (c\<lparr>sp_ctx := (sp_ctx c)\<lparr>parent_span_id := span_id (sp_ctx sp)\<rparr>\<rparr>, counter'))"

definition set_attribute :: "string \<Rightarrow> string \<Rightarrow> span \<Rightarrow> span" where
  "set_attribute k v sp = sp\<lparr>attributes := assoc_update k v (attributes sp)\<rparr>"

definition set_attribute_int :: "string \<Rightarrow> int \<Rightarrow> span \<Rightarrow> span" where
  "set_attribute_int k v sp = sp\<lparr>attributes := assoc_update k (to_string_int v) (attributes sp)\<rparr>"

definition set_status :: "bool \<Rightarrow> string \<Rightarrow> span \<Rightarrow> span" where
  "set_status ok message sp = sp\<lparr>sp_ok := ok, status_message := message\<rparr>"

text \<open>The move constructor: the new span, and the old one with its strings and attributes taken away.\<close>

definition span_move :: "span \<Rightarrow> span \<times> span" where
  "span_move other = (other\<lparr>moved := False\<rparr>, other\<lparr>operation := [], attributes := [], status_message := [], moved := True\<rparr>)"

text \<open>The line: nothing is escaped.\<close>

abbreviation dq :: char where
  "dq \<equiv> CHR 0x22"

definition dquoted :: "string \<Rightarrow> string" where
  "dquoted s = [dq] @ s @ [dq]"

fun attrs_loop :: "bool \<Rightarrow> (string \<times> string) list \<Rightarrow> string \<Rightarrow> string" where
  "attrs_loop first [] attrs = attrs"
| "attrs_loop first ((k, v) # rest) attrs =
     attrs_loop False rest ((if first then attrs else attrs @ '','') @ dquoted k @ '':'' @ dquoted v)"

definition attrs_text :: "(string \<times> string) list \<Rightarrow> string" where
  "attrs_text kvs = attrs_loop True kvs ''{'' @ ''}''"

definition span_line :: "int \<Rightarrow> span \<Rightarrow> string" where
  "span_line now sp =
     ''{'' @ dquoted ''trace_id'' @ '':'' @ to_string_nat (unat (trace_id (sp_ctx sp))) @
     '','' @ dquoted ''span_id'' @ '':'' @ to_string_nat (unat (span_id (sp_ctx sp))) @
     '','' @ dquoted ''parent'' @ '':'' @ to_string_nat (unat (parent_span_id (sp_ctx sp))) @
     '','' @ dquoted ''op'' @ '':'' @ dquoted (operation sp) @
     '','' @ dquoted ''dur_us'' @ '':'' @ to_string_int ((now - start_time sp) div 1000) @
     '','' @ dquoted ''ok'' @ '':'' @ (if sp_ok sp then ''true'' else ''false'') @
     '','' @ dquoted ''status'' @ '':'' @ dquoted (status_message sp) @
     '','' @ dquoted ''attrs'' @ '':'' @ attrs_text (attributes sp) @ ''}''"

subsection \<open>The logger\<close>

text \<open>
  \<open>init\<close> runs its body once, whoever calls it; \<open>set_level\<close> always acts. A level is read by the logging library (\<open>from_str\<close>). The state:
  whether the flag of \<open>call_once\<close> is up, and the level.
\<close>

record 'l logger =
  once :: bool
  level :: 'l

definition log_init :: "(string \<Rightarrow> 'l) \<Rightarrow> string \<Rightarrow> 'l logger \<Rightarrow> 'l logger" where
  "log_init from_str l lg = (if once lg then lg else lg\<lparr>once := True, level := from_str l\<rparr>)"

definition log_set_level :: "(string \<Rightarrow> 'l) \<Rightarrow> string \<Rightarrow> 'l logger \<Rightarrow> 'l logger" where
  "log_set_level from_str l lg = lg\<lparr>level := from_str l\<rparr>"

lemma log_init_once: "log_init from_str b (log_init from_str a lg) = log_init from_str a lg"
  by (simp add: log_init_def)

subsection \<open>Identifiers\<close>

text \<open>A sequence of constructor calls: the trace, the operation and the time of each.\<close>

fun open_spans :: "(64 word \<times> string \<times> int) list \<Rightarrow> 64 word \<Rightarrow> span list" where
  "open_spans [] counter = []"
| "open_spans ((tid, op, now) # rest) counter =
     (case span_new tid op now counter of (sp, counter') \<Rightarrow> sp # open_spans rest counter')"

lemma open_spans_ids: "map (span_id \<circ> sp_ctx) (open_spans calls c) = map (\<lambda>i. c + of_nat i) [0..<length calls]"
proof (induction calls c rule: open_spans.induct)
  case (2 tid op now rest c)
  have "map (\<lambda>i. c + of_nat i) [Suc 0..<Suc n] = map (\<lambda>i. c + 1 + of_nat i) [0..<n]" for n
    by (simp only: map_Suc_upt [symmetric] map_map) (simp add: add.assoc)
  with 2 show ?case by (simp add: span_new_def upt_conv_Cons del: upt_Suc)
qed simp

text \<open>No two spans share an identifier until the counter has gone through all of its values.\<close>

lemma open_spans_distinct:
  assumes "length calls \<le> 2 ^ 64"
  shows "distinct (map (span_id \<circ> sp_ctx) (open_spans calls c))"
proof -
  have "inj_on (\<lambda>i. c + of_nat i) {0..<length calls}"
  proof (rule inj_onI)
    fix i j
    assume "i \<in> {0..<length calls}" "j \<in> {0..<length calls}" "c + of_nat i = c + of_nat j"
    then have "unat (of_nat i :: 64 word) = unat (of_nat j :: 64 word)" "i < 2 ^ 64" "j < 2 ^ 64" using assms by auto
    then show "i = j" by (simp add: unat_of_nat take_bit_nat_eq_self)
  qed
  then show ?thesis by (simp only: open_spans_ids distinct_map distinct_upt set_upt)
qed

lemma span_child_context:
  assumes "span_child op now sp counter = (c, counter')"
  shows "sp_ctx c = \<lparr>trace_id = trace_id (sp_ctx sp), span_id = counter, parent_span_id = span_id (sp_ctx sp)\<rparr>"
    and "counter' = counter + 1"
  using assms by (auto simp: span_child_def span_new_def)

subsection \<open>The attributes of a line\<close>

text \<open>What the loop appends, without its accumulator.\<close>

fun attrs_rest :: "(string \<times> string) list \<Rightarrow> string" where
  "attrs_rest [] = []"
| "attrs_rest ((k, v) # rest) = '','' @ dquoted k @ '':'' @ dquoted v @ attrs_rest rest"

lemma attrs_loop_rest: "attrs_loop False kvs acc = acc @ attrs_rest kvs"
  by (induction kvs arbitrary: acc) auto

definition clean :: "string \<Rightarrow> bool" where
  "clean s \<longleftrightarrow> dq \<notin> set s"

lemma dquoted_split:
  assumes "clean s" and "clean t" and "dquoted s @ xs = dquoted t @ ys"
  shows "s = t \<and> xs = ys"
proof -
  have eq: "s @ dq # xs = t @ dq # ys" using assms(3) by (simp add: dquoted_def)
  have "takeWhile (\<lambda>c. c \<noteq> dq) (s @ dq # xs) = s" "takeWhile (\<lambda>c. c \<noteq> dq) (t @ dq # ys) = t"
    using assms(1,2) by (auto simp: clean_def takeWhile_append)
  with eq show ?thesis by auto
qed

abbreviation clean_attrs :: "(string \<times> string) list \<Rightarrow> bool" where
  "clean_attrs kvs \<equiv> list_all (\<lambda>(k, v). clean k \<and> clean v) kvs"

lemma attrs_rest_inject:
  "clean_attrs xs \<Longrightarrow> clean_attrs ys \<Longrightarrow> attrs_rest xs @ ''}'' = attrs_rest ys @ ''}'' \<Longrightarrow> xs = ys"
proof (induction xs arbitrary: ys)
  case Nil
  then show ?case by (cases ys rule: attrs_rest.cases) auto
next
  case (Cons x xs)
  obtain k v where x: "x = (k, v)" by fastforce
  then obtain l w zs where y: "ys = (l, w) # zs" using Cons.prems(3) by (cases ys rule: attrs_rest.cases) auto
  have cl: "clean k" "clean l" "clean v" "clean w" using Cons.prems x y by auto
  have "dquoted k @ '':'' @ dquoted v @ attrs_rest xs @ ''}'' = dquoted l @ '':'' @ dquoted w @ attrs_rest zs @ ''}''"
    using Cons.prems(3) x y by simp
  note outer = dquoted_split [OF cl(1,2) this]
  then have "dquoted v @ attrs_rest xs @ ''}'' = dquoted w @ attrs_rest zs @ ''}''" by simp
  note inner = dquoted_split [OF cl(3,4) this]
  have "xs = zs" using Cons.prems x y inner by (intro Cons.IH) auto
  with outer inner x y show ?case by simp
qed

text \<open>As long as no key and no value contains a quotation mark, the attributes can be read back from the line.\<close>

lemma attrs_text_inject:
  assumes "clean_attrs xs" and "clean_attrs ys" and "attrs_text xs = attrs_text ys"
  shows "xs = ys"
proof -
  have "attrs_rest xs @ ''}'' = attrs_rest ys @ ''}''"
    using assms(3) by (cases xs rule: attrs_rest.cases; cases ys rule: attrs_rest.cases) (simp_all add: attrs_text_def attrs_loop_rest dquoted_def)
  with assms(1,2) show ?thesis by (rule attrs_rest_inject)
qed

text \<open>With a quotation mark in a value two spans of different attributes log the same line.\<close>

lemma attrs_text_ambiguous:
  "attrs_text [(''a'', ''x'' @ dquoted '','' @ ''b'' @ dquoted '':'' @ ''y'')] = attrs_text [(''a'', ''x''), (''b'', ''y'')]"
  by (simp add: attrs_text_def dquoted_def)

text \<open>The destructor does not read \<open>moved\<close>: a span that has been moved from logs a second line with the identifier of the first.\<close>

lemma moved_span_context: "span_move sp = (new, old) \<Longrightarrow> sp_ctx old = sp_ctx sp \<and> sp_ctx new = sp_ctx sp"
  by (auto simp: span_move_def)

end
