(* ===== verification/Spec2Isabelle.thy ===== *)
theory Spec2Isabelle
  imports MPSC_Queue Work_Stealing_Deque Future_Promise Semaphore Rate_Limiter Concurrent_Map Thread_Pool
    Messages Conversation Cost_Tracker Tools Task_DAG Calculator Builtin_Tools React Workflows Map_Phase Session_Manager
    Http_Client LLM_Client Http_Server Server_Lifecycle Config Forge_Main Tracing
begin

text \<open>
  A verification development for Forge, a runtime for language-model agents in C++ (sources under src/src). Forge runs agent sessions on a
  work-stealing thread pool built from lock-free containers, calls a language model over HTTP under a rate limit and a cap on concurrent calls, executes
  tools on the model's behalf, and offers sessions over a small HTTP interface.

  \<^bold>\<open>How the parts fit together.\<close> \<open>main\<close> reads the command line and the configuration and builds the pool, the HTTP client, the throttled language
  model client, the tool registry and the workflow factory. A session (created over HTTP through the session manager, or the one session of the command line)
  is run by a workflow: ReAct alternates between the model and batches of tools; plan-execute and map-reduce split the request, run a ReAct session per part and let the model combine the results.

  \<^bold>\<open>Theories and sources.\<close>
  \<^item> \<open>Forge_Prelude\<close>: labelled step relations, reachability and traces, the interfaces (locales) of an invariant, a simulation, a queue and a deque,
    exceptions as values, decimal printing.
  \<^item> \<open>MPSC_Queue\<close> (core/mpsc_queue.h), \<open>Work_Stealing_Deque\<close> (core/work_stealing_deque.h), \<open>Future_Promise\<close> (core/future.h), \<open>Semaphore\<close> (core/semaphore.h),
    \<open>Rate_Limiter\<close> (core/rate_limiter.h), \<open>Concurrent_Map\<close> (core/concurrent_map.h): each operation as a function on the state that runs without interruption, and as
    a step relation with one step per atomic access, so that the runs of the relation are the interleavings of all threads. Nodes and buffers are on an explicit heap; using freed memory is
    the value \<open>None\<close>. The theorems: the queue is a first-in first-out queue and the deque a double-ended queue under every interleaving (simulations), neither uses freed memory,
    a continuation fires exactly once, permits are conserved, the rate is respected, the map is a finite map and its capacity is overrun by less than the number of racing threads.
  \<^item> \<open>Thread_Pool\<close> (core/thread_pool.h, thread_pool.cpp): submission, search for work, helping waits, shutdown, over the interfaces of queue and deque; each task starts once and none is lost, and what the search of a thread takes, given the containers that it misses (a steal that loses its race, a queue whose push is half done).
  \<^item> \<open>Messages\<close> (llm/message.h), \<open>Conversation\<close> (session/conversation.h, summarizing_conversation.h), \<open>Cost_Tracker\<close> (session/cost_tracker.h): the JSON form of a message and its round
    trip, which messages a bounded or summarised history keeps, the token counters.
  \<^item> \<open>Tools\<close> (tools/tool_registry.h, tool_executor.h), \<open>Calculator\<close> (tools/builtin/calculator.h), \<open>Builtin_Tools\<close> (shell.h, file_read.h, web_search.h), \<open>Task_DAG\<close> (workflow/task_dag.h): batches answer every call, the
    expression parser returns on every input and inverts the printer, the shell runs allowed commands only, the file tool stays in its sandbox, the levels of the task graph are a topological order.
  \<^item> \<open>React\<close> (session/session.h, workflow/react.cpp), \<open>Workflows\<close> (plan_execute.cpp, map_reduce.cpp, workflow_factory.h): termination and outcome of the ReAct loop, tool calls and their answers in the history, the
    contract of a workflow (a locale, interpreted for all three).
  \<^item> \<open>Map_Phase\<close> (map_reduce.cpp): the closures that map-reduce submits, one step per access to what they share; every interleaving ends, without getting stuck on the mutex, in the state of running them in sequence.
  \<^item> \<open>Session_Manager\<close> (session/session_manager.cpp): the sessions behind pointers in the striped map, dispatched workflows and their futures; the invariant, the collection, the waits of the destructor.
  \<^item> \<open>Http_Client\<close> (core/async_http_client.h), \<open>LLM_Client\<close> (llm/llm_client.h, throttled_llm_client.h): the address guard at the level of words and bytes against the CIDR blocks, replies of the API, where permits go, and a throttled call as a step relation over the inner future and the shared semaphore.
  \<^item> \<open>Http_Server\<close> (server/http_server.cpp, utils/metrics.h), \<open>Config\<close> (utils/config.cpp, json.h), \<open>Forge_Main\<close> (main.cpp): routes and handlers, the event stream against a reference, the statuses of a creation, ranges of
    the configuration, that the components \<open>main\<close> builds from it can be built, exit codes.
  \<^item> \<open>Server_Lifecycle\<close> (http_server.cpp start and stop, main.cpp server mode): \<open>main\<close>, the collection thread, the destructor and signal handlers as a step relation; when the thread stops collecting, and a run in which two calls of \<open>stop\<close> clash.
  \<^item> \<open>Tracing\<close> (utils/tracing.h, logging.h): spans and their identifiers, the line a span logs and when its attributes can be read back, the one-time initialisation of the logger.
  \<^item> This theory: properties that span components: the life of a cancelled session over HTTP, the fate of a call to an API on a private address.

  \<^bold>\<open>Parameters.\<close> Code outside of the repository is an argument of the definitions: the JSON library (record \<open>json_ops\<close>, laws \<open>json_laws\<close>), floating-point arithmetic (\<open>float_ops\<close>), the network (\<open>net_ops\<close>), files and processes
  (\<open>fs_ops\<close>, \<open>shell_sys\<close>), hash functions, clocks, random victims, and what a workflow meets (\<open>env\<close>: model, clock, cancellation, tools in time).

  \<^bold>\<open>Bounds and fuel.\<close> Loops over data are structural or have a termination proof: ReAct by the distance of its 32-bit step counter to the limit, the tokeniser, the line reader and the eviction by length. The expression parser and the levels of
  the task graph have fuel that is proved to be enough (\<open>parse_returns\<close>, \<open>topological_sort_correct\<close>). Waiting loops are functions of the list of observations, \<open>None\<close> while they wait. Counters that wrap are words (semaphore, steps, the token counts of a response and of a result, metrics, configuration); session
  identifiers and deque indices are unbounded, as 64 bits do not run out.

  \<^bold>\<open>Not modelled.\<close> Memory orderings weaker than sequential consistency: every interleaving of the atomic accesses is covered, but not their reordering. The log lines that the components
  write, and the spans ReAct opens: nothing reads them. Floating-point arithmetic in the rate limiter, the prices and the calculator, which is a parameter. The sockets of the HTTP library. Whether a tool call ends in time, which the per-tool timeout decides, is given by the environment as a truth value. Handlers and collections are single steps of the server's step relation, and the run of a workflow is a single step of the manager;
  what they do to the manager's map under interleaving is in \<open>Concurrent_Map\<close>. What a closure of map-reduce meets outside of the shared state (the cancel flag when it looks, the replies to its sub-session) is given per closure. Tests, benchmarks and examples.
\<close>

section \<open>A session from its creation to its collection\<close>

lemma gc_removes:
  assumes "cm_inv hash (sessions m)" and "cm_find hash (sessions m) i = Some a" and "reapable now 600 (store m ! a)"
  shows "get_session hash i (snd (gc_pass hash False False now m)) = None"
  using gc_result(3) [OF assms(1), of now 600] assms(2,3) by (simp add: gc_pass_def get_session_find)

definition session_view :: "('j, 'x) json_ops_scheme \<Rightarrow> nat \<Rightarrow> session_state \<Rightarrow> string \<Rightarrow> served" where
  "session_view J i st err =
     Replied (Inr (object_reply J 200
       [(''id'', j_int J (int i)), (''state'', j_string J (session_state_name st)), (''step_count'', j_int J 0),
        (''answer'', j_string J []), (''error'', j_string J err)]))"

lemma serve_view:
  assumes "i < 2 ^ 64" and "cm_find hash (sessions m) i = Some a" and "s_id (store m ! a) = i"
    and "step_count (store m ! a) = 0" and "final_answer (store m ! a) = []"
  shows "fst (serve J hash fac mt now GET (session_path i) [] m) = session_view J i (s_state (store m ! a)) (s_error (store m ! a))"
  using assms by (simp add: serve_get get_session_find session_info_of_def info_fields_def session_view_def)

text \<open>
  C5. The life of a cancelled session, over the HTTP interface, from any reachable state of the manager with room for it: the request that creates it is answered 201 with its identifier; it
  is then shown as created; the request that deletes it is answered 200; once the pool has run its workflow it is shown as cancelled, with no step taken and the error that says so; and after a
  collection at least 600 seconds after its creation it is not found any more.
\<close>

theorem cancelled_session_lifecycle:
  assumes "0 < stripes" and m: "m = sm_run hash (main_factory J) reg ops (sm_new stripes n)"
    and room: "active_count m < n" and i: "next_id m < 2 ^ 64"
    and body: "read_create_request J bdy = Inr (Some req)" "cr_workflow req = ''react''"
    and post: "serve J hash (main_factory J) mt now POST ''/api/sessions'' bdy m = (posted, m1)"
    and del: "serve J hash (main_factory J) mt meanwhile DELETE (session_path (next_id m)) [] m1 = (deleted, m2)"
    and run: "m3 = run_dispatched (main_factory J) reg W (length (dispatched m)) m2"
    and gc: "m4 = snd (gc_pass hash False False later m3)" "later - now \<ge> 600 * 1000000000"
  shows "posted = Replied (Inr (object_reply J 201 [(''id'', j_int J (int (next_id m)))])) \<and>
    fst (serve J hash (main_factory J) mt meanwhile GET (session_path (next_id m)) [] m1) = session_view J (next_id m) CREATED [] \<and>
    deleted = Replied (Inr (object_reply J 200 [(''cancelled'', j_bool J True)])) \<and>
    fst (serve J hash (main_factory J) mt meanwhile GET (session_path (next_id m)) [] m3) =
      session_view J (next_id m) CANCELLED ''Cancelled by user'' \<and>
    fst (serve J hash (main_factory J) mt later GET (session_path (next_id m)) [] m4) = Replied (Inr not_found)"
proof -
  let ?i = "next_id m" and ?a = "length (store m)" and ?s = "new_session (next_id m) req now"
  have ok: "sessions_ok hash m" "max_sessions m = n" by (rule sm_run_reach [OF assms(1) m])+
  have wf: "has_workflow (main_factory J) (cr_workflow req)" by (simp add: has_workflow_def main_factory_lookup body(2))
  obtain r where c: "create_session hash (main_factory J) req now m = (r, m1)"
      and posted: "posted = Replied (Inr (case r of Inl i \<Rightarrow> object_reply J 201 [(''id'', j_int J (int i))] | Inr err \<Rightarrow> object_reply J 503 [(''error'', j_string J err)]))"
    using post body(1) by (auto simp: serve_def route_of_def handle_create_session_def split: prod.splits sum.splits)
  have sz: "cm_size (sessions m) < max_sessions m" using room ok(2) by (simp add: active_count_def)
  note st1 = create_store [OF ok(1) wf sz c]
  have ok1: "sessions_ok hash m1" using create_sessions_ok [OF ok(1), of "main_factory J" req now] c by simp
  then have inv1: "cm_inv hash (sessions m1)" by (simp add: sessions_ok_def)
  obtain d where x: "cancel_session hash ?i m1 = (d, m2)" using del by (cases "cancel_session hash ?i m1") (auto simp: serve_delete [OF i])
  note st2 = cancel_store [OF inv1 st1(3) x]
  have ok2: "sessions_ok hash m2" using cancel_sessions_ok [OF ok1, of ?i] x by simp
  define s3 where "s3 = stop_with CANCELLED ''Cancelled by user'' (?s\<lparr>cancel_requested := True, s_state := WAITING_FOR_LLM\<rparr>)"
  have s2: "store m2 ! ?a = ?s\<lparr>cancel_requested := True\<rparr>" "?a < length (store m2)" by (simp_all add: st2(2) st1(2))
  have "cm_find hash (sessions m2) ?i = Some ?a" "dispatched m2 ! length (dispatched m) = (length (futures m), ?a, ''react'')"
    by (simp_all add: st2(3,4) st1(3,4) body(2))
  note m3 = run_cancelled_session [OF this(1) s2(2) this(2), of J reg W, folded run]
  have f3: "cm_find hash (sessions m3) ?i = Some ?a" "store m3 ! ?a = s3" "cm_inv hash (sessions m3)"
    using m3 ok2 by (simp_all add: s2(1) s3_def st2(3) st1(3) sessions_ok_def)
  have s3f: "s_id s3 = ?i" "step_count s3 = 0" "final_answer s3 = []" "s_state s3 = CANCELLED" "s_error s3 = ''Cancelled by user''" "created_at s3 = now"
    by (simp_all add: s3_def stop_with_def)
  have "reapable later 600 (store m3 ! ?a)" using gc(2) by (simp add: f3(2) reapable_def whole_seconds_def is_terminal_def s3f)
  then have "get_session hash ?i m4 = None" unfolding gc(1) by (rule gc_removes [OF f3(3,1)])
  then have "fst (serve J hash (main_factory J) mt later GET (session_path ?i) [] m4) = Replied (Inr not_found)" by (simp add: serve_get [OF i])
  moreover have "fst (serve J hash (main_factory J) mt meanwhile GET (session_path ?i) [] m3) = session_view J ?i CANCELLED ''Cancelled by user''"
    using serve_view [OF i f3(1)] by (simp add: f3(2) s3f)
  moreover have "fst (serve J hash (main_factory J) mt meanwhile GET (session_path ?i) [] m1) = session_view J ?i CREATED []"
    using serve_view [OF i st1(3)] by (simp add: st1(2))
  moreover have "deleted = Replied (Inr (object_reply J 200 [(''cancelled'', j_bool J True)]))"
    using del st2(1) by (simp add: serve_delete [OF i] x)
  ultimately show ?thesis using posted st1(1) by simp
qed

theorem cancelled_session_lifecycle_witness:
  "\<exists>m1 m2. serve posted_json (\<lambda>i. i) (main_factory posted_json) metrics_new 0 POST ''/api/sessions'' ''hello'' posted_sm =
       (Replied (Inr (object_reply posted_json 201 [(''id'', JInt 1)])), m1) \<and>
     serve posted_json (\<lambda>i. i) (main_factory posted_json) metrics_new 5 DELETE ''/api/sessions/1'' [] m1 =
       (Replied (Inr (object_reply posted_json 200 [(''cancelled'', JBool True)])), m2) \<and>
     fst (serve posted_json (\<lambda>i. i) (main_factory posted_json) metrics_new 5 GET ''/api/sessions/1'' []
       (run_dispatched (main_factory posted_json) echo_registry (small_wf (\<lambda>n. [0..<n])) 0 m2)) =
       session_view posted_json 1 CANCELLED ''Cancelled by user''"
proof -
  let ?W = "small_wf (\<lambda>n. [0..<n])"
  obtain posted m1 where p: "serve posted_json (\<lambda>i. i) (main_factory posted_json) metrics_new 0 POST ''/api/sessions'' ''hello'' posted_sm = (posted, m1)"
    by fastforce
  obtain deleted m2 where d: "serve posted_json (\<lambda>i. i) (main_factory posted_json) metrics_new 5 DELETE (session_path (next_id posted_sm)) [] m1 = (deleted, m2)"
    by fastforce
  have i: "next_id posted_sm = 1" "active_count posted_sm = 0" "dispatched posted_sm = []" "j_int posted_json = JInt" "j_bool posted_json = JBool"
    by (simp_all add: posted_sm_def sm_run_def sm_new_def active_count_def posted_json_def plain_json_def)
  have q: "read_create_request posted_json ''hello'' = Inr (Some \<lparr>cr_prompt = ''hello'', system_message = ''You are a helpful assistant.'',
      cr_workflow = ''react'', cr_tools = [], cr_config = default_session_config\<lparr>max_iterations := - 1\<rparr>\<rparr>)"
    by (rule posted_request)
  have path: "session_path (Suc 0) = ''/api/sessions/1''" by code_simp
  from cancelled_session_lifecycle [where W = ?W and later = 600000000000, OF _ posted_sm_def _ _ q _ p d refl refl] d p
  show ?thesis by (simp add: i path)
qed

section \<open>The guard of addresses and the throttled client\<close>

text \<open>
  C24. What happens in the program as \<open>main\<close> builds it when the configured API is on a private address: the guard refuses every call of the language model with an exception. In every run of a throttled call from the moment it
  has taken its permit, whether the exception is stored before or after the continuation is registered, and with other calls taking and giving back permits all along, the continuation never runs: the semaphore is
  short of the permit of this call for ever, and the future that the workflow waits for is not ready in any state of a run, so that its \<open>get\<close> does not return whichever states it polls.
\<close>

theorem private_api_never_answers:
  assumes "parse_url (api_base cfg @ ''/v1/chat/completions'') = Inr (origin, path)"
    and "addresses N (extract_host origin) = Some as" and "a \<in> set as" and "\<not> public a"
    and taken: "0 <s permits s" "sem_acquire k [s] = Some ([], free)"
    and run: "call_init free c0" "trace (call_step (llm_complete J N main_http cfg msgs tools)) c0 es c"
  shows "(\<exists>msg. llm_complete J N main_http cfg msgs tools = Inl (Invalid_argument msg)) \<and>
    (\<forall>v. Responded v \<notin> set es) \<and> permits (call_sem c) = permits s - 1 + of_int (sum_list (map balance es)) \<and> poll (call_result c) = None \<and>
    (\<forall>cs. list_all (reachable (call_init free) (call_step (llm_complete J N main_http cfg msgs tools))) cs \<longrightarrow> fut_get (map call_result cs) = None)"
proof -
  have "check_ssrf N (extract_host origin) \<noteq> Inr ()" using check_ssrf_ok [of N "extract_host origin"] assms(2-4) by auto
  then obtain msg where "check_ssrf N (extract_host origin) = Inl (Invalid_argument msg)" by (rule check_ssrf_refusal)
  then have l: "llm_complete J N main_http cfg msgs tools = Inl (Invalid_argument msg)"
    by (simp add: llm_complete_def http_post_def http_request_def assms(1) main_http_def)
  have f: "failing (Invalid_argument msg) c0" by (rule failed.inv_init [OF run(1)])
  have free: "permits free = permits s - 1" using taken(2) unfolding sem_acquire_first [OF taken(1)] by auto
  have "failing (Invalid_argument msg) c" by (rule failed.trace_inv [OF run(2) [unfolded l] f])
  then have "poll (call_result c) = None" by (simp add: failing_def future_defs)
  then show ?thesis
    using failing_trace [OF run(2) [unfolded l] f] failing_never_ready [of free "Invalid_argument msg"] run(1) free l by (simp add: call_init_def)
qed

theorem private_api_never_answers_witness:
  "\<exists>msg c. reachable (call_init (one_slot\<lparr>permits := 0\<rparr>)) (call_step (Inl (Invalid_argument msg))) c \<and>
     setter (inner_sys c) = SDone \<and> thener (inner_sys c) = NDone \<and> permits (call_sem c) = 0 \<and>
     {cs. list_all (reachable (call_init (one_slot\<lparr>permits := 0\<rparr>)) (call_step (llm_complete plain_json small_net main_http
       (main_llm JNull (default_options\<lparr>opt_api_base := ''http://10.0.0.1:11434''\<rparr>)) JNull JNull))) cs} \<subseteq> {cs. fut_get (map call_result cs) = None}"
proof -
  let ?cfg = "main_llm JNull (default_options\<lparr>opt_api_base := ''http://10.0.0.1:11434''\<rparr>) :: jval llm_config"
  let ?free = "one_slot\<lparr>permits := 0\<rparr>" and ?res = "llm_complete plain_json small_net main_http ?cfg JNull JNull"
  have u: "parse_url (api_base ?cfg @ ''/v1/chat/completions'') = Inr (''http://10.0.0.1:11434'', ''/v1/chat/completions'')"
    by (simp add: main_llm_def) code_simp
  have "extract_host ''http://10.0.0.1:11434'' = ''10.0.0.1''" by code_simp
  then have a: "addresses small_net (extract_host ''http://10.0.0.1:11434'') = Some [V4 (word_of_bytes [10, 0, 0, 1])]"
    by (simp add: addresses_def small_net_def)
  have "is_private_ipv4 (word_of_bytes [10, 0, 0, 1])" by code_simp
  then have p: "\<not> public (V4 (word_of_bytes [10, 0, 0, 1]))" by (simp add: public_v4_iff)
  have s: "0 <s permits one_slot" by (simp add: one_slot_def word_sless_alt)
  have q: "sem_acquire 0 [one_slot] = Some ([], ?free)" unfolding sem_acquire_first [OF s] by (simp add: one_slot_def)
  have mem: "V4 (word_of_bytes [10, 0, 0, 1]) \<in> set [V4 (word_of_bytes [10, 0, 0, 1])]" by simp
  note fails = private_api_never_answers [OF u a mem p s q]
  have i: "call_init ?free (call_at ?free ss_new SIdle NIdle)" by (simp add: call_init_def fut_init_def)
  from fails [OF i trace_refl] obtain msg where l: "?res = Inl (Invalid_argument msg)" by blast
  obtain c where c: "reachable (call_init ?free) (call_step ?res) c" "setter (inner_sys c) = SDone" "thener (inner_sys c) = NDone" "call_sem c = ?free"
    using late_failure_run [of ?free "Invalid_argument msg"] unfolding l by fastforce
  have "permits (call_sem c) = 0" by (simp add: c(4))
  moreover have "{cs. list_all (reachable (call_init ?free) (call_step ?res)) cs} \<subseteq> {cs. fut_get (map call_result cs) = None}"
    using fails [OF i trace_refl] by blast
  ultimately show ?thesis using c(1-3) l by metis
qed

end
